(* ===== verification/Prelude.thy ===== *)
theory Prelude
  imports Main "HOL-Library.Word"
begin

text \<open>
  Shared vocabulary of the development: the names of Rust's machine integers, the result of a
  Rust function that may return an error or panic, big endian readings of byte lists, and the
  generic lemmas on lists, bits and words the component theories use.

  Conventions:
  \<^item> \<open>uN\<close> and \<open>iN\<close> are both \<open>N word\<close>; a signed integer is read with \<^term>\<open>sint\<close>, and Rust's
    \<^verbatim>\<open>as\<close> between the two signs is the identity on the word;
  \<^item> \<^verbatim>\<open>usize\<close> values (lengths and indexes of slices in memory) are \<^typ>\<open>nat\<close>; where the code
    checks for overflow of a \<^verbatim>\<open>usize\<close> the bound \<open>2 ^ 64\<close> is written out;
  \<^item> \<^verbatim>\<open>Result<T, E>\<close> is \<open>'e + 't\<close>, with \<^const>\<open>Inl\<close> the error; a function that may also
    panic returns an \<open>outcome\<close>;
  \<^item> \<^verbatim>\<open>&mut self\<close> is state passing: the operation returns the new value of the struct;
  \<^item> \<^verbatim>\<open>BigInt\<close> of the package num-bigint is \<^typ>\<open>int\<close>, with the arithmetic, the comparisons and
    the range checked conversions of the integers.
\<close>

unbundle bit_operations_syntax

subsection \<open>Machine integers\<close>

type_synonym u8 = "8 word"
type_synonym u16 = "16 word"
type_synonym u32 = "32 word"
type_synonym u64 = "64 word"
type_synonym i8 = "8 word"
type_synonym i16 = "16 word"
type_synonym i32 = "32 word"
type_synonym i64 = "64 word"
type_synonym bytes = "u8 list"

text \<open>The sum of two \<^verbatim>\<open>usize\<close> values does not fit: \<^verbatim>\<open>checked_add\<close> returns \<^verbatim>\<open>None\<close>.\<close>

definition exceeds_usize :: "nat \<Rightarrow> bool" where
  "exceeds_usize n \<longleftrightarrow> 18446744073709551615 < int n"

subsection \<open>Results of functions that may fail or panic\<close>

datatype ('e, 'a) outcome = Ret 'a | Fail 'e | Panic

fun obind :: "('e, 'a) outcome \<Rightarrow> ('a \<Rightarrow> ('e, 'b) outcome) \<Rightarrow> ('e, 'b) outcome" where
  "obind (Ret x) f = f x"
| "obind (Fail e) f = Fail e"
| "obind Panic f = Panic"

lemma obind_eq_Ret_iff: "obind m f = Ret y \<longleftrightarrow> (\<exists>x. m = Ret x \<and> f x = Ret y)"
  by (cases m) auto

lemma obind_eq_Panic_iff: "obind m f = Panic \<longleftrightarrow> m = Panic \<or> (\<exists>x. m = Ret x \<and> f x = Panic)"
  by (cases m) auto

lemma obind_cong [fundef_cong]:
  "m = m' \<Longrightarrow> (\<And>x. m' = Ret x \<Longrightarrow> f x = f' x) \<Longrightarrow> obind m f = obind m' f'"
  by (cases m') auto

subsection \<open>Generic facts\<close>

lemma funpow_8: "(f ^^ 8) x = f (f (f (f (f (f (f (f x)))))))"
  by (simp add: eval_nat_numeral)

lemma snoc_butlast_last: "xs \<noteq> [] \<Longrightarrow> take (length xs - 1) xs = butlast xs \<and> xs ! (length xs - 1) = last xs"
  by (simp add: butlast_conv_take last_conv_nth)

subsection \<open>Big endian readings of byte strings\<close>

text \<open>
  \<open>be_val\<close> reads a byte string as a number, most significant byte first.  \<open>be_bytes\<close> is what
  the program relies on of \<^verbatim>\<open>BigInt::to_bytes_be\<close> (a function of the package num-bigint): the
  bytes are the big endian representation of the magnitude, without leading zero bytes (zero may
  be one zero byte).  \<open>be_digits\<close> is a function that satisfies it.
\<close>

definition be_val :: "bytes \<Rightarrow> nat" where
  "be_val bs = foldl (\<lambda>a b. a * 256 + unat b) 0 bs"

definition be_bytes :: "(int \<Rightarrow> bytes) \<Rightarrow> bool" where
  "be_bytes f \<longleftrightarrow> (\<forall>n. 0 \<le> n \<longrightarrow> be_val (f n) = nat n \<and> (1 < length (f n) \<longrightarrow> hd (f n) \<noteq> 0))"

fun be_digits_nat :: "nat \<Rightarrow> bytes" where
  "be_digits_nat n = (if n < 256 then [of_nat n] else be_digits_nat (n div 256) @ [of_nat (n mod 256)])"

definition be_digits :: "int \<Rightarrow> bytes" where
  "be_digits n = be_digits_nat (nat \<bar>n\<bar>)"

declare be_digits_nat.simps [simp del]

lemma be_val_Nil [simp]: "be_val [] = 0"
  by (simp add: be_val_def)

lemma be_val_snoc [simp]: "be_val (bs @ [b]) = be_val bs * 256 + unat b"
  by (simp add: be_val_def)

lemma be_val_single: "be_val [b] = unat b"
  by (simp add: be_val_def)

lemma be_digits_nat_nonempty: "be_digits_nat n \<noteq> []"
  by (subst be_digits_nat.simps) simp

lemma unat_of_nat_u8: "n < 256 \<Longrightarrow> unat (of_nat n :: u8) = n"
  by (simp add: unat_of_nat take_bit_nat_eq_self)

lemma be_val_digits: "be_val (be_digits_nat n) = n"
proof (induction n rule: be_digits_nat.induct)
  case (1 n)
  then show ?case
    by (subst be_digits_nat.simps) (simp add: unat_of_nat_u8 be_val_single)
qed

lemma be_digits_nat_hd: "0 < n \<Longrightarrow> hd (be_digits_nat n) \<noteq> 0"
proof (induction n rule: be_digits_nat.induct)
  case (1 n)
  show ?case
  proof (cases "n < 256")
    case True
    then have "unat (of_nat n :: u8) \<noteq> 0"
      using 1 by (simp add: unat_of_nat_u8)
    with True show ?thesis
      by (subst be_digits_nat.simps) (auto simp: unat_eq_0)
  next
    case False
    with 1 show ?thesis
      by (subst be_digits_nat.simps) (simp add: be_digits_nat_nonempty)
  qed
qed

lemma be_bytes_be_digits: "be_bytes be_digits"
proof -
  have "length (be_digits_nat n) \<le> 1 \<or> hd (be_digits_nat n) \<noteq> 0" for n
    using be_digits_nat_hd [of n] by (cases "n = 0") (simp_all add: be_digits_nat.simps)
  then show ?thesis
    by (auto simp: be_bytes_def be_digits_def be_val_digits) (meson leD)
qed

lemma be_val_Cons: "be_val (b # bs) = unat b * 256 ^ length bs + be_val bs"
  by (induction bs rule: rev_induct) (simp_all add: be_val_single algebra_simps flip: append_Cons)

lemma be_val_less: "be_val bs < 256 ^ length bs"
proof (induction bs)
  case (Cons b bs)
  have "unat b < 256" using unsigned_less [of b] by simp
  then have "Suc (unat b) * 256 ^ length bs \<le> 256 * 256 ^ length bs"
    by (intro mult_le_mono1) simp
  with Cons have "be_val (b # bs) < 256 * 256 ^ length bs"
    unfolding be_val_Cons mult_Suc by linarith
  then show ?case by simp
qed simp

lemma be_bytes_length:
  assumes f: "be_bytes f" and n: "0 \<le> n" "nat n < 256 ^ k" and k: "0 < k"
  shows "length (f n) \<le> k"
proof (cases "length (f n) \<le> 1")
  case True
  with k show ?thesis by simp
next
  case False
  then obtain b bs where fn: "f n = b # bs" and bs: "bs \<noteq> []" by (cases "f n") auto
  with f n False have v: "be_val (b # bs) = nat n" and "b \<noteq> 0"
    by (auto simp: be_bytes_def)
  then have "0 < unat b" by (simp add: unat_gt_0)
  then have "256 ^ length bs \<le> unat b * 256 ^ length bs" by simp
  also have "\<dots> \<le> nat n" using v by (simp add: be_val_Cons)
  finally have "(256::nat) ^ length bs < 256 ^ k" using n by linarith
  then have "length bs < k" by (rule power_less_imp_less_exp [rotated]) simp
  then show ?thesis using fn by simp
qed

text \<open>The bits of the number are the bits of the bytes, counted from the end.\<close>

lemma bit_be_val:
  "bit (be_val bs) k \<longleftrightarrow> k div 8 < length bs \<and> bit (bs ! (length bs - 1 - k div 8)) (k mod 8)"
proof (induction bs arbitrary: k rule: rev_induct)
  case Nil
  then show ?case by simp
next
  case (snoc b bs)
  have small: "unat b < 2 ^ 8" using unsigned_less [of b] by simp
  have "be_val (bs @ [b]) = push_bit 8 (be_val bs) OR unat b"
  proof -
    have "push_bit 8 (be_val bs) AND unat b = 0"
      using small by (auto simp: bit_eq_iff bit_simps not_le dest: bit_imp_le_length)
    then show ?thesis by (simp add: disjunctive_add_eq_or [symmetric] push_bit_eq_mult)
  qed
  then have "bit (be_val (bs @ [b])) k \<longleftrightarrow> (if k < 8 then bit b k else bit (be_val bs) (k - 8))"
    by (auto simp: bit_simps dest: bit_imp_le_length)
  also have "\<dots> \<longleftrightarrow> k div 8 < length (bs @ [b]) \<and> bit ((bs @ [b]) ! (length (bs @ [b]) - 1 - k div 8)) (k mod 8)"
  proof (cases "k < 8")
    case True
    then show ?thesis by simp
  next
    case False
    then obtain k' where k: "k = k' + 8" by (metis add.commute le_Suc_ex not_le)
    have "(k' + 8) div 8 = Suc (k' div 8)" by simp
    then show ?thesis
      using snoc.IH [of k'] by (auto simp: k nth_append simp del: div_add_self2)
  qed
  finally show ?case .
qed

end
