(* ===== verification/Interfaces.thy ===== *)
theory Interfaces
  imports Prelude
begin

text \<open>
  The interfaces the components of the program rely on, as locales: a checksum byte appended to
  the data it protects, and an encoder with a decoder that reads one value off the front of a
  byte string, and a receiver that cuts messages out of a stream of bytes.  The components
  interpret them on their own definitions.
\<close>

subsection \<open>A checksum byte at the end of the data\<close>

text \<open>
  A checksum that tells apart two strings which differ in one byte only.  The crc8 of the bus
  packets and the checksum of the Intel HEX records both are of this kind.
\<close>

locale byte_checksum =
  fixes chk :: "bytes \<Rightarrow> u8"
  assumes chk_inj: "chk (xs @ a # ys) = chk (xs @ b # ys) \<Longrightarrow> a = b"
begin

text \<open>One corrupted byte, data or checksum, never goes unnoticed.\<close>

lemma corrupted_byte_detected:
  assumes good: "p = xs @ [chk xs]" and i: "i < length p" and b: "b \<noteq> p ! i"
  shows "last (p[i := b]) \<noteq> chk (butlast (p[i := b]))"
proof (cases "i = length xs")
  case True
  with good b show ?thesis by simp
next
  case False
  with good i have ix: "i < length xs" by simp
  then have p': "p[i := b] = xs[i := b] @ [chk xs]"
    using good by (simp add: list_update_append)
  have "chk (take i xs @ b # drop (Suc i) xs) \<noteq> chk (take i xs @ xs ! i # drop (Suc i) xs)"
    using chk_inj b good ix by (metis nth_append)
  then have "chk (xs[i := b]) \<noteq> chk xs"
    using ix by (simp add: upd_conv_take_nth_drop id_take_nth_drop [symmetric])
  then show ?thesis by (simp add: p')
qed

end

subsection \<open>Self delimiting encodings\<close>

text \<open>
  \<open>enc\<close> writes a value of \<open>dom\<close>, \<open>dec\<close> reads one value from the front and returns the bytes
  after it.  What is written is read back, whatever follows.
\<close>

locale prefix_codec =
  fixes dom :: "'a \<Rightarrow> bool"
    and enc :: "'a \<Rightarrow> bytes"
    and dec :: "bytes \<Rightarrow> ('a \<times> bytes) option"
  assumes dec_enc: "dom x \<Longrightarrow> dec (enc x @ rest) = Some (x, rest)"
begin

text \<open>No encoding is a prefix of another one, so a concatenation determines its parts.\<close>

lemma enc_prefix_free:
  assumes "dom x" and "dom y" and "enc x @ r = enc y @ s"
  shows "x = y \<and> r = s"
proof -
  have "Some (x, r) = Some (y, s)"
    using assms dec_enc by metis
  then show ?thesis by simp
qed

lemma enc_concat_inj:
  assumes "list_all dom xs" and "list_all dom ys" and "length xs = length ys"
    and "concat (map enc xs) @ r = concat (map enc ys) @ s"
  shows "xs = ys \<and> r = s"
  using assms(3,1,2,4)
proof (induction xs ys rule: list_induct2)
  case Nil
  then show ?case by simp
next
  case (Cons x xs y ys)
  then have "x = y \<and> concat (map enc xs) @ r = concat (map enc ys) @ s"
    using enc_prefix_free [of x y "concat (map enc xs) @ r" "concat (map enc ys) @ s"] by simp
  with Cons show ?case by simp
qed

end

subsection \<open>Messages in a byte stream\<close>

text \<open>
  A receiver is fed the bytes of a stream in pieces of any length, and delivers messages.  \<open>feed\<close>
  returns the new state and what was delivered; \<open>feed_pieces\<close> feeds several pieces.
\<close>

fun feed_pieces :: "('s \<Rightarrow> 'b list \<Rightarrow> 's \<times> 'm list) \<Rightarrow> 's \<Rightarrow> 'b list list \<Rightarrow> 's \<times> 'm list" where
  "feed_pieces feed s [] = (s, [])"
| "feed_pieces feed s (piece # pieces) =
     (let (s', ms) = feed s piece; (s'', ms') = feed_pieces feed s' pieces in (s'', ms @ ms'))"

locale message_stream =
  fixes feed :: "'s \<Rightarrow> 'b list \<Rightarrow> 's \<times> 'm list"
    and idle :: "'s"
    and frame :: "'m \<Rightarrow> 'b list"
    and sendable :: "'m \<Rightarrow> bool"
  assumes feed_Nil: "feed s [] = (s, [])"
    and feed_append: "feed s (xs @ ys) =
      (let (s', ms) = feed s xs; (s'', ms') = feed s' ys in (s'', ms @ ms'))"
    and feed_frame: "sendable m \<Longrightarrow> feed idle (frame m) = (idle, [m])"
begin

lemma feed_pieces_concat: "feed_pieces feed s pieces = feed s (concat pieces)"
  by (induction pieces arbitrary: s) (simp_all add: feed_Nil feed_append split: prod.splits)

lemma feed_frames: "list_all sendable ms \<Longrightarrow> feed idle (concat (map frame ms)) = (idle, ms)"
  by (induction ms) (simp_all add: feed_Nil feed_append feed_frame)

text \<open>However the stream is cut into pieces, exactly the messages sent are delivered, in order.\<close>

lemma pieces_deliver_messages:
  assumes "list_all sendable ms" and "concat pieces = concat (map frame ms)"
  shows "feed_pieces feed idle pieces = (idle, ms)"
  using assms by (simp add: feed_pieces_concat feed_frames)

end

subsection \<open>Packet queues\<close>

text \<open>
  A queue between the threads that put messages and the one that takes them.  It may be shut, after
  which puts are ignored and the messages in it can still be taken.
\<close>

datatype 'm queue_op = QPut 'm | QTake

fun queue_run :: "('m \<Rightarrow> 'q \<Rightarrow> 'q) \<Rightarrow> ('q \<Rightarrow> 'm option \<times> 'q) \<Rightarrow> 'm queue_op list \<Rightarrow> 'q \<Rightarrow> 'm list \<times> 'q" where
  "queue_run put tak [] q = ([], q)"
| "queue_run put tak (QPut m # ops) q = queue_run put tak ops (put m q)"
| "queue_run put tak (QTake # ops) q =
     (let (r, q') = tak q; (ms, q'') = queue_run put tak ops q'
      in ((case r of None \<Rightarrow> [] | Some m \<Rightarrow> [m]) @ ms, q''))"

fun queue_puts :: "'m queue_op list \<Rightarrow> 'm list" where
  "queue_puts [] = []"
| "queue_puts (QPut m # ops) = m # queue_puts ops"
| "queue_puts (QTake # ops) = queue_puts ops"

lemma queue_run_append:
  "queue_run put tak (xs @ ys) q =
     (let (ms, q') = queue_run put tak xs q; (ms', q'') = queue_run put tak ys q' in (ms @ ms', q''))"
  by (induction put tak xs q rule: queue_run.induct) (simp_all add: Let_def split: prod.splits)

lemma queue_puts_append [simp]: "queue_puts (xs @ ys) = queue_puts xs @ queue_puts ys"
  by (induction xs rule: queue_puts.induct) simp_all

locale packet_queue =
  fixes put :: "'m \<Rightarrow> 'q \<Rightarrow> 'q"
    and tak :: "'q \<Rightarrow> 'm option \<times> 'q"
    and waiting :: "'q \<Rightarrow> 'm list"
    and is_open :: "'q \<Rightarrow> bool"
  assumes put_open: "is_open q \<Longrightarrow> is_open (put m q) \<and> waiting (put m q) = waiting q @ [m]"
    and put_shut: "\<not> is_open q \<Longrightarrow> put m q = q"
    and take_first: "waiting q = m # ms \<Longrightarrow> \<exists>q'. tak q = (Some m, q') \<and> waiting q' = ms \<and> is_open q' = is_open q"
    and take_none: "waiting q = [] \<Longrightarrow> tak q = (None, q)"
begin

text \<open>Nothing is lost, doubled or reordered: what was taken and what still waits is what was put.\<close>

lemma fifo:
  "is_open q \<Longrightarrow> queue_run put tak ops q = (ms, q') \<Longrightarrow> is_open q' \<and> ms @ waiting q' = waiting q @ queue_puts ops"
proof (induction ops arbitrary: q ms)
  case Nil
  then show ?case by simp
next
  case (Cons op ops)
  show ?case
  proof (cases op)
    case (QPut m)
    then show ?thesis using Cons put_open [of q m] by fastforce
  next
    case QTake
    show ?thesis
    proof (cases "waiting q")
      case Nil
      then show ?thesis using Cons QTake take_none [of q] by (auto split: prod.splits)
    next
      case (Cons m rest)
      with take_first obtain q1 where "tak q = (Some m, q1)" "waiting q1 = rest" "is_open q1 = is_open q" by blast
      then show ?thesis using Cons.IH [of q1] Cons.prems QTake Cons by (auto split: prod.splits)
    qed
  qed
qed

text \<open>The messages left in a queue that was shut can be taken, and nothing else.\<close>

lemma shut_drains: "\<not> is_open q \<Longrightarrow> queue_run put tak ops q = (ms, q') \<Longrightarrow> \<not> is_open q' \<and> ms @ waiting q' = waiting q"
proof (induction ops arbitrary: q ms)
  case Nil
  then show ?case by simp
next
  case (Cons op ops)
  show ?case
  proof (cases op)
    case (QPut m)
    then show ?thesis using Cons put_shut [of q m] by simp
  next
    case QTake
    show ?thesis
    proof (cases "waiting q")
      case Nil
      then show ?thesis using Cons QTake take_none [of q] by (auto split: prod.splits)
    next
      case (Cons m rest)
      with take_first obtain q1 where "tak q = (Some m, q1)" "waiting q1 = rest" "is_open q1 = is_open q" by blast
      then show ?thesis using Cons.IH [of q1] Cons.prems QTake Cons by (auto split: prod.splits)
    qed
  qed
qed

end

end
