(* ===== verification/Crc8.thy ===== *)
theory Crc8
  imports Interfaces
begin

text \<open>
  The checksum of bus packets, \<^verbatim>\<open>tools.rs\<close>: \<open>crc8\<close>, \<open>crc8_prefix\<close>, \<open>get_valid_packet\<close> and
  \<open>is_packet_crc8_valid\<close>.  The table free computation of the code is compared with the bit
  serial CRC register it implements; the lemmas show which transmission errors it detects.
\<close>

subsection \<open>Definitions\<close>

text \<open>The body of the loop of \<^verbatim>\<open>crc8_prefix\<close>: eight independent tests of the bits of \<open>v\<close>.\<close>

definition crc8_byte :: "u8 \<Rightarrow> u8" where
  "crc8_byte v =
     (let crc = 0;
          crc = (if v AND 0x01 \<noteq> 0 then crc XOR 0x5e else crc);
          crc = (if v AND 0x02 \<noteq> 0 then crc XOR 0xbc else crc);
          crc = (if v AND 0x04 \<noteq> 0 then crc XOR 0x61 else crc);
          crc = (if v AND 0x08 \<noteq> 0 then crc XOR 0xc2 else crc);
          crc = (if v AND 0x10 \<noteq> 0 then crc XOR 0x9d else crc);
          crc = (if v AND 0x20 \<noteq> 0 then crc XOR 0x23 else crc);
          crc = (if v AND 0x40 \<noteq> 0 then crc XOR 0x46 else crc);
          crc = (if v AND 0x80 \<noteq> 0 then crc XOR 0x8c else crc)
      in crc)"

fun crc8_loop :: "u8 \<Rightarrow> bytes \<Rightarrow> u8" where
  "crc8_loop crc [] = crc"
| "crc8_loop crc (byte # data) = crc8_loop (crc8_byte (byte XOR crc)) data"

definition crc8_prefix :: "bytes \<Rightarrow> nat \<Rightarrow> u8" where
  "crc8_prefix data n = crc8_loop 0 (take n data)"

definition crc8 :: "bytes \<Rightarrow> u8" where
  "crc8 data = crc8_prefix data (length data)"

definition get_valid_packet :: "bytes \<Rightarrow> bytes option" where
  "get_valid_packet data =
     (if data \<noteq> [] \<and> crc8_prefix data (length data - 1) = data ! (length data - 1)
      then Some (take (length data - 1) data) else None)"

definition is_packet_crc8_valid :: "bytes \<Rightarrow> bool" where
  "is_packet_crc8_valid data \<longleftrightarrow>
     data \<noteq> [] \<and> crc8_prefix data (length data - 1) = data ! (length data - 1)"

subsection \<open>Reference: the bit serial register\<close>

text \<open>
  One shift of the reflected CRC register of the polynomial \<open>x^8 + x^5 + x^4 + 1\<close> (the Dallas
  1-Wire CRC), and the CRC of a byte string computed with it, bit by bit.
\<close>

definition crc8_bit :: "u8 \<Rightarrow> u8" where
  "crc8_bit c = (if c AND 1 \<noteq> 0 then drop_bit 1 c XOR 0x8c else drop_bit 1 c)"

definition crc8_serial :: "bytes \<Rightarrow> u8" where
  "crc8_serial data = foldl (\<lambda>crc byte. (crc8_bit ^^ 8) (byte XOR crc)) 0 data"

text \<open>The contribution of one bit, the number of ones of a byte, the bits two strings differ in.\<close>

definition crc8_term :: "u8 \<Rightarrow> nat \<Rightarrow> u8 \<Rightarrow> u8" where
  "crc8_term k i v = (if bit v i then k else 0)"

definition popcount :: "u8 \<Rightarrow> nat" where
  "popcount w = length (filter (bit w) [0, 1, 2, 3, 4, 5, 6, 7])"

definition bit_errors :: "bytes \<Rightarrow> bytes \<Rightarrow> nat" where
  "bit_errors xs ys = sum_list (map2 (\<lambda>x y. popcount (x XOR y)) xs ys)"

text \<open>Flipping bit \<open>n\<close> of a packet; bits are numbered in the order they are sent, least significant first.\<close>

definition flip_packet_bit :: "nat \<Rightarrow> bytes \<Rightarrow> bytes" where
  "flip_packet_bit n p = p[n div 8 := flip_bit (n mod 8) (p ! (n div 8))]"

subsection \<open>One byte\<close>

lemma crc8_term_xor: "crc8_term k i (a XOR b) = crc8_term k i a XOR crc8_term k i b"
  by (simp add: crc8_term_def bit_simps)

lemma and_mask_bit:
  "v AND (0x01::u8) \<noteq> 0 \<longleftrightarrow> bit v 0" "v AND (0x02::u8) \<noteq> 0 \<longleftrightarrow> bit v 1"
  "v AND (0x04::u8) \<noteq> 0 \<longleftrightarrow> bit v 2" "v AND (0x08::u8) \<noteq> 0 \<longleftrightarrow> bit v 3"
  "v AND (0x10::u8) \<noteq> 0 \<longleftrightarrow> bit v 4" "v AND (0x20::u8) \<noteq> 0 \<longleftrightarrow> bit v 5"
  "v AND (0x40::u8) \<noteq> 0 \<longleftrightarrow> bit v 6" "v AND (0x80::u8) \<noteq> 0 \<longleftrightarrow> bit v 7"
  using and_exp_eq_0_iff_not_bit [of v 0] and_exp_eq_0_iff_not_bit [of v 1]
    and_exp_eq_0_iff_not_bit [of v 2] and_exp_eq_0_iff_not_bit [of v 3]
    and_exp_eq_0_iff_not_bit [of v 4] and_exp_eq_0_iff_not_bit [of v 5]
    and_exp_eq_0_iff_not_bit [of v 6] and_exp_eq_0_iff_not_bit [of v 7]
  by simp_all

lemma crc8_byte_terms:
  "crc8_byte v = crc8_term 0x5e 0 v XOR crc8_term 0xbc 1 v XOR crc8_term 0x61 2 v XOR crc8_term 0xc2 3 v
     XOR crc8_term 0x9d 4 v XOR crc8_term 0x23 5 v XOR crc8_term 0x46 6 v XOR crc8_term 0x8c 7 v"
  by (simp add: crc8_byte_def crc8_term_def and_mask_bit Let_def)

lemma crc8_byte_xor: "crc8_byte (a XOR b) = crc8_byte a XOR crc8_byte b"
  by (simp only: crc8_byte_terms crc8_term_xor ac_simps)

lemma odd_popcount_xor: "odd (popcount (a XOR b)) \<longleftrightarrow> odd (popcount a) \<noteq> odd (popcount b)"
  by (simp add: popcount_def bit_simps)
lemma crc8_bit_terms: "crc8_bit c = drop_bit 1 c XOR crc8_term 0x8c 0 c"
  using and_mask_bit(1) [of c] by (simp add: crc8_bit_def crc8_term_def)

lemma crc8_bit_xor: "crc8_bit (a XOR b) = crc8_bit a XOR crc8_bit b"
  by (simp only: crc8_bit_terms crc8_term_xor drop_bit_xor ac_simps)

lemma crc8_bit_pow_xor: "(crc8_bit ^^ n) (a XOR b) = (crc8_bit ^^ n) a XOR (crc8_bit ^^ n) b"
  by (induction n) (simp_all add: crc8_bit_xor)

lemma crc8_bit_pow_0 [simp]: "(crc8_bit ^^ n) 0 = 0"
  by (induction n) (simp_all add: crc8_bit_def)

lemma bit_crc8_term_exp: "bit (crc8_term (2 ^ i) i v) n \<longleftrightarrow> n = i \<and> bit v i"
  by (auto simp: crc8_term_def bit_simps dest: bit_imp_le_length)

lemma byte_as_bits:
  "v = crc8_term (2 ^ 0) 0 v XOR crc8_term (2 ^ 1) 1 v XOR crc8_term (2 ^ 2) 2 v XOR crc8_term (2 ^ 3) 3 v
     XOR crc8_term (2 ^ 4) 4 v XOR crc8_term (2 ^ 5) 5 v XOR crc8_term (2 ^ 6) 6 v XOR crc8_term (2 ^ 7) 7 v"
  (is "v = ?w")
proof (rule bit_word_eqI)
  fix n assume "n < LENGTH(8)"
  then have "n = 0 \<or> n = 1 \<or> n = 2 \<or> n = 3 \<or> n = 4 \<or> n = 5 \<or> n = 6 \<or> n = (7::nat)"
    by (simp, arith)
  then show "bit v n = bit ?w n"
    unfolding bit_xor_iff bit_crc8_term_exp by (elim disjE; simp)
qed

lemma crc8_serial_term:
  "(crc8_bit ^^ 8) (crc8_term (2 ^ i) i v) = crc8_term ((crc8_bit ^^ 8) (2 ^ i)) i v"
  by (simp add: crc8_term_def)

lemma crc8_serial_basis:
  "(crc8_bit ^^ 8) (2 ^ 0) = 0x5e" "(crc8_bit ^^ 8) (2 ^ 1) = 0xbc" "(crc8_bit ^^ 8) (2 ^ 2) = 0x61"
  "(crc8_bit ^^ 8) (2 ^ 3) = 0xc2" "(crc8_bit ^^ 8) (2 ^ 4) = 0x9d" "(crc8_bit ^^ 8) (2 ^ 5) = 0x23"
  "(crc8_bit ^^ 8) (2 ^ 6) = 0x46" "(crc8_bit ^^ 8) (2 ^ 7) = 0x8c"
  by (simp_all only: funpow_8) (simp_all add: crc8_bit_def)

lemma crc8_byte_serial: "crc8_byte v = (crc8_bit ^^ 8) v"
proof -
  have "(crc8_bit ^^ 8) v = (crc8_bit ^^ 8) (crc8_term (2 ^ 0) 0 v XOR crc8_term (2 ^ 1) 1 v
     XOR crc8_term (2 ^ 2) 2 v XOR crc8_term (2 ^ 3) 3 v XOR crc8_term (2 ^ 4) 4 v
     XOR crc8_term (2 ^ 5) 5 v XOR crc8_term (2 ^ 6) 6 v XOR crc8_term (2 ^ 7) 7 v)"
    by (simp only: byte_as_bits [of v, symmetric])
  also have "\<dots> = crc8_byte v"
    by (simp only: crc8_bit_pow_xor crc8_serial_term crc8_serial_basis crc8_byte_terms)
  finally show ?thesis ..
qed
lemma crc8_bit_eq_0: "crc8_bit c = 0 \<longleftrightarrow> c = 0"
proof
  assume *: "crc8_bit c = 0"
  have "bit (crc8_bit c) 7 = bit c 0"
    using impossible_bit [of 8 c] by (simp only: crc8_bit_terms) (simp add: bit_simps crc8_term_def)
  with * have b0: "\<not> bit c 0" by simp
  with * have "drop_bit 1 c = 0" by (simp add: crc8_bit_terms crc8_term_def)
  then have "bit (drop_bit 1 c) k = False" for k by simp
  then have "\<not> bit c (Suc k)" for k by (simp add: bit_simps)
  with b0 have "\<not> bit c k" for k by (cases k) auto
  then show "c = 0" by (simp add: bit_eq_iff)
qed (simp add: crc8_bit_def)

lemma crc8_byte_eq_0 [simp]: "crc8_byte v = 0 \<longleftrightarrow> v = 0"
proof -
  have "(crc8_bit ^^ n) v = 0 \<longleftrightarrow> v = 0" for n
    by (induction n) (simp_all add: crc8_bit_eq_0)
  then show ?thesis by (simp add: crc8_byte_serial)
qed

lemma popcount_0: "popcount 0 = 0"
  by (simp add: popcount_def)

lemma odd_popcount_term: "odd (popcount k) \<Longrightarrow> odd (popcount (crc8_term k i v)) \<longleftrightarrow> bit v i"
  by (simp add: crc8_term_def popcount_0)

lemma odd_popcount_constants:
  "odd (popcount 0x5e)" "odd (popcount 0xbc)" "odd (popcount 0x61)" "odd (popcount 0xc2)"
  "odd (popcount 0x9d)" "odd (popcount 0x23)" "odd (popcount 0x46)" "odd (popcount 0x8c)"
  by (simp_all add: popcount_def)

lemma odd_popcount_crc8_byte: "odd (popcount (crc8_byte v)) \<longleftrightarrow> odd (popcount v)"
proof -
  have "odd (popcount v) \<longleftrightarrow> (bit v 0 \<noteq> (bit v 1 \<noteq> (bit v 2 \<noteq> (bit v 3 \<noteq> (bit v 4 \<noteq>
          (bit v 5 \<noteq> (bit v 6 \<noteq> bit v 7)))))))"
    by (simp add: popcount_def)
  then show ?thesis
    by (simp only: crc8_byte_terms odd_popcount_xor odd_popcount_constants [THEN odd_popcount_term])
qed


lemma crc8_bit_pow_push:
  "j \<le> 8 \<Longrightarrow> (crc8_bit ^^ j) (push_bit j h) = take_bit (8 - j) h"
proof (induction j arbitrary: h)
  case 0
  then show ?case by (simp add: take_bit_word_eq_self)
next
  case (Suc j)
  have "crc8_bit (push_bit (Suc j) h) = push_bit j (take_bit (8 - Suc j) h)"
  proof (rule bit_word_eqI)
    fix n assume "n < LENGTH(8)"
    then show "bit (crc8_bit (push_bit (Suc j) h)) n = bit (push_bit j (take_bit (8 - Suc j) h)) n"
      using Suc.prems by (simp only: crc8_bit_terms) (auto simp: bit_simps crc8_term_def simp del: push_bit_Suc)
  qed
  then have "(crc8_bit ^^ Suc j) (push_bit (Suc j) h) = (crc8_bit ^^ j) (push_bit j (take_bit (8 - Suc j) h))"
    by (simp only: funpow_Suc_right o_apply)
  also have "\<dots> = take_bit (8 - Suc j) h"
    using Suc by simp
  finally show ?case .
qed

subsection \<open>Byte strings\<close>

lemma crc8_loop_append [simp]: "crc8_loop c (xs @ ys) = crc8_loop (crc8_loop c xs) ys"
  by (induction xs arbitrary: c) simp_all

lemma crc8_eq_loop: "crc8 data = crc8_loop 0 data"
  by (simp add: crc8_def crc8_prefix_def)

lemma crc8_snoc: "crc8 (xs @ [b]) = crc8_byte (b XOR crc8 xs)"
  by (simp add: crc8_eq_loop)

lemma word_xor_eq_0_iff: "a XOR b = 0 \<longleftrightarrow> a = (b :: 'a::len word)"
  by (auto simp: bit_eq_iff bit_simps)

lemma word_xor_cancel:
  "a XOR c = b XOR c \<longleftrightarrow> a = (b :: 'a::len word)" "c XOR a = c XOR b \<longleftrightarrow> a = b"
  by (auto simp: bit_eq_iff bit_simps)

lemma crc8_byte_inj: "crc8_byte a = crc8_byte b \<longleftrightarrow> a = b"
  using crc8_byte_eq_0 [of "a XOR b"] by (simp add: crc8_byte_xor word_xor_eq_0_iff)

lemma is_packet_crc8_valid_last:
  "is_packet_crc8_valid data \<longleftrightarrow> data \<noteq> [] \<and> last data = crc8 (butlast data)"
  using snoc_butlast_last [of data]
  by (auto simp: is_packet_crc8_valid_def crc8_prefix_def crc8_eq_loop)

lemma is_packet_crc8_valid_iff_crc8_0:
  "is_packet_crc8_valid data \<longleftrightarrow> data \<noteq> [] \<and> crc8 data = 0"
  by (cases data rule: rev_cases) (auto simp: is_packet_crc8_valid_last crc8_snoc word_xor_eq_0_iff)

text \<open>The register is linear: the crc of the difference is the difference of the crcs.\<close>

lemma crc8_loop_xor:
  "length xs = length ys \<Longrightarrow>
     crc8_loop (a XOR b) (map2 (XOR) xs ys) = crc8_loop a xs XOR crc8_loop b ys"
proof (induction xs ys arbitrary: a b rule: list_induct2)
  case Nil
  then show ?case by simp
next
  case (Cons x xs y ys)
  have "(x XOR y) XOR (a XOR b) = (x XOR a) XOR (y XOR b)"
    by (simp only: ac_simps)
  then show ?case
    using Cons.IH by (simp add: crc8_byte_xor)
qed

lemma crc8_loop_zeros: "crc8_loop c (replicate n 0) = 0 \<longleftrightarrow> c = 0"
  by (induction n arbitrary: c) simp_all

lemma crc8_loop_zeros_0 [simp]: "crc8_loop 0 (replicate n 0) = 0"
  by (simp add: crc8_loop_zeros)

lemma odd_popcount_crc8_loop:
  "odd (popcount (crc8_loop c xs)) \<longleftrightarrow> odd (popcount c) \<noteq> odd (sum_list (map popcount xs))"
proof (induction xs arbitrary: c)
  case Nil
  then show ?case by simp
next
  case (Cons x xs)
  show ?case
    unfolding crc8_loop.simps list.map sum_list.Cons even_add Cons.IH odd_popcount_crc8_byte
      odd_popcount_xor by argo
qed

lemma crc8_loop_inj: "crc8_loop a ys = crc8_loop b ys \<longleftrightarrow> a = b"
  by (induction ys arbitrary: a b) (simp_all add: crc8_byte_inj word_xor_cancel)

interpretation crc: byte_checksum crc8
  by unfold_locales (simp add: crc8_eq_loop crc8_loop_inj crc8_byte_inj word_xor_cancel)

lemma bit_errors_odd:
  "length xs = length ys \<Longrightarrow>
     odd (bit_errors xs ys) \<longleftrightarrow> odd (sum_list (map popcount xs)) \<noteq> odd (sum_list (map popcount ys))"
  unfolding bit_errors_def
proof (induction xs ys rule: list_induct2)
  case Nil
  then show ?case by simp
next
  case (Cons x xs y ys)
  then show ?case
    using odd_popcount_xor [of x y] by simp argo
qed

text \<open>What a burst of at most eight bits, starting at bit \<open>k\<close> of a byte, does to the register.\<close>

lemma crc8_burst_state:
  assumes "k < 8"
  shows "crc8_byte (push_bit k pat) XOR drop_bit (8 - k) pat = (crc8_bit ^^ (8 - k)) pat"
proof -
  let ?j = "8 - k"
  have split: "pat = push_bit ?j (drop_bit ?j pat) XOR take_bit ?j pat"
    by (rule bit_word_eqI) (auto simp: bit_simps)
  have "push_bit k pat = push_bit k (take_bit ?j pat)"
    using assms by (intro bit_word_eqI) (auto simp: bit_simps)
  then have "(crc8_bit ^^ k) (push_bit k pat) = take_bit ?j pat"
    using crc8_bit_pow_push [of k "take_bit ?j pat"] assms by simp
  moreover have "(crc8_bit ^^ 8) (push_bit k pat) = (crc8_bit ^^ ?j) ((crc8_bit ^^ k) (push_bit k pat))"
    using assms by (simp flip: funpow_add o_apply [of "crc8_bit ^^ ?j" "crc8_bit ^^ k"])
  ultimately have byte: "crc8_byte (push_bit k pat) = (crc8_bit ^^ ?j) (take_bit ?j pat)"
    by (simp add: crc8_byte_serial)
  have "take_bit k (drop_bit ?j pat) = drop_bit ?j pat"
    using assms by (intro bit_word_eqI) (auto simp: bit_simps dest: bit_imp_le_length)
  then have "(crc8_bit ^^ ?j) (push_bit ?j (drop_bit ?j pat)) = drop_bit ?j pat"
    using crc8_bit_pow_push [of ?j "drop_bit ?j pat"] assms by simp
  then show ?thesis
    by (subst (3) split) (simp add: crc8_bit_pow_xor byte ac_simps)
qed

lemma is_packet_crc8_valid_snoc: "is_packet_crc8_valid p \<longleftrightarrow> (\<exists>xs. p = xs @ [crc8 xs])"
  by (cases p rule: rev_cases) (auto simp: is_packet_crc8_valid_last)

lemma map2_xor_self: "length xs = length ys \<Longrightarrow> map2 (XOR) xs (map2 (XOR) xs ys) = (ys :: bytes)"
  by (induction xs ys rule: list_induct2) simp_all

text \<open>A packet of the same length is valid too exactly when the difference is a codeword.\<close>

lemma crc8_valid_difference:
  assumes "is_packet_crc8_valid p" and "length e = length p"
  shows "is_packet_crc8_valid (map2 (XOR) p e) \<longleftrightarrow> crc8_loop 0 e = 0"
proof -
  have "crc8 (map2 (XOR) p e) = crc8 p XOR crc8_loop 0 e"
    using crc8_loop_xor [of p e 0 0] assms by (simp add: crc8_eq_loop)
  moreover have "crc8 p = 0" and "map2 (XOR) p e \<noteq> []"
    using assms by (auto simp: is_packet_crc8_valid_iff_crc8_0 zip_eq_Nil_iff)
  ultimately show ?thesis
    by (simp add: is_packet_crc8_valid_iff_crc8_0)
qed

subsection \<open>Bit errors\<close>

lemma length_flip_bits [simp]: "length (fold flip_packet_bit ns p) = length p"
  by (induction ns arbitrary: p) (simp_all add: flip_packet_bit_def)

lemma bit_flip_bits:
  assumes "distinct ns" and "\<forall>n\<in>set ns. n < 8 * length p" and "j < length p" and "b < 8"
  shows "bit (fold flip_packet_bit ns p ! j) b \<longleftrightarrow> bit (p ! j) b \<noteq> (8 * j + b \<in> set ns)"
  using assms
proof (induction ns arbitrary: p)
  case (Cons n ns)
  have n: "n div 8 < length p" using Cons.prems(2) by auto
  have "bit (flip_packet_bit n p ! j) b \<longleftrightarrow> bit (p ! j) b \<noteq> (8 * j + b = n)"
  proof (cases "n div 8 = j")
    case True
    then have eq: "(8 * j + b = n) = (n mod 8 = b)" using Cons.prems(4) by presburger
    have "bit (flip_packet_bit n p ! j) b \<longleftrightarrow> bit (p ! j) b \<noteq> (n mod 8 = b)"
      using True n Cons.prems(4) by (auto simp: flip_packet_bit_def bit_flip_bit_iff)
    with eq show ?thesis by metis
  next
    case False
    then have "8 * j + b \<noteq> n" using Cons.prems(4) by auto
    then show ?thesis using False n by (simp add: flip_packet_bit_def nth_list_update)
  qed
  moreover have "length (flip_packet_bit n p) = length p" by (simp add: flip_packet_bit_def)
  ultimately show ?case using Cons.IH [of "flip_packet_bit n p"] Cons.prems by auto
qed simp

lemma crc8_loop_burst:
  assumes "k < 8" and "pat \<noteq> 0"
  shows "crc8_loop 0 (replicate i 0 @ [push_bit k pat, drop_bit (8 - k) pat] @ replicate m 0) \<noteq> 0"
proof -
  have "(crc8_bit ^^ n) pat \<noteq> 0" for n
    using assms by (induction n) (simp_all add: crc8_bit_eq_0)
  then have "crc8_byte (drop_bit (8 - k) pat XOR crc8_byte (push_bit k pat)) \<noteq> 0"
    using crc8_burst_state [of k pat] assms by (simp add: ac_simps)
  then show ?thesis by (simp add: crc8_loop_zeros)
qed

lemma crc8_loop_last: "x \<noteq> 0 \<Longrightarrow> crc8_loop 0 (replicate i 0 @ [x]) \<noteq> 0"
proof -
  assume "x \<noteq> 0"
  then have "(crc8_bit ^^ m) x \<noteq> 0" for m by (induction m) (simp_all add: crc8_bit_eq_0)
  then show ?thesis by (simp add: crc8_byte_serial)
qed

lemma crc8_loop_two:
  assumes k: "k < 8" and low: "\<And>b. bit x b \<Longrightarrow> k \<le> b" and high: "\<And>b. bit y b \<Longrightarrow> b < k"
    and "x \<noteq> 0 \<or> y \<noteq> 0"
  shows "crc8_loop 0 (replicate i 0 @ [x, y] @ replicate m 0) \<noteq> 0"
proof -
  define pat where "pat = drop_bit k x OR push_bit (8 - k) y"
  have x: "push_bit k pat = x"
    using k low by (intro bit_word_eqI) (force simp: pat_def bit_simps)
  have y: "drop_bit (8 - k) pat = y"
    using k high by (intro bit_word_eqI) (force simp: pat_def bit_simps dest: bit_imp_le_length)
  have "pat \<noteq> 0" using x y assms(4) by auto
  then show ?thesis using crc8_loop_burst [OF k] x y by metis
qed

text \<open>The error bytes of flips inside a window of eight bits.\<close>

lemma window_error:
  fixes e :: bytes
  assumes bits: "\<And>j b. j < length e \<Longrightarrow> b < 8 \<Longrightarrow> bit (e ! j) b \<longleftrightarrow> 8 * j + b \<in> set ns"
    and "ns \<noteq> []" and win: "\<forall>n\<in>set ns. s \<le> n \<and> n < s + 8 \<and> n < 8 * length e"
  shows "crc8_loop 0 e \<noteq> 0"
proof -
  define i k where "i = s div 8" and "k = s mod 8"
  have k: "k < 8" and s: "s = 8 * i + k" by (simp_all add: i_def k_def)
  obtain n where n: "n \<in> set ns" using \<open>ns \<noteq> []\<close> by (cases ns) auto
  then have i: "i < length e" and at: "n div 8 = i \<or> n div 8 = Suc i" using win s k by auto
  have bit_n: "bit (e ! (n div 8)) (n mod 8)" using bits [of "n div 8" "n mod 8"] n win by auto
  have set: "8 * j + b \<in> set ns" if "j < length e" "bit (e ! j) b" for j b
    using bits [of j b] that bit_imp_le_length [OF that(2)] by simp
  have zero: "e ! j = 0" if "j < length e" "j \<noteq> i" "j \<noteq> Suc i" for j
  proof (rule bit_word_eqI)
    fix b :: nat
    assume "b < LENGTH(8)"
    then have "8 * j + b \<notin> set ns" using win s k that by force
    then show "bit (e ! j) b \<longleftrightarrow> bit (0 :: u8) b" using set [of j b] that by auto
  qed
  show ?thesis
  proof (cases "Suc i < length e")
    case False
    then have len: "length e = Suc i" using i by simp
    then have e: "e = replicate i 0 @ [e ! i]"
      using zero by (intro nth_equalityI) (auto simp: nth_append less_Suc_eq)
    have "n div 8 = i" using win n s len by fastforce
    then have "e ! i \<noteq> 0" using bit_n by auto
    then show ?thesis by (subst e) (rule crc8_loop_last)
  next
    case True
    have "j = Suc i" if "j - i = Suc 0" for j using that by simp
    then have e: "e = replicate i 0 @ [e ! i, e ! Suc i] @ replicate (length e - Suc (Suc i)) 0"
      using True zero by (intro nth_equalityI) (auto simp: nth_append nth_Cons split: nat.splits)
    have "k \<le> b" if "bit (e ! i) b" for b using set [OF i that] win s by auto
    moreover have "b < k" if "bit (e ! Suc i) b" for b using set [OF True that] win s by auto
    moreover have "e ! i \<noteq> 0 \<or> e ! Suc i \<noteq> 0" using at bit_n by auto
    ultimately show ?thesis by (subst e) (rule crc8_loop_two [OF k])
  qed
qed

subsection \<open>Properties\<close>

text \<open>
  C9: the eight conditional exclusive ors of \<^verbatim>\<open>crc8_prefix\<close> compute, for every byte string, the
  CRC of the bit serial register with the reflected polynomial 0x8c.
\<close>

theorem crc8_equals_bit_serial_crc: "crc8 data = crc8_serial data"
proof -
  have "crc8_loop c data = foldl (\<lambda>crc byte. (crc8_bit ^^ 8) (byte XOR crc)) c data" for c
    by (induction data arbitrary: c) (simp_all add: crc8_byte_serial)
  then show ?thesis by (simp add: crc8_eq_loop crc8_serial_def)
qed

text \<open>
  \<^verbatim>\<open>get_valid_packet\<close> accepts exactly the byte strings that end with the crc8 of what is
  before the last byte, and returns that part.
\<close>

theorem get_valid_packet_strips_exactly_the_crc:
  "get_valid_packet p = Some d \<longleftrightarrow> p = d @ [crc8 d]"
  using snoc_butlast_last [of p]
  by (cases p rule: rev_cases)
    (auto simp: get_valid_packet_def crc8_prefix_def crc8_eq_loop split: if_splits)

text \<open>
  A valid packet in which any odd number of bits was flipped, anywhere in the data and the
  checksum, is no longer valid.
\<close>

lemma crc8_detects_odd_bit_errors:
  assumes "is_packet_crc8_valid p" and "length p' = length p" and "odd (bit_errors p p')"
  shows "\<not> is_packet_crc8_valid p'"
proof
  assume "is_packet_crc8_valid p'"
  with assms have "crc8_loop 0 p = 0" "crc8_loop 0 p' = 0"
    by (simp_all add: is_packet_crc8_valid_iff_crc8_0 crc8_eq_loop)
  then have "even (sum_list (map popcount p))" "even (sum_list (map popcount p'))"
    using odd_popcount_crc8_loop [of 0 p] odd_popcount_crc8_loop [of 0 p'] by (simp_all add: popcount_0)
  with assms show False by (simp add: bit_errors_odd)
qed

text \<open>
  A valid packet in which one byte was replaced by another value is no longer valid.
\<close>

theorem crc8_detects_a_corrupted_byte:
  assumes "is_packet_crc8_valid p" and "i < length p" and "b \<noteq> p ! i"
  shows "\<not> is_packet_crc8_valid (p[i := b])"
  using assms crc.corrupted_byte_detected [of p _ i b]
  by (auto simp: is_packet_crc8_valid_snoc)

text \<open>
  C10: a valid packet hit by an error burst, any non empty set of flipped bits inside a window of eight
  consecutive bits (in the order the bits of a byte are sent, least significant first), is no longer
  valid; the window may lie across two bytes or inside one of them, the checksum included.
\<close>

theorem crc8_detects_bursts:
  assumes valid: "is_packet_crc8_valid p" and flips: "distinct ns" "ns \<noteq> []"
    and win: "\<forall>n\<in>set ns. s \<le> n \<and> n < s + 8 \<and> n < 8 * length p"
  shows "\<not> is_packet_crc8_valid (fold flip_packet_bit ns p)"
proof -
  define e where "e = map2 (XOR) p (fold flip_packet_bit ns p)"
  have len: "length e = length p" by (simp add: e_def)
  have "bit (e ! j) b \<longleftrightarrow> 8 * j + b \<in> set ns" if "j < length e" "b < 8" for j b
    using bit_flip_bits [OF flips(1), of p j b] win that len by (auto simp: e_def bit_xor_iff)
  then have "crc8_loop 0 e \<noteq> 0"
    by (rule window_error [of e ns s]) (use flips win len in auto)
  moreover have "fold flip_packet_bit ns p = map2 (XOR) p e"
    by (simp add: e_def map2_xor_self)
  ultimately show ?thesis using crc8_valid_difference [OF valid len] by simp
qed

theorem crc8_detects_bursts_witness:
  "\<not> is_packet_crc8_valid (fold flip_packet_bit [35, 39] [5, 63, 1, 0, 0xc4])
   \<and> fold flip_packet_bit [35, 39] [5, 63, 1, 0, 0xc4] = [5, 63, 1, 0, 0x4c]"
proof -
  have v: "is_packet_crc8_valid [5, 63, 1, 0, 0xc4]" by code_simp
  have f: "fold flip_packet_bit [35, 39] [5, 63, 1, 0, 0xc4] = [5, 63, 1, 0, 0x4c]" by code_simp
  show ?thesis
    using crc8_detects_bursts [OF v, of "[35, 39]" 34] f by simp
qed

end
