(* ===== verification/Varint.thy ===== *)
theory Varint
  imports Interfaces
begin

text \<open>
  The variable length integers of the bus protocol, \<^verbatim>\<open>tools.rs\<close>: addresses, sequence numbers and
  the \<^verbatim>\<open>VSigned\<close> and \<^verbatim>\<open>VUnsigned\<close> values of the RPC.  A value is written as groups of seven bits,
  most significant group first; every byte but the last one has its highest bit set, and in a
  signed value bit 6 of the first byte is the sign.

  \<^verbatim>\<open>BigInt::to_bytes_be\<close> of the package num-bigint is the parameter \<open>to_bytes_be\<close> (the bytes of the
  magnitude); the properties assume \<^const>\<open>be_bytes\<close> of it.
\<close>

subsection \<open>Definitions\<close>

datatype PackError = NegativeUnsignedValue | StartIndexOutOfBounds | DestinationTooSmall nat

datatype UnpackError = IncompleteValue

definition strip_leading_zero :: "bytes \<Rightarrow> bytes" where
  "strip_leading_zero bs = (if 1 < length bs \<and> bs ! 0 = 0 then tl bs else bs)"

definition magnitude_bytes_for_pack ::
  "(int \<Rightarrow> bytes) \<Rightarrow> bool \<Rightarrow> int \<Rightarrow> PackError + (bool option \<times> bytes)" where
  "magnitude_bytes_for_pack to_bytes_be is_signed value =
     (if \<not> is_signed \<and> value < 0 then Inl NegativeUnsignedValue
      else
        let magnitude = (if is_signed \<and> value < 0 then - value - 1 else value)
        in Inr (if is_signed then Some (value < 0) else None,
                strip_leading_zero (to_bytes_be magnitude)))"

text \<open>The loop \<^verbatim>\<open>while last != 0\<close> of \<^verbatim>\<open>calc_pack_req_bytes_bytes\<close>.\<close>

fun count_significant :: "nat \<Rightarrow> nat \<Rightarrow> nat" where
  "count_significant required last_byte =
     (if last_byte \<noteq> 0 then count_significant (required + 1) (last_byte div 2) else required)"

definition calc_pack_req_bytes_bytes :: "bool \<Rightarrow> bytes \<Rightarrow> nat" where
  "calc_pack_req_bytes_bytes is_signed value =
     (if value = [] then 1
      else
        let required = 9 * (length value - 1) + (length value - 1) div 7;
            last_byte = unat (value ! 0);
            msb = (last_byte AND 0x80 \<noteq> 0);
            required = count_significant required last_byte;
            required = (if msb then required + 1 else required);
            required = (if is_signed then required + 1 else required)
        in (required + 8) div 8)"

text \<open>The seven bits of one output byte: the first half of the body of the packing loop.\<close>

definition pack_digit :: "bytes \<Rightarrow> nat \<Rightarrow> int \<Rightarrow> u64" where
  "pack_digit magnitude offset index =
     (let value =
        (if offset = 0
         then (if 0 \<le> index then ucast (magnitude ! nat index) else 0)
         else if 0 \<le> index + 1 \<and> nat (index + 1) < length magnitude
         then let v = drop_bit (8 - offset) (ucast (magnitude ! nat (index + 1)))
              in (if 0 \<le> index then v OR push_bit offset (ucast (magnitude ! nat index)) else v)
         else 0)
      in value AND 0x7f)"

text \<open>
  The loop \<^verbatim>\<open>for output_index in (0..required).rev()\<close>; the argument \<open>n\<close> is the number of bytes
  still to write, so the output index is \<open>n - 1\<close>.
\<close>

fun pack_loop ::
  "bool option \<Rightarrow> bytes \<Rightarrow> nat \<Rightarrow> nat \<Rightarrow> nat \<Rightarrow> nat \<Rightarrow> int \<Rightarrow> bytes \<Rightarrow> bytes" where
  "pack_loop negative magnitude required start_index 0 offset index dst = dst"
| "pack_loop negative magnitude required start_index (Suc output_index) offset index dst =
     (let value = pack_digit magnitude offset index;
          offset' = offset + 1;
          index' = (if offset' = 8 then index + 1 else index);
          offset' = (if offset' = 8 then 0 else offset');
          value = (if output_index \<noteq> required - 1 then value OR 0x80 else value);
          value = (if negative = Some True \<and> output_index = 0 then value OR 0x40 else value)
      in pack_loop negative magnitude required start_index output_index offset' (index' - 1)
           (dst[start_index + output_index := ucast value]))"

definition pack_value_magnitude ::
  "bool option \<Rightarrow> bytes \<Rightarrow> bytes \<Rightarrow> nat \<Rightarrow> PackError + (nat \<times> bytes)" where
  "pack_value_magnitude negative magnitude dst start_index =
     (if magnitude = [] then
        if length dst \<le> start_index then Inl StartIndexOutOfBounds
        else Inr (1, dst[start_index := (if negative = Some True then 0x40 else 0)])
      else
        let required = calc_pack_req_bytes_bytes (negative \<noteq> None) magnitude
        in if exceeds_usize (start_index + required) then Inl (DestinationTooSmall required)
           else if length dst < start_index + required then Inl (DestinationTooSmall required)
           else Inr (required,
                  pack_loop negative magnitude required start_index required 0
                    (int (length magnitude) - 1) dst))"

definition pack_value :: "(int \<Rightarrow> bytes) \<Rightarrow> bool \<Rightarrow> int \<Rightarrow> PackError + bytes" where
  "pack_value to_bytes_be is_signed value =
     (case magnitude_bytes_for_pack to_bytes_be is_signed value of
        Inl e \<Rightarrow> Inl e
      | Inr (negative, magnitude) \<Rightarrow>
          let required = calc_pack_req_bytes_bytes (negative \<noteq> None) magnitude;
              dst = replicate required 0
          in (case pack_value_magnitude negative magnitude dst 0 of
                Inl e \<Rightarrow> Inl e
              | Inr (_, dst) \<Rightarrow> Inr dst))"

definition pack_i128 :: "(int \<Rightarrow> bytes) \<Rightarrow> bool \<Rightarrow> 128 word \<Rightarrow> PackError + bytes" where
  "pack_i128 to_bytes_be is_signed value = pack_value to_bytes_be is_signed (sint value)"

definition pack_u128 :: "(int \<Rightarrow> bytes) \<Rightarrow> 128 word \<Rightarrow> PackError + bytes" where
  "pack_u128 to_bytes_be value = pack_value to_bytes_be False (uint value)"

text \<open>On success the number of bytes written and the changed buffer.\<close>

definition pack_value_into ::
  "(int \<Rightarrow> bytes) \<Rightarrow> bool \<Rightarrow> int \<Rightarrow> bytes \<Rightarrow> nat \<Rightarrow> PackError + (nat \<times> bytes)" where
  "pack_value_into to_bytes_be is_signed value dst start_index =
     (case magnitude_bytes_for_pack to_bytes_be is_signed value of
        Inl e \<Rightarrow> Inl e
      | Inr (negative, magnitude) \<Rightarrow>
          let required = calc_pack_req_bytes_bytes (negative \<noteq> None) magnitude
          in if length dst < start_index then Inl StartIndexOutOfBounds
             else if exceeds_usize (start_index + required) then Inl (DestinationTooSmall required)
             else if length dst < start_index + required then Inl (DestinationTooSmall required)
             else (case pack_value_magnitude negative magnitude dst start_index of
                     Inl e \<Rightarrow> Inl e
                   | Inr (_, dst) \<Rightarrow> Inr (required, dst)))"

text \<open>The loop that looks for the last byte of the value, and the one that collects the groups.\<close>

function unpack_scan :: "bytes \<Rightarrow> nat \<Rightarrow> nat \<Rightarrow> nat option" where
  "unpack_scan data start_index used =
     (if start_index + used - 1 < length data
      then if data ! (start_index + used - 1) AND 0x80 = 0 then Some used
           else unpack_scan data start_index (used + 1)
      else None)"
  by pat_completeness auto
termination
  by (relation "measure (\<lambda>(data, start_index, used). length data + 1 - (start_index + used))") auto

declare unpack_scan.simps [simp del] count_significant.simps [simp del]

fun unpack_groups :: "bool \<Rightarrow> bytes \<Rightarrow> nat \<Rightarrow> nat list \<Rightarrow> int \<Rightarrow> int" where
  "unpack_groups is_signed data start_index [] magnitude = magnitude"
| "unpack_groups is_signed data start_index (offset # offsets) magnitude =
     (let first_cut = (if is_signed then 0x3f else 0x7f);
          mask = (if offset = 0 then first_cut else 0x7f);
          digit = data ! (start_index + offset) AND mask
      in unpack_groups is_signed data start_index offsets (magnitude * 128 + uint digit))"

definition unpack_value :: "bool \<Rightarrow> bytes \<Rightarrow> nat \<Rightarrow> UnpackError + (int \<times> nat)" where
  "unpack_value is_signed data start_index =
     (case unpack_scan data start_index 1 of
        None \<Rightarrow> Inl IncompleteValue
      | Some used \<Rightarrow>
          let magnitude = unpack_groups is_signed data start_index [0..<used] 0;
              result = (if is_signed \<and> data ! start_index AND 0x40 \<noteq> 0 then - magnitude - 1
                        else magnitude)
          in Inr (result, used))"

subsection \<open>The number of bytes\<close>

lemma count_significant_0 [simp]: "count_significant r 0 = r"
  by (simp add: count_significant.simps)

lemma count_significant_add: "count_significant r n = r + count_significant 0 n"
proof (induction n arbitrary: r rule: less_induct)
  case (less n)
  show ?case
  proof (cases "n = 0")
    case True
    then show ?thesis by simp
  next
    case False
    then have "count_significant (r + 1) (n div 2) = (r + 1) + count_significant 0 (n div 2)"
      and "count_significant 1 (n div 2) = 1 + count_significant 0 (n div 2)"
      using less.IH [of "n div 2" "r + 1"] less.IH [of "n div 2" 1] by simp_all
    with False show ?thesis
      by (simp add: count_significant.simps [of r n] count_significant.simps [of 0 n])
  qed
qed

lemma count_significant_pos: "0 < n \<Longrightarrow> count_significant 0 n = Suc (count_significant 0 (n div 2))"
  by (simp add: count_significant.simps [of 0 n] count_significant_add [of "Suc 0"])

lemma count_significant_less: "n < 2 ^ count_significant 0 n"
proof (induction n rule: less_induct)
  case (less n)
  show ?case
  proof (cases "n = 0")
    case False
    then have "n div 2 < 2 ^ count_significant 0 (n div 2)"
      using less.IH [of "n div 2"] by auto
    then have "n < 2 * 2 ^ count_significant 0 (n div 2)" by linarith
    with False show ?thesis by (simp add: count_significant_pos)
  qed simp
qed

lemma count_significant_greatest: "0 < n \<Longrightarrow> 2 ^ (count_significant 0 n - 1) \<le> n"
proof (induction n rule: less_induct)
  case (less n)
  have step: "count_significant 0 n = Suc (count_significant 0 (n div 2))"
    using less.prems by (rule count_significant_pos)
  show ?case
  proof (cases "n div 2 = 0")
    case True
    then show ?thesis using less.prems step by simp
  next
    case False
    then have "2 ^ (count_significant 0 (n div 2) - 1) \<le> n div 2"
      using less.IH [of "n div 2"] by auto
    moreover have "0 < count_significant 0 (n div 2)"
      using False by (simp add: count_significant_pos)
    ultimately have "2 ^ count_significant 0 (n div 2) \<le> n"
      by (cases "count_significant 0 (n div 2)") auto
    then show ?thesis by (simp add: step)
  qed
qed

lemma count_significant_u8: "count_significant 0 (unat (b::u8)) \<le> 8"
proof (cases "unat b = 0")
  case True
  then show ?thesis by simp
next
  case False
  have "unat b < 2 ^ 8" using unsigned_less [of b] by simp
  with False have "(2::nat) ^ (count_significant 0 (unat b) - 1) < 2 ^ 8"
    using count_significant_greatest [of "unat b"] by linarith
  then have "count_significant 0 (unat b) - 1 < 8" by (rule power_less_imp_less_exp [rotated]) simp
  then show ?thesis by simp
qed


lemma count_significant_unique:
  assumes "2 ^ k \<le> n" and "n < 2 ^ Suc k" shows "count_significant 0 n = Suc k"
proof -
  have "0 < n" using assms(1) by (rule less_le_trans [rotated]) simp
  then have "2 ^ (count_significant 0 n - 1) \<le> n" by (rule count_significant_greatest)
  with assms(2) have "(2::nat) ^ (count_significant 0 n - 1) < 2 ^ Suc k" by linarith
  then have "count_significant 0 n - 1 < Suc k" by (rule power_less_imp_less_exp [rotated]) simp
  moreover have "(2::nat) ^ k < 2 ^ count_significant 0 n"
    using count_significant_less [of n] assms(1) by linarith
  then have "k < count_significant 0 n" by (rule power_less_imp_less_exp [rotated]) simp
  ultimately show ?thesis by simp
qed

lemma msb_iff: "unat (b::u8) AND 0x80 \<noteq> 0 \<longleftrightarrow> count_significant 0 (unat b) = 8"
proof -
  have small: "unat b < 2 ^ 8" using unsigned_less [of b] by simp
  have "unat b AND 0x80 \<noteq> 0 \<longleftrightarrow> bit (unat b) 7"
    using and_exp_eq_0_iff_not_bit [of "unat b" 7] by simp
  also have "\<dots> \<longleftrightarrow> 128 \<le> unat b"
  proof (cases "128 \<le> unat b")
    case True
    then have "unat b div 128 = 1" using small by (intro div_nat_eqI) auto
    then show ?thesis using True by (simp add: bit_iff_odd)
  qed (simp add: bit_iff_odd)
  also have "\<dots> \<longleftrightarrow> count_significant 0 (unat b) = 8"
    using count_significant_unique [of 7 "unat b"] count_significant_greatest [of "unat b"] small
    by (cases "unat b = 0") auto
  finally show ?thesis .
qed

text \<open>The significant bits of a magnitude without leading zero bytes.\<close>

definition mag_bits :: "bytes \<Rightarrow> nat" where
  "mag_bits bs = (if bs = [] then 0 else 8 * (length bs - 1) + count_significant 0 (unat (bs ! 0)))"

definition no_leading_zero :: "bytes \<Rightarrow> bool" where
  "no_leading_zero bs \<longleftrightarrow> (1 < length bs \<longrightarrow> bs ! 0 \<noteq> 0)"

lemma req_table:
  "\<forall>r\<in>set [0..<7]. \<forall>c\<in>set [0..<9]. \<forall>s\<in>set [0..<2]. \<forall>z\<in>set [0..<2].
     (z = 0 \<and> c = 0 \<longrightarrow> r = 0) \<longrightarrow> (z = 1 \<longrightarrow> 0 < c) \<longrightarrow>
     (9 * r + c + of_bool (c = 8) + s + 8) div 8 =
       (if z = 0 then max 1 ((8 * r + c + s + 6) div 7) else (8 * r + c + s + 6) div (7::nat))"
  by code_simp

lemma calc_pack_req_bytes_ceiling:
  assumes nz: "no_leading_zero bs"
  shows "calc_pack_req_bytes_bytes sg bs = max 1 ((mag_bits bs + of_bool sg + 6) div 7)"
proof (cases "bs = []")
  case True then show ?thesis by (cases sg) (simp_all add: calc_pack_req_bytes_bytes_def mag_bits_def)
next
  case False
  define k where "k = length bs - 1"
  define c where "c = count_significant 0 (unat (bs ! 0))"
  define q where "q = k div 7"
  define r where "r = k mod 7"
  define s :: nat where "s = of_bool sg"
  have k: "k = 7 * q + r" "r < 7" by (simp_all add: q_def r_def)
  have c: "c \<le> 8" "0 < k \<longrightarrow> 0 < c"
    using nz False count_significant_u8 [of "bs ! 0"] 
    by (auto simp: c_def k_def no_leading_zero_def unat_gt_0 count_significant_pos)
  have s: "s < 2" by (simp add: s_def)
  have mb: "mag_bits bs = 8 * k + c" using False by (simp add: mag_bits_def k_def c_def)
  have "calc_pack_req_bytes_bytes sg bs =
      (count_significant (9 * k + k div 7) (unat (bs ! 0)) + of_bool (unat (bs ! 0) AND 0x80 \<noteq> 0) + s + 8) div 8"
    using False by (simp add: calc_pack_req_bytes_bytes_def Let_def k_def s_def)
  also have "\<dots> = (9 * k + k div 7 + (c + of_bool (c = 8) + s) + 8) div 8"
    unfolding msb_iff count_significant_add [of "9 * k + k div 7"] c_def by (simp add: ac_simps)
  also have "9 * k + k div 7 + (c + of_bool (c = 8) + s) + 8 = 8 * (8 * q) + (9 * r + c + of_bool (c = 8) + s + 8)"
    using k by (simp add: q_def)
  also have "\<dots> div 8 = 8 * q + (9 * r + c + of_bool (c = 8) + s + 8) div 8"
    by (simp add: ac_simps)
  also have "\<dots> = max 1 (8 * q + (8 * r + c + s + 6) div 7)"
  proof (cases "q = 0")
    case True
    then have "c = 0 \<longrightarrow> r = 0" using c k by auto
    with True show ?thesis using req_table c k s by force
  next
    case False
    then have "0 < c" using c k by auto
    moreover from this have "(9 * r + c + of_bool (c = 8) + s + 8) div 8 = (8 * r + c + s + 6) div 7"
      using req_table [THEN bspec, of r, THEN bspec, of c, THEN bspec, of s, THEN bspec, of 1] c k s by simp
    ultimately show ?thesis using False by simp
  qed
  also have "8 * q + (8 * r + c + s + 6) div 7 = (7 * (8 * q) + (8 * r + c + s + 6)) div 7" by simp
  also have "7 * (8 * q) + (8 * r + c + s + 6) = mag_bits bs + of_bool sg + 6"
    using False unfolding mb k(1) by (simp add: s_def)
  finally show ?thesis .
qed

text \<open>A byte of the encoding, from the number it encodes.\<close>

definition packed_byte :: "bool option \<Rightarrow> nat \<Rightarrow> nat \<Rightarrow> nat \<Rightarrow> u8" where
  "packed_byte neg m req i =
     (take_bit 7 (of_nat (drop_bit (7 * (req - 1 - i)) m))
        OR (if i \<noteq> req - 1 then 0x80 else 0)) OR (if neg = Some True \<and> i = 0 then 0x40 else 0)"

lemma bit_mask_constants:
  "bit (0x7f :: int) i \<longleftrightarrow> i < 7" "bit (0x3f :: int) i \<longleftrightarrow> i < 6"
  "bit (0x80 :: int) i \<longleftrightarrow> i = 7" "bit (0x40 :: int) i \<longleftrightarrow> i = 6"
proof -
  have "(0x7f :: int) = mask 7" "(0x3f :: int) = mask 6"
    by (simp_all add: mask_eq_exp_minus_1)
  then show "bit (0x7f :: int) i \<longleftrightarrow> i < 7" "bit (0x3f :: int) i \<longleftrightarrow> i < 6"
    by (simp_all only: bit_mask_iff possible_bit_int simp_thms)
  have "(0x80 :: int) = 2 ^ 7" "(0x40 :: int) = 2 ^ 6" by simp_all
  then show "bit (0x80 :: int) i \<longleftrightarrow> i = 7" "bit (0x40 :: int) i \<longleftrightarrow> i = 6"
    by (auto simp only: bit_exp_iff possible_bit_int)
qed

lemma bit_pack_digit:
  fixes j i :: nat
  assumes ne: "bs \<noteq> []"
  shows "bit (pack_digit bs (j mod 8) (int (length bs) - 1 - int j + int (j div 8))) i
           \<longleftrightarrow> i < 7 \<and> bit (be_val bs) (7 * j + i)"
proof (cases "i < 7")
  case False
  then show ?thesis by (simp add: pack_digit_def Let_def bit_and_iff bit_mask_constants)
next
  case i: True
  define q where "q = j div 8"
  define r where "r = j mod 8"
  define e where "e = 7 * q + r"
  have r: "r < 8" and j: "j = 8 * q + r" by (simp_all add: q_def r_def)
  have idx: "int (length bs) - 1 - int j + int (j div 8) = int (length bs) - 1 - int e"
    using r by (simp add: e_def j)
  have pos: "7 * j + i = 8 * e + i - r" using r by (simp add: e_def j)
  have u: "bit (ucast b :: u64) n \<longleftrightarrow> bit b n" for b :: u8 and n
    by (auto simp: bit_simps dest: bit_imp_le_length)
  have u8: "bit b n \<Longrightarrow> n < 8" for b :: u8 and n
    by (auto dest: bit_imp_le_length)
  have nat_idx: "int e < int (length bs) \<Longrightarrow> nat (int (length bs) - 1 - int e) = length bs - 1 - e"
    by simp
  show ?thesis
  proof (cases "i < r")
    case True
    then have e0: "0 < e" by (simp add: e_def)
    define t where "t = 8 - r + i"
    have t: "t < 8" using True r by (simp add: t_def)
    have "7 * j + i = t + 8 * (e - 1)" using True r e0 pos by (simp add: t_def)
    with t have d: "(7 * j + i) div 8 = e - 1" "(7 * j + i) mod 8 = 8 - r + i"
      unfolding t_def [symmetric] by simp_all
    have "nat (int (length bs) - int e) = length bs - e" by simp
    with True i r e0 show ?thesis
      unfolding bit_be_val d idx pack_digit_def r_def [symmetric]
      by (auto simp: Let_def bit_simps bit_mask_constants u)
  next
    case False
    have "7 * j + i = (i - r) + 8 * e" using False pos by simp
    moreover have "i - r < 8" using i by simp
    ultimately have d: "(7 * j + i) div 8 = e" "(7 * j + i) mod 8 = i - r"
      by simp_all
    have e0: "0 < r \<Longrightarrow> 0 < e" by (simp add: e_def)
    show ?thesis
    proof (cases "e < length bs")
      case True
      define n where "n = length bs - 1 - e"
      have n: "int (length bs) - 1 - int e = int n" "length bs - 1 - e = n" "n < length bs"
        "0 < r \<Longrightarrow> Suc n < length bs"
        using True e0 by (auto simp: n_def)
      from True False i r n(3,4) show ?thesis
        unfolding bit_be_val d idx pack_digit_def r_def [symmetric] n(1,2)
        by (auto simp: Let_def bit_simps bit_mask_constants u nat_add_distrib dest: u8)
    next
      case beyond: False
      with False i r show ?thesis
        unfolding bit_be_val d idx pack_digit_def r_def [symmetric]
        by (auto simp: Let_def bit_simps bit_mask_constants u dest: u8)
    qed
  qed
qed

lemma bit_packed_byte:
  "bit (packed_byte neg m req i) k \<longleftrightarrow>
     k < 7 \<and> bit m (7 * (req - 1 - i) + k) \<or> i \<noteq> req - 1 \<and> k = 7 \<or> neg = Some True \<and> i = 0 \<and> k = 6"
  unfolding packed_byte_def
  by (auto simp: bit_or_iff bit_take_bit_iff bit_of_nat_iff bit_drop_bit_eq bit_mask_constants)

lemma pack_loop_eq:
  assumes bs: "bs \<noteq> []" and "n \<le> req" and "start + req \<le> length dst" and "j = req - n"
  shows "pack_loop neg bs req start n (j mod 8) (int (length bs) - 1 - int j + int (j div 8)) dst =
           take start dst @ map (packed_byte neg (be_val bs) req) [0..<n] @ drop (start + n) dst"
  using assms(2-)
proof (induction n arbitrary: j dst)
  case 0
  then show ?case by simp
next
  case (Suc n)
  define idx where "idx = int (length bs) - 1 - int j + int (j div 8)"
  define v where "v = pack_digit bs (j mod 8) idx"
  define v1 where "v1 = (if n \<noteq> req - 1 then v OR 0x80 else v)"
  define v2 where "v2 = (if neg = Some True \<and> n = 0 then v1 OR 0x40 else v1)"
  have j: "j = req - 1 - n" using Suc.prems by simp
  have bv: "bit v i \<longleftrightarrow> i < 7 \<and> bit (be_val bs) (7 * j + i)" for i
    unfolding v_def idx_def by (rule bit_pack_digit [OF bs])
  have byte: "ucast v2 = packed_byte neg (be_val bs) req n"
    by (rule bit_word_eqI)
      (auto simp: bit_ucast_iff v2_def v1_def bit_packed_byte bit_or_iff bit_mask_constants bv j)
  have next_state: "(if j mod 8 + 1 = 8 then 0 else j mod 8 + 1) = Suc j mod 8"
    "(if j mod 8 + 1 = 8 then idx + 1 else idx) - 1 = int (length bs) - 1 - int (Suc j) + int (Suc j div 8)"
    by (auto simp: idx_def mod_Suc div_Suc)
  have "pack_loop neg bs req start (Suc n) (j mod 8) idx dst =
      pack_loop neg bs req start n (Suc j mod 8)
        (int (length bs) - 1 - int (Suc j) + int (Suc j div 8)) (dst[start + n := ucast v2])"
    by (simp only: pack_loop.simps Let_def next_state v_def [symmetric] v1_def [symmetric] v2_def [symmetric])
  also have "\<dots> = take start (dst[start + n := ucast v2]) @ map (packed_byte neg (be_val bs) req) [0..<n]
      @ drop (start + n) (dst[start + n := ucast v2])"
    using Suc.prems by (intro Suc.IH) auto
  also have "drop (start + n) (dst[start + n := ucast v2]) = ucast v2 # drop (start + Suc n) dst"
    using Suc.prems by (simp add: upd_conv_take_nth_drop)
  finally show ?case
    using Suc.prems by (simp add: byte idx_def)
qed

lemma unpack_groups_snoc:
  "unpack_groups sg data start (xs @ [x]) m =
     unpack_groups sg data start xs m * 128 +
       uint (data ! (start + x) AND (if x = 0 then (if sg then 0x3f else 0x7f) else 0x7f))"
  by (induction xs arbitrary: m) (simp_all add: Let_def)

lemma unpack_scan_found:
  assumes "k < length data - start" and "\<And>i. i < k \<Longrightarrow> bit (data ! (start + i)) 7"
    and "\<not> bit (data ! (start + k)) 7" and "i \<le> k"
  shows "unpack_scan data start (Suc i) = Some (Suc k)"
  using assms(4)
proof (induction "k - i" arbitrary: i)
  case 0
  have "data ! (start + k) AND 0x80 = 0"
    using assms(3) by (intro bit_word_eqI) (auto simp: bit_and_iff bit_mask_constants)
  then show ?case using 0 assms(1) by (subst unpack_scan.simps) simp
next
  case (Suc d)
  then have "i < k" by simp
  then have "bit (data ! (start + i) AND 0x80) 7"
    using assms(2) by (simp add: bit_and_iff bit_mask_constants)
  then have "data ! (start + i) AND 0x80 \<noteq> 0" by auto
  moreover have "unpack_scan data start (Suc (Suc i)) = Some (Suc k)"
    using Suc by (intro Suc.hyps(1)) auto
  ultimately show ?case
    using Suc assms(1) by (subst unpack_scan.simps) simp
qed

lemma unpack_groups_packed:
  assumes m: "m < 2 ^ (7 * req - of_bool sg)" and neg: "neg \<noteq> None \<longleftrightarrow> sg" and "n \<le> req"
    and data: "\<And>i. i < req \<Longrightarrow> data ! (start + i) = packed_byte neg m req i"
  shows "unpack_groups sg data start [0..<n] 0 = int (drop_bit (7 * (req - n)) m)"
  using assms(3)
proof (induction n)
  case 0
  have "m < 2 ^ (7 * req)" using m by (rule less_le_trans) simp
  then show ?case by (simp add: drop_bit_eq_div)
next
  case (Suc n)
  define d where "d = drop_bit (7 * (req - Suc n)) m"
  have high: "7 * req - of_bool sg \<le> k \<Longrightarrow> \<not> bit m k" for k
    using m by (metis bit_take_bit_iff leD take_bit_nat_eq_self)
  have top: "\<not> bit m (7 * (req - Suc 0) + k)" if "k < 7" "\<not> k < 6" sg for k
  proof -
    have "7 * (req - Suc 0) + k = 7 * req - 1" using that Suc.prems by simp
    then show ?thesis using high [of "7 * req - 1"] that by simp
  qed
  have "data ! (start + n) AND (if n = 0 then (if sg then 0x3f else 0x7f) else 0x7f) = take_bit 7 (of_nat d)"
    using Suc.prems neg
    by (intro bit_word_eqI)
      (auto simp: data bit_packed_byte bit_and_iff bit_take_bit_iff bit_of_nat_iff bit_drop_bit_eq
        d_def bit_mask_constants dest: top)
  moreover have "uint (take_bit 7 (of_nat d) :: u8) = int (d mod 128)"
    by (simp add: unsigned_take_bit_eq unsigned_of_nat take_bit_of_nat) (simp add: take_bit_eq_mod)
  moreover have "drop_bit (7 * (req - n)) m = d div 128"
  proof -
    have "7 * (req - n) = 7 + 7 * (req - Suc n)" using Suc.prems by simp
    then have "drop_bit (7 * (req - n)) m = drop_bit 7 d" by (simp only: d_def drop_bit_drop_bit)
    then show ?thesis by (simp add: drop_bit_eq_div)
  qed
  ultimately show ?case
    using Suc unfolding upt_Suc_append [OF le0] unpack_groups_snoc d_def [symmetric]
    by (simp add: zdiv_int zmod_int)
qed

lemma be_val_less_mag_bits: "be_val bs < 2 ^ mag_bits bs"
proof (cases bs)
  case (Cons b cs)
  have "unat b + 1 \<le> 2 ^ count_significant 0 (unat b)"
    using count_significant_less [of "unat b"] by simp
  then have "(unat b + 1) * 256 ^ length cs \<le> 2 ^ count_significant 0 (unat b) * 256 ^ length cs"
    by (rule mult_le_mono1)
  then have "be_val bs < 2 ^ count_significant 0 (unat b) * 256 ^ length cs"
    using be_val_less [of cs] by (simp add: Cons be_val_Cons)
  also have "(256::nat) ^ length cs = 2 ^ (8 * length cs)" by (simp add: power_mult)
  finally show ?thesis by (simp add: Cons mag_bits_def power_add mult.commute)
qed (simp add: mag_bits_def)

lemma mag_bits_tight:
  assumes "no_leading_zero bs" and "0 < be_val bs"
  shows "2 ^ (mag_bits bs - 1) \<le> be_val bs"
proof (cases bs)
  case (Cons b cs)
  with assms have "0 < unat b"
    by (cases cs) (auto simp: no_leading_zero_def be_val_single unat_gt_0)
  then have c: "2 ^ (count_significant 0 (unat b) - 1) \<le> unat b" "0 < count_significant 0 (unat b)"
    using count_significant_greatest count_significant_pos by simp_all
  from c(1) have "2 ^ (count_significant 0 (unat b) - 1) * 256 ^ length cs \<le> unat b * 256 ^ length cs"
    by (rule mult_le_mono1)
  moreover have "mag_bits bs - 1 = (count_significant 0 (unat b) - 1) + 8 * length cs"
    using c(2) by (simp add: Cons mag_bits_def)
  moreover have "(2::nat) ^ (8 * length cs) = 256 ^ length cs" by (simp add: power_mult)
  ultimately show ?thesis
    unfolding Cons be_val_Cons by (simp only: power_add trans_le_add1)
qed (use assms in simp)

lemma mag_bits_zero: "no_leading_zero bs \<Longrightarrow> be_val bs = 0 \<Longrightarrow> mag_bits bs = 0"
  by (cases bs) (auto simp: mag_bits_def no_leading_zero_def be_val_Cons unat_eq_0)

text \<open>The seven bit groups are enough for the magnitude and the sign.\<close>

lemma pack_capacity:
  assumes "no_leading_zero bs"
  shows "be_val bs < 2 ^ (7 * calc_pack_req_bytes_bytes sg bs - of_bool sg)"
proof -
  have "mag_bits bs \<le> 7 * calc_pack_req_bytes_bytes sg bs - of_bool sg"
    unfolding calc_pack_req_bytes_ceiling [OF assms] by (cases sg) auto
  then have "(2::nat) ^ mag_bits bs \<le> 2 ^ (7 * calc_pack_req_bytes_bytes sg bs - of_bool sg)"
    by (rule power_increasing) simp
  with be_val_less_mag_bits [of bs] show ?thesis by linarith
qed

text \<open>The bytes written for a value.\<close>

definition varint_bytes :: "(int \<Rightarrow> bytes) \<Rightarrow> bool \<Rightarrow> int \<Rightarrow> bytes" where
  "varint_bytes to_bytes_be sg v =
     (let m = strip_leading_zero (to_bytes_be (if v < 0 then - v - 1 else v));
          req = calc_pack_req_bytes_bytes sg m
      in map (packed_byte (if sg then Some (v < 0) else None) (be_val m) req) [0..<req])"

lemma calc_pack_req_bytes_pos: "0 < calc_pack_req_bytes_bytes sg bs"
  by (auto simp: calc_pack_req_bytes_bytes_def Let_def div_greater_zero_iff)

lemma pack_value_magnitude_eq:
  assumes fit: "start + calc_pack_req_bytes_bytes (neg \<noteq> None) bs \<le> length dst"
    and mem: "\<not> exceeds_usize (length dst)"
  shows "pack_value_magnitude neg bs dst start =
     (let req = calc_pack_req_bytes_bytes (neg \<noteq> None) bs
      in Inr (req, take start dst @ map (packed_byte neg (be_val bs) req) [0..<req] @ drop (start + req) dst))"
proof (cases "bs = []")
  case True
  then have "calc_pack_req_bytes_bytes (neg \<noteq> None) bs = 1" by (simp add: calc_pack_req_bytes_bytes_def)
  with True fit show ?thesis
    by (auto simp: pack_value_magnitude_def packed_byte_def upd_conv_take_nth_drop)
next
  case False
  have "\<not> exceeds_usize (start + calc_pack_req_bytes_bytes (neg \<noteq> None) bs)"
    using fit mem by (simp add: exceeds_usize_def)
  then show ?thesis
    using False fit
      pack_loop_eq [OF False order_refl, of start "calc_pack_req_bytes_bytes (neg \<noteq> None) bs" dst 0 neg]
    by (simp add: pack_value_magnitude_def Let_def)
qed

text \<open>
  The magnitude is short enough for the packed value to be a slice of memory: a condition any
  value of the program meets, since no allocation of Rust is longer than \<^verbatim>\<open>isize::MAX\<close>.
\<close>

definition varint_fits :: "(int \<Rightarrow> bytes) \<Rightarrow> int \<Rightarrow> bool" where
  "varint_fits to_bytes_be v \<longleftrightarrow>
     int (length (to_bytes_be (if v < 0 then - v - 1 else v))) < 4611686018427387904"

lemma varint_fits_small:
  assumes "be_bytes tbe" and "- (2 ^ 128) \<le> v" and "v < 2 ^ 128"
  shows "varint_fits tbe v"
proof -
  define m where "m = (if v < 0 then - v - 1 else v)"
  have "0 \<le> m" "m < 2 ^ 128" using assms(2,3) by (auto simp: m_def)
  then have "nat m < 256 ^ 16" by (simp add: nat_less_iff)
  with assms(1) \<open>0 \<le> m\<close> have "length (tbe m) \<le> 16" by (intro be_bytes_length) auto
  then show ?thesis by (simp add: varint_fits_def m_def)
qed

lemma strip_leading_zero_be_bytes:
  assumes "be_bytes tbe" and "0 \<le> m"
  shows "strip_leading_zero (tbe m) = tbe m" "no_leading_zero (tbe m)" "be_val (tbe m) = nat m"
proof -
  have "be_val (tbe m) = nat m" "1 < length (tbe m) \<longrightarrow> tbe m ! 0 \<noteq> 0"
    using assms by (auto simp: be_bytes_def) (metis hd_conv_nth less_nat_zero_code list.size(3))
  then show "strip_leading_zero (tbe m) = tbe m" "no_leading_zero (tbe m)" "be_val (tbe m) = nat m"
    by (auto simp: strip_leading_zero_def no_leading_zero_def)
qed

lemma calc_pack_req_bytes_le:
  assumes "no_leading_zero bs" shows "calc_pack_req_bytes_bytes sg bs \<le> 2 * length bs + 1"
proof -
  have "mag_bits bs \<le> 8 * length bs"
    using count_significant_u8 [of "bs ! 0"] by (cases bs) (auto simp: mag_bits_def)
  then show ?thesis unfolding calc_pack_req_bytes_ceiling [OF assms] by (cases sg) auto
qed

lemma varint_bytes_eq:
  assumes "be_bytes tbe"
  shows "varint_bytes tbe sg v =
     (let m = (if v < 0 then - v - 1 else v); req = calc_pack_req_bytes_bytes sg (tbe m)
      in map (packed_byte (if sg then Some (v < 0) else None) (nat m) req) [0..<req])"
  using assms by (simp add: varint_bytes_def Let_def strip_leading_zero_be_bytes)

lemma length_varint_bytes:
  "be_bytes tbe \<Longrightarrow>
    length (varint_bytes tbe sg v) = calc_pack_req_bytes_bytes sg (tbe (if v < 0 then - v - 1 else v))"
  by (simp add: varint_bytes_eq Let_def)

lemma varint_bytes_usize:
  assumes "be_bytes tbe" and "varint_fits tbe v"
  shows "\<not> exceeds_usize (length (varint_bytes tbe sg v))"
proof -
  define m where "m = (if v < 0 then - v - 1 else v)"
  have "calc_pack_req_bytes_bytes sg (tbe m) \<le> 2 * length (tbe m) + 1"
    using assms(1) by (intro calc_pack_req_bytes_le strip_leading_zero_be_bytes) (auto simp: m_def)
  then show ?thesis
    using assms(2) unfolding length_varint_bytes [OF assms(1)] varint_fits_def exceeds_usize_def
      m_def [symmetric] by linarith
qed

lemma pack_value_eq:
  assumes tbe: "be_bytes tbe" and v: "sg \<or> 0 \<le> v" and fits: "varint_fits tbe v"
  shows "pack_value tbe sg v = Inr (varint_bytes tbe sg v)"
proof -
  define m where "m = (if v < 0 then - v - 1 else v)"
  define req where "req = calc_pack_req_bytes_bytes sg (tbe m)"
  have m: "0 \<le> m" by (simp add: m_def)
  define neg where "neg = (if sg then Some (v < 0) else None)"
  have neg: "neg \<noteq> None \<longleftrightarrow> sg" by (simp add: neg_def)
  have mag: "magnitude_bytes_for_pack tbe sg v = Inr (neg, tbe m)"
    using v strip_leading_zero_be_bytes(1) [OF tbe m]
    by (auto simp: magnitude_bytes_for_pack_def m_def Let_def neg_def)
  have "\<not> exceeds_usize req"
    using varint_bytes_usize [OF tbe fits, of sg] by (simp add: length_varint_bytes [OF tbe] req_def m_def)
  then have "pack_value_magnitude neg (tbe m) (replicate req 0) 0 = Inr (req, varint_bytes tbe sg v)"
    using pack_value_magnitude_eq [of 0 neg "tbe m" "replicate req 0"]
      strip_leading_zero_be_bytes(3) [OF tbe m]
    unfolding neg varint_bytes_eq [OF tbe] Let_def m_def [symmetric] req_def [symmetric] neg_def [symmetric]
    by simp
  then show ?thesis
    unfolding pack_value_def mag sum.case prod.case Let_def neg req_def [symmetric] by simp
qed

lemma pack_value_negative_unsigned: "v < 0 \<Longrightarrow> pack_value tbe False v = Inl NegativeUnsignedValue"
  by (simp add: pack_value_def magnitude_bytes_for_pack_def)

lemma unpack_varint_bytes:
  assumes tbe: "be_bytes tbe" and v: "sg \<or> 0 \<le> v"
  shows "unpack_value sg (pre @ varint_bytes tbe sg v @ rest) (length pre) =
           Inr (v, length (varint_bytes tbe sg v))"
proof -
  define m where "m = (if v < 0 then - v - 1 else v)"
  define req where "req = calc_pack_req_bytes_bytes sg (tbe m)"
  define neg where "neg = (if sg then Some (v < 0) else None)"
  define data where "data = pre @ varint_bytes tbe sg v @ rest"
  have m: "0 \<le> m" by (simp add: m_def)
  have req: "0 < req" by (simp add: req_def calc_pack_req_bytes_pos)
  have len: "length (varint_bytes tbe sg v) = req"
    by (simp add: length_varint_bytes [OF tbe] req_def m_def)
  have bytes: "data ! (length pre + i) = packed_byte neg (nat m) req i" if "i < req" for i
    using that len by (simp add: data_def nth_append varint_bytes_eq [OF tbe] Let_def req_def m_def neg_def)
  have dlen: "req \<le> length data - length pre" by (simp add: data_def len)
  have cap: "nat m < 2 ^ (7 * req - of_bool sg)"
    using pack_capacity [of "tbe m" sg] strip_leading_zero_be_bytes [OF tbe m] by (simp add: req_def)
  have "unpack_scan data (length pre) (Suc 0) = Some (Suc (req - 1))"
    using req dlen bytes [of "req - 1"] by (intro unpack_scan_found) (auto simp: bytes bit_packed_byte)
  moreover have "unpack_groups sg data (length pre) [0..<req] 0 = m"
    using unpack_groups_packed [OF cap _ order_refl bytes] m by (simp add: neg_def)
  moreover have "data ! length pre AND 0x40 \<noteq> 0 \<longleftrightarrow> bit (packed_byte neg (nat m) req 0) 6"
    using bytes [of 0] req and_exp_eq_0_iff_not_bit [of "data ! length pre" 6] by simp
  moreover have "\<not> bit (nat m) (7 * (req - 1) + 6)" if sg
  proof -
    have "7 * (req - 1) + 6 = 7 * req - of_bool sg" using req that by simp
    with cap show ?thesis by (metis bit_take_bit_iff less_irrefl take_bit_nat_eq_self)
  qed
  ultimately show ?thesis
    using req v unfolding data_def [symmetric] len
    by (auto simp: unpack_value_def Let_def bit_packed_byte neg_def m_def)
qed


lemma unpack_scan_SomeD:
  assumes "unpack_scan data start i = Some used" and "0 < i"
  shows "i \<le> used \<and> start + used \<le> length data"
  using assms
proof (induction data start i rule: unpack_scan.induct)
  case (1 data start i)
  from "1.prems" have "start + i - 1 < length data"
    by (subst (asm) unpack_scan.simps) (simp split: if_splits)
  then show ?case using 1
    by (subst (asm) (2) unpack_scan.simps) (auto split: if_splits)
qed

text \<open>A decoded magnitude is never longer than its seven bit groups.\<close>

lemma unpack_groups_bound:
  "0 < n \<Longrightarrow> 0 \<le> unpack_groups sg data start [0..<n] 0 \<and>
     unpack_groups sg data start [0..<n] 0 < 2 ^ (7 * n - of_bool sg)"
proof (induction n)
  case (Suc n)
  have b: "0 \<le> uint (b AND 0x7f)" "uint (b AND 0x7f) < 2 ^ 7" "uint (b AND 0x3f) < 2 ^ 6" for b :: u8
  proof -
    have "b AND 0x7f = take_bit 7 b" "b AND 0x3f = take_bit 6 b"
      by (auto intro!: bit_word_eqI simp: bit_and_iff bit_take_bit_iff bit_mask_constants)
    then show "0 \<le> uint (b AND 0x7f)" "uint (b AND 0x7f) < 2 ^ 7" "uint (b AND 0x3f) < 2 ^ 6"
      by (simp_all only: unsigned_take_bit_eq take_bit_int_less_exp take_bit_nonnegative)
  qed
  show ?case
  proof (cases "n = 0")
    case True
    then show ?thesis using b [of "data ! start"] by simp
  next
    case False
    define g where "g = unpack_groups sg data start [0..<n] 0"
    define k where "k = 7 * n - of_bool sg"
    have k: "7 * Suc n - of_bool sg = 7 + k" using False by (cases sg) (auto simp: k_def)
    have "0 \<le> g" "g + 1 \<le> 2 ^ k" using Suc.IH False by (auto simp: g_def k_def)
    then have "g * 128 + 128 \<le> 2 ^ k * 128" by linarith
    moreover have "unpack_groups sg data start [0..<Suc n] 0 = g * 128 + uint (data ! (start + n) AND 0x7f)"
      using False unfolding upt_Suc_append [OF le0] unpack_groups_snoc g_def [symmetric] by simp
    ultimately show ?thesis
      using b(1,2) [of "data ! (start + n)"] \<open>0 \<le> g\<close> unfolding k power_add by auto
  qed
qed simp

lemma unpack_value_bound:
  assumes u: "unpack_value sg data start = Inr (v, used)"
  shows "0 < used" and "start + used \<le> length data"
    and "nat (if v < 0 then - v - 1 else v) < 2 ^ (7 * used - of_bool sg)"
proof -
  from u have scan: "unpack_scan data start 1 = Some used"
    by (auto simp: unpack_value_def Let_def split: option.splits)
  then show used: "0 < used" and "start + used \<le> length data" using unpack_scan_SomeD by fastforce+
  have "(if v < 0 then - v - 1 else v) = unpack_groups sg data start [0..<used] 0"
    using u scan unpack_groups_bound [OF used, of sg data start]
    by (auto simp: unpack_value_def Let_def split: if_splits)
  then show "nat (if v < 0 then - v - 1 else v) < 2 ^ (7 * used - of_bool sg)"
    using unpack_groups_bound [OF used, of sg data start] by (simp add: nat_less_iff)
qed

lemma unpack_value_length:
  assumes tbe: "be_bytes tbe" and u: "unpack_value sg data start = Inr (v, used)"
  shows "length (varint_bytes tbe sg v) \<le> used"
proof -
  define m where "m = (if v < 0 then - v - 1 else v)"
  have m: "0 \<le> m" by (simp add: m_def)
  have nz: "no_leading_zero (tbe m)" and bv: "be_val (tbe m) = nat m"
    using strip_leading_zero_be_bytes [OF tbe m] by simp_all
  note used = unpack_value_bound(1) [OF u] and bound = unpack_value_bound(3) [OF u, folded m_def]
  have "mag_bits (tbe m) + of_bool sg \<le> 7 * used"
  proof (cases "m = 0")
    case True
    with mag_bits_zero [OF nz] bv used show ?thesis by (cases sg) auto
  next
    case False
    then have "2 ^ (mag_bits (tbe m) - 1) \<le> nat m"
      using mag_bits_tight [OF nz] bv m by simp
    with bound have "(2::nat) ^ (mag_bits (tbe m) - 1) < 2 ^ (7 * used - of_bool sg)" by linarith
    then have "mag_bits (tbe m) - 1 < 7 * used - of_bool sg"
      by (rule power_less_imp_less_exp [rotated]) simp
    then show ?thesis using used by (cases sg) auto
  qed
  then show ?thesis
    unfolding length_varint_bytes [OF tbe] m_def [symmetric] calc_pack_req_bytes_ceiling [OF nz]
    using used by auto
qed

lemma unpack_value_sign: "unpack_value sg data start = Inr (v, used) \<Longrightarrow> sg \<or> 0 \<le> v"
  using unpack_scan_SomeD [of data start 1 used] unpack_groups_bound [of used sg data start]
  by (auto simp: unpack_value_def Let_def split: option.splits if_splits)

lemma unpack_value_fits:
  assumes tbe: "be_bytes tbe" and u: "unpack_value sg data start = Inr (v, used)" and "length data < 4611686018427387904"
  shows "varint_fits tbe v"
proof -
  note b = unpack_value_bound [OF u]
  have "(2::nat) ^ (7 * used - of_bool sg) \<le> 2 ^ (8 * used)" by (rule power_increasing) auto
  also have "\<dots> = 256 ^ used" by (simp add: power_mult)
  finally have "nat (if v < 0 then - v - 1 else v) < 256 ^ used" using b(3) by (rule less_le_trans [rotated])
  then have "length (tbe (if v < 0 then - v - 1 else v)) \<le> used"
    using b(1) tbe by (intro be_bytes_length) auto
  then show ?thesis using b(2) assms(3) by (simp add: varint_fits_def)
qed

lemma pack_value_into_eq:
  assumes tbe: "be_bytes tbe" and v: "sg \<or> 0 \<le> v" and fits: "varint_fits tbe v"
    and mem: "\<not> exceeds_usize (length dst)"
  shows "pack_value_into tbe sg v dst start =
     (let packed = varint_bytes tbe sg v
      in if length dst < start then Inl StartIndexOutOfBounds
         else if length dst < start + length packed then Inl (DestinationTooSmall (length packed))
         else Inr (length packed, take start dst @ packed @ drop (start + length packed) dst))"
proof -
  define m where "m = (if v < 0 then - v - 1 else v)"
  define req where "req = calc_pack_req_bytes_bytes sg (tbe m)"
  define neg where "neg = (if sg then Some (v < 0) else None)"
  have m: "0 \<le> m" by (simp add: m_def)
  have neg: "neg \<noteq> None \<longleftrightarrow> sg" by (simp add: neg_def)
  have mag: "magnitude_bytes_for_pack tbe sg v = Inr (neg, tbe m)"
    using v strip_leading_zero_be_bytes(1) [OF tbe m]
    by (auto simp: magnitude_bytes_for_pack_def m_def Let_def neg_def)
  have vb: "varint_bytes tbe sg v = map (packed_byte neg (be_val (tbe m)) req) [0..<req]"
    using strip_leading_zero_be_bytes(3) [OF tbe m]
    unfolding varint_bytes_eq [OF tbe] Let_def m_def [symmetric] req_def [symmetric] neg_def [symmetric] by simp
  then have len: "length (varint_bytes tbe sg v) = req" by simp
  have written: "pack_value_magnitude neg (tbe m) dst start =
      Inr (req, take start dst @ varint_bytes tbe sg v @ drop (start + req) dst)"
    if "start + req \<le> length dst"
    using pack_value_magnitude_eq [of start neg "tbe m" dst] that mem
    unfolding neg vb req_def [symmetric] by simp
  have "\<not> exceeds_usize (start + req)" if "start + req \<le> length dst"
    using that mem by (simp add: exceeds_usize_def)
  with written show ?thesis
    unfolding pack_value_into_def mag sum.case prod.case Let_def neg req_def [symmetric] len
    by (auto simp: not_less split: if_splits)
qed

subsection \<open>The encoding as a prefix code\<close>

definition varint_dom :: "(int \<Rightarrow> bytes) \<Rightarrow> bool \<Rightarrow> int \<Rightarrow> bool" where
  "varint_dom to_bytes_be sg v \<longleftrightarrow> be_bytes to_bytes_be \<and> (sg \<or> 0 \<le> v) \<and> varint_fits to_bytes_be v"

definition varint_enc :: "(int \<Rightarrow> bytes) \<Rightarrow> bool \<Rightarrow> int \<Rightarrow> bytes" where
  "varint_enc to_bytes_be sg v = (case pack_value to_bytes_be sg v of Inl _ \<Rightarrow> [] | Inr bs \<Rightarrow> bs)"

definition varint_dec :: "bool \<Rightarrow> bytes \<Rightarrow> (int \<times> bytes) option" where
  "varint_dec sg data =
     (case unpack_value sg data 0 of Inl _ \<Rightarrow> None | Inr (v, used) \<Rightarrow> Some (v, drop used data))"

interpretation varint_code: prefix_codec "varint_dom tbe sg" "varint_enc tbe sg" "varint_dec sg" for tbe sg
proof
  fix v rest
  assume "varint_dom tbe sg v"
  then show "varint_dec sg (varint_enc tbe sg v @ rest) = Some (v, rest)"
    using unpack_varint_bytes [of tbe sg v "[]" rest]
    by (simp add: varint_dom_def varint_enc_def varint_dec_def pack_value_eq)
qed

subsection \<open>Properties\<close>

text \<open>
  C1: Every integer is read back as written: packing a value (any integer when signed, a
  non-negative one when unsigned) succeeds, and \<^verbatim>\<open>unpack_value\<close> at the position of the packed
  bytes, with anything before and after them, returns the value and the number of its bytes.
\<close>

theorem unpack_value_of_pack_value:
  assumes "be_bytes to_bytes_be" and "is_signed \<or> 0 \<le> v" and "varint_fits to_bytes_be v"
  shows "\<exists>packed. pack_value to_bytes_be is_signed v = Inr packed \<and>
    (\<forall>before after. unpack_value is_signed (before @ packed @ after) (length before) = Inr (v, length packed))"
  using assms by (simp add: pack_value_eq unpack_varint_bytes)

theorem unpack_value_of_pack_value_witness:
  "varint_fits be_digits (- 300) \<and>
   (\<exists>packed. pack_value be_digits True (- 300) = Inr packed \<and>
    (\<forall>before after. unpack_value True (before @ packed @ after) (length before) = Inr (- 300, length packed)))"
proof -
  have "varint_fits be_digits (- 300)" by code_simp
  then show ?thesis
    using unpack_value_of_pack_value [OF be_bytes_be_digits, of True "- 300"] by simp
qed

text \<open>
  C2: The packed form is the shortest one: whatever bytes \<^verbatim>\<open>unpack_value\<close> reads as a value, packing
  that value takes no more bytes than were read.
\<close>

theorem pack_value_is_shortest:
  assumes "be_bytes to_bytes_be" and "varint_fits to_bytes_be v"
    and "unpack_value is_signed data start = Inr (v, used)"
  shows "\<exists>packed. pack_value to_bytes_be is_signed v = Inr packed \<and> length packed \<le> used"
  using assms unpack_value_sign [OF assms(3)] by (simp add: pack_value_eq unpack_value_length)

theorem pack_value_is_shortest_witness:
  "\<exists>packed. pack_value be_digits True 5 = Inr packed \<and> length packed \<le> 3"
proof -
  have "varint_fits be_digits 5" and "unpack_value True [0x80, 0x80, 5] 0 = Inr (5, 3)" by code_simp+
  then show ?thesis by (rule pack_value_is_shortest [OF be_bytes_be_digits])
qed

text \<open>
  C3: \<^verbatim>\<open>pack_value_into\<close> does on a buffer what \<^verbatim>\<open>pack_value\<close> does: it reports the same error, or an
  index outside the buffer, or the number of bytes it needs, and otherwise writes exactly the packed
  bytes at the index and leaves the rest of the buffer as it was.
\<close>

theorem pack_value_into_writes_packed_bytes:
  assumes "be_bytes to_bytes_be" and "varint_fits to_bytes_be v" and "\<not> exceeds_usize (length dst)"
  shows "pack_value_into to_bytes_be is_signed v dst start =
    (case pack_value to_bytes_be is_signed v of
       Inl e \<Rightarrow> Inl e
     | Inr packed \<Rightarrow>
         if length dst < start then Inl StartIndexOutOfBounds
         else if length dst < start + length packed then Inl (DestinationTooSmall (length packed))
         else Inr (length packed, take start dst @ packed @ drop (start + length packed) dst))"
proof (cases "is_signed \<or> 0 \<le> v")
  case True
  with assms show ?thesis by (simp add: pack_value_eq pack_value_into_eq Let_def)
next
  case False
  then show ?thesis
    by (simp add: pack_value_negative_unsigned pack_value_into_def magnitude_bytes_for_pack_def)
qed

theorem pack_value_into_writes_packed_bytes_witness:
  "pack_value_into be_digits False 300 [1, 2, 3, 4] 1 = Inr (2, [1, 130, 44, 4])"
proof -
  have "varint_fits be_digits 300" and "\<not> exceeds_usize (length ([1, 2, 3, 4] :: bytes))"
    and "pack_value be_digits False 300 = Inr [130, 44]" by code_simp+
  then show ?thesis
    using pack_value_into_writes_packed_bytes [OF be_bytes_be_digits, of 300 "[1, 2, 3, 4]" False 1]
    by simp
qed

end
