(* ===== verification/Text.thy ===== *)
theory Text
  imports Prelude
begin

text \<open>
  What the program uses of Rust's strings: a \<^verbatim>\<open>String\<close> is a \<^typ>\<open>string\<close> whose characters are the
  bytes of its UTF-8 form.  \<open>from_utf8\<close> is the check of \<^verbatim>\<open>String::from_utf8\<close>; \<open>show_nat\<close> and
  \<open>show_int\<close> are \<^verbatim>\<open>Display\<close> of the integers, \<open>hex2\<close> the formats \<^verbatim>\<open>{:02X}\<close> and \<^verbatim>\<open>{:02x}\<close>;
  \<open>parse_int\<close> is \<^verbatim>\<open>from_str_radix\<close> (\<^verbatim>\<open>str::parse\<close> with radix ten) of an integer type with the given
  bounds; \<open>split_on\<close>, \<open>join_with\<close> and \<open>trim\<close> are \<^verbatim>\<open>split\<close>, \<^verbatim>\<open>join\<close> and \<^verbatim>\<open>trim\<close>.
\<close>

subsection \<open>Definitions\<close>

definition byte_of_char :: "char \<Rightarrow> u8" where
  "byte_of_char c = word_of_nat (of_char c)"

definition char_of_byte :: "u8 \<Rightarrow> char" where
  "char_of_byte b = char_of (unat b)"

definition as_bytes :: "string \<Rightarrow> bytes" where
  "as_bytes s = map byte_of_char s"

definition of_bytes :: "bytes \<Rightarrow> string" where
  "of_bytes bs = map char_of_byte bs"

text \<open>The character with the given code point below 256 (\<^verbatim>\<open>u8 as char\<close>), in UTF-8.\<close>

definition latin1_char :: "u8 \<Rightarrow> string" where
  "latin1_char b =
     of_bytes (if b < 0x80 then [b] else [0xC0 OR drop_bit 6 b, 0x80 OR (b AND 0x3F)])"

definition utf8_cont :: "u8 \<Rightarrow> bool" where
  "utf8_cont b \<longleftrightarrow> 0x80 \<le> b \<and> b \<le> 0xBF"

fun utf8_valid :: "bytes \<Rightarrow> bool" where
  "utf8_valid [] = True"
| "utf8_valid (a # bs) =
     (if a < 0x80 then utf8_valid bs
      else if 0xC2 \<le> a \<and> a \<le> 0xDF then
        (case bs of b # cs \<Rightarrow> utf8_cont b \<and> utf8_valid cs | [] \<Rightarrow> False)
      else if 0xE0 \<le> a \<and> a \<le> 0xEF then
        (case bs of
           b # c # cs \<Rightarrow>
             utf8_cont b \<and> (a = 0xE0 \<longrightarrow> 0xA0 \<le> b) \<and> (a = 0xED \<longrightarrow> b \<le> 0x9F) \<and> utf8_cont c
               \<and> utf8_valid cs
         | _ \<Rightarrow> False)
      else if 0xF0 \<le> a \<and> a \<le> 0xF4 then
        (case bs of
           b # c # d # cs \<Rightarrow>
             utf8_cont b \<and> (a = 0xF0 \<longrightarrow> 0x90 \<le> b) \<and> (a = 0xF4 \<longrightarrow> b \<le> 0x8F) \<and> utf8_cont c
               \<and> utf8_cont d \<and> utf8_valid cs
         | _ \<Rightarrow> False)
      else False)"

definition from_utf8 :: "bytes \<Rightarrow> string option" where
  "from_utf8 bs = (if utf8_valid bs then Some (of_bytes bs) else None)"

definition digit_char :: "nat \<Rightarrow> char" where
  "digit_char d = char_of (if d < 10 then 48 + d else 55 + d)"

definition lower_digit_char :: "nat \<Rightarrow> char" where
  "lower_digit_char d = char_of (if d < 10 then 48 + d else 87 + d)"

fun show_nat :: "nat \<Rightarrow> string" where
  "show_nat n = (if n < 10 then [digit_char n] else show_nat (n div 10) @ [digit_char (n mod 10)])"

definition show_int :: "int \<Rightarrow> string" where
  "show_int i = (if i < 0 then ''-'' @ show_nat (nat (- i)) else show_nat (nat i))"

definition hex2_upper :: "u8 \<Rightarrow> string" where
  "hex2_upper b = [digit_char (unat b div 16), digit_char (unat b mod 16)]"

definition hex2_lower :: "u8 \<Rightarrow> string" where
  "hex2_lower b = [lower_digit_char (unat b div 16), lower_digit_char (unat b mod 16)]"

text \<open>\<^verbatim>\<open>char::to_digit\<close>\<close>

definition to_digit :: "nat \<Rightarrow> char \<Rightarrow> nat option" where
  "to_digit radix c =
     (let n = of_char c :: nat;
          d = (if 48 \<le> n \<and> n \<le> 57 then n - 48
               else if 65 \<le> n \<and> n \<le> 90 then n - 55
               else if 97 \<le> n \<and> n \<le> 122 then n - 87 else radix)
      in if d < radix then Some d else None)"

fun parse_digits :: "nat \<Rightarrow> string \<Rightarrow> nat \<Rightarrow> nat option" where
  "parse_digits radix [] acc = Some acc"
| "parse_digits radix (c # cs) acc =
     (case to_digit radix c of None \<Rightarrow> None | Some d \<Rightarrow> parse_digits radix cs (acc * radix + d))"

definition parse_int :: "nat \<Rightarrow> bool \<Rightarrow> int \<Rightarrow> int \<Rightarrow> string \<Rightarrow> int option" where
  "parse_int radix is_signed lo hi s =
     (if s = [] \<or> s = ''+'' \<or> s = ''-'' then None
      else
        let negative = (is_signed \<and> hd s = CHR ''-'');
            digits = (if hd s = CHR ''+'' \<or> negative then tl s else s)
        in (case parse_digits radix digits 0 of
              None \<Rightarrow> None
            | Some n \<Rightarrow>
                let v = (if negative then - int n else int n)
                in if lo \<le> v \<and> v \<le> hi then Some v else None))"

definition parse_i32 :: "string \<Rightarrow> i32 option" where
  "parse_i32 s = map_option word_of_int (parse_int 10 True (- 2147483648) 2147483647 s)"

definition parse_i64 :: "string \<Rightarrow> int option" where
  "parse_i64 s = parse_int 10 True (- 9223372036854775808) 9223372036854775807 s"

definition parse_u32 :: "string \<Rightarrow> u32 option" where
  "parse_u32 s = map_option word_of_int (parse_int 10 False 0 4294967295 s)"

text \<open>The messages of the checks of the input file and of the offset.\<close>

definition parse_u64 :: "string \<Rightarrow> u64 option" where
  "parse_u64 s = map_option word_of_int (parse_int 10 False 0 18446744073709551615 s)"

fun split_on :: "char \<Rightarrow> string \<Rightarrow> string list" where
  "split_on sep [] = [[]]"
| "split_on sep (c # cs) =
     (if c = sep then [] # split_on sep cs
      else (case split_on sep cs of [] \<Rightarrow> [[c]] | part # parts \<Rightarrow> (c # part) # parts))"

fun join_with :: "string \<Rightarrow> string list \<Rightarrow> string" where
  "join_with sep [] = []"
| "join_with sep [part] = part"
| "join_with sep (part # parts) = part @ sep @ join_with sep parts"

text \<open>The characters with the Unicode property White\_Space, as bytes.\<close>

definition whitespace_chars :: "bytes list" where
  "whitespace_chars =
     [[0x09], [0x0A], [0x0B], [0x0C], [0x0D], [0x20], [0xC2, 0x85], [0xC2, 0xA0], [0xE1, 0x9A, 0x80],
      [0xE2, 0x80, 0x80], [0xE2, 0x80, 0x81], [0xE2, 0x80, 0x82], [0xE2, 0x80, 0x83],
      [0xE2, 0x80, 0x84], [0xE2, 0x80, 0x85], [0xE2, 0x80, 0x86], [0xE2, 0x80, 0x87],
      [0xE2, 0x80, 0x88], [0xE2, 0x80, 0x89], [0xE2, 0x80, 0x8A], [0xE2, 0x80, 0xA8],
      [0xE2, 0x80, 0xA9], [0xE2, 0x80, 0xAF], [0xE2, 0x81, 0x9F], [0xE3, 0x80, 0x80]]"

text \<open>The number of bytes of a white space character at the front.\<close>

definition leading_space :: "string list \<Rightarrow> string \<Rightarrow> nat" where
  "leading_space spaces s =
     (case filter (\<lambda>w. take (length w) s = w) spaces of [] \<Rightarrow> 0 | w # _ \<Rightarrow> length w)"

function strip_spaces :: "string list \<Rightarrow> string \<Rightarrow> string" where
  "strip_spaces spaces s =
     (let n = leading_space spaces s in if n = 0 \<or> s = [] then s else strip_spaces spaces (drop n s))"
  by pat_completeness auto
termination by (relation "measure (\<lambda>(spaces, s). length s)") auto

definition trim_start :: "string \<Rightarrow> string" where
  "trim_start s = strip_spaces (map of_bytes whitespace_chars) s"

definition trim_end :: "string \<Rightarrow> string" where
  "trim_end s = rev (strip_spaces (map (rev \<circ> of_bytes) whitespace_chars) (rev s))"

definition trim :: "string \<Rightarrow> string" where
  "trim s = trim_end (trim_start s)"

text \<open>\<^verbatim>\<open>trim_start_matches\<close> and \<^verbatim>\<open>trim_end_matches\<close> of one character.\<close>

definition trim_start_matches :: "char \<Rightarrow> string \<Rightarrow> string" where
  "trim_start_matches c s = dropWhile (\<lambda>x. x = c) s"

definition trim_end_matches :: "char \<Rightarrow> string \<Rightarrow> string" where
  "trim_end_matches c s = rev (dropWhile (\<lambda>x. x = c) (rev s))"

definition to_ascii_lowercase :: "string \<Rightarrow> string" where
  "to_ascii_lowercase s =
     map (\<lambda>c. let n = of_char c :: nat in if 65 \<le> n \<and> n \<le> 90 then char_of (n + 32) else c) s"

definition split_once :: "char \<Rightarrow> string \<Rightarrow> (string \<times> string) option" where
  "split_once sep s =
     (if sep \<in> set s
      then Some (takeWhile (\<lambda>c. c \<noteq> sep) s, tl (dropWhile (\<lambda>c. c \<noteq> sep) s)) else None)"

definition strip_prefix :: "string \<Rightarrow> string \<Rightarrow> string option" where
  "strip_prefix p s = (if take (length p) s = p then Some (drop (length p) s) else None)"

declare show_nat.simps [simp del] strip_spaces.simps [simp del]

subsection \<open>Bytes and characters\<close>

lemma char_of_byte_of_char [simp]: "char_of_byte (byte_of_char c) = c"
  by (simp add: char_of_byte_def byte_of_char_def unsigned_of_nat take_bit_nat_eq_self)

lemma byte_of_char_of_byte [simp]: "byte_of_char (char_of_byte b) = b"
proof -
  have "unat b < 256" using unsigned_less [of b] by simp
  then show ?thesis by (simp add: char_of_byte_def byte_of_char_def)
qed

lemma of_bytes_as_bytes [simp]: "of_bytes (as_bytes s) = s"
  by (simp add: of_bytes_def as_bytes_def comp_def)

lemma as_bytes_of_bytes [simp]: "as_bytes (of_bytes bs) = bs"
  by (simp add: of_bytes_def as_bytes_def comp_def)

lemma as_bytes_eq_iff [simp]: "as_bytes s = as_bytes t \<longleftrightarrow> s = t"
  by (metis of_bytes_as_bytes)

lemma as_bytes_append [simp]: "as_bytes (s @ t) = as_bytes s @ as_bytes t"
  by (simp add: as_bytes_def)

lemma length_as_bytes [simp]: "length (as_bytes s) = length s"
  by (simp add: as_bytes_def)

lemma from_utf8_as_bytes: "utf8_valid (as_bytes s) \<Longrightarrow> from_utf8 (as_bytes s) = Some s"
  by (simp add: from_utf8_def)

lemma utf8_valid_ascii: "list_all (\<lambda>b. b < 0x80) bs \<Longrightarrow> utf8_valid bs"
  by (induction bs) simp_all

lemma utf8_valid_append: "utf8_valid xs \<Longrightarrow> utf8_valid ys \<Longrightarrow> utf8_valid (xs @ ys)"
proof (induction xs rule: utf8_valid.induct)
  case (2 a bs)
  consider (one) "a < 0x80" | (two) "\<not> a < 0x80" "0xC2 \<le> a \<and> a \<le> 0xDF"
    | (three) "\<not> a < 0x80" "\<not> (0xC2 \<le> a \<and> a \<le> 0xDF)" "0xE0 \<le> a \<and> a \<le> 0xEF"
    | (four) "\<not> a < 0x80" "\<not> (0xC2 \<le> a \<and> a \<le> 0xDF)" "\<not> (0xE0 \<le> a \<and> a \<le> 0xEF)"
    by blast
  then show ?case
  proof cases
    case one
    then show ?thesis using 2 by simp
  next
    case two
    then obtain b cs where bs: "bs = b # cs" using "2.prems" by (cases bs) simp_all
    have "utf8_valid (a # b # zs) \<longleftrightarrow> utf8_cont b \<and> utf8_valid zs" for zs
      using two by (subst utf8_valid.simps(2)) (simp del: utf8_valid.simps)
    with two 2 bs show ?thesis by (simp del: utf8_valid.simps)
  next
    case three
    then obtain b c cs where bs: "bs = b # c # cs" using "2.prems"
      by (subst (asm) utf8_valid.simps(2)) (auto simp del: utf8_valid.simps split: list.splits)
    have "utf8_valid (a # b # c # zs) \<longleftrightarrow>
        utf8_cont b \<and> (a = 0xE0 \<longrightarrow> 0xA0 \<le> b) \<and> (a = 0xED \<longrightarrow> b \<le> 0x9F) \<and> utf8_cont c \<and> utf8_valid zs" for zs
      using three by (subst utf8_valid.simps(2)) (auto simp del: utf8_valid.simps)
    with three 2 bs show ?thesis by (simp del: utf8_valid.simps)
  next
    case four
    then obtain b c d cs where bs: "bs = b # c # d # cs" and a: "0xF0 \<le> a \<and> a \<le> 0xF4" using "2.prems"
      by (subst (asm) utf8_valid.simps(2)) (auto simp del: utf8_valid.simps split: list.splits if_splits)
    have "utf8_valid (a # b # c # d # zs) \<longleftrightarrow>
        utf8_cont b \<and> (a = 0xF0 \<longrightarrow> 0x90 \<le> b) \<and> (a = 0xF4 \<longrightarrow> b \<le> 0x8F) \<and> utf8_cont c \<and> utf8_cont d \<and> utf8_valid zs" for zs
      using four a by (subst utf8_valid.simps(2)) (auto simp del: utf8_valid.simps)
    with four a 2 bs show ?thesis by (simp del: utf8_valid.simps)
  qed
qed simp

subsection \<open>Printed numbers are read back\<close>

lemma of_char_digit_char: "d < 36 \<Longrightarrow> of_char (digit_char d) = (if d < 10 then 48 + d else 55 + d :: nat)"
  by (simp add: digit_char_def)

lemma to_digit_digit_char: "d < radix \<Longrightarrow> radix \<le> 36 \<Longrightarrow> to_digit radix (digit_char d) = Some d"
  by (simp add: to_digit_def Let_def of_char_digit_char)

lemma to_digit_lower_digit_char: "d < radix \<Longrightarrow> radix \<le> 36 \<Longrightarrow> to_digit radix (lower_digit_char d) = Some d"
  by (simp add: to_digit_def Let_def lower_digit_char_def)

lemma parse_digits_append:
  "parse_digits radix (xs @ ys) acc =
     (case parse_digits radix xs acc of None \<Rightarrow> None | Some n \<Rightarrow> parse_digits radix ys n)"
  by (induction xs arbitrary: acc) (simp_all split: option.splits)

lemma show_nat_nonempty [simp]: "show_nat n \<noteq> []"
  by (subst show_nat.simps) simp

lemma parse_digits_show_nat: "parse_digits 10 (show_nat n) 0 = Some n"
proof (induction n rule: show_nat.induct)
  case (1 n)
  then show ?case
    by (cases "n < 10") (simp_all add: show_nat.simps [of n] parse_digits_append to_digit_digit_char)
qed

lemma show_nat_digits: "c \<in> set (show_nat n) \<Longrightarrow> 48 \<le> (of_char c :: nat) \<and> (of_char c :: nat) \<le> 57"
proof (induction n rule: show_nat.induct)
  case (1 n)
  then show ?case
    by (cases "n < 10") (auto simp: show_nat.simps [of n] of_char_digit_char)
qed

lemma show_nat_no_sign:
  "hd (show_nat n) \<noteq> CHR ''+''" "hd (show_nat n) \<noteq> CHR ''-''" "show_nat n \<noteq> ''+''" "show_nat n \<noteq> ''-''"
  using show_nat_digits [of "hd (show_nat n)" n] by auto

lemma parse_int_show_nat:
  "lo \<le> int n \<Longrightarrow> int n \<le> hi \<Longrightarrow> parse_int 10 is_signed lo hi (show_nat n) = Some (int n)"
  by (simp add: parse_int_def show_nat_no_sign parse_digits_show_nat)

lemma parse_int_show_int:
  assumes "lo \<le> i" and "i \<le> hi"
  shows "parse_int 10 True lo hi (show_int i) = Some i"
  using assms parse_int_show_nat [of lo "nat i" hi True]
  by (cases "i < 0") (auto simp: show_int_def parse_int_def parse_digits_show_nat)

subsection \<open>Splitting and joining\<close>

lemma split_on_no_sep: "sep \<notin> set s \<Longrightarrow> split_on sep s = [s]"
  by (induction s) auto

lemma split_on_append: "sep \<notin> set s \<Longrightarrow> split_on sep (s @ sep # t) = s # split_on sep t"
  by (induction s) auto

lemma split_on_join_with:
  "parts \<noteq> [] \<Longrightarrow> list_all (\<lambda>p. sep \<notin> set p) parts \<Longrightarrow> split_on sep (join_with [sep] parts) = parts"
  by (induction "[sep]" parts rule: join_with.induct) (simp_all add: split_on_no_sep split_on_append)

text \<open>Text that starts and ends with a visible ASCII character is not trimmed.\<close>

lemma strip_spaces_none:
  assumes "list_all (\<lambda>w. w \<noteq> [] \<and> hd w \<noteq> c) spaces"
  shows "strip_spaces spaces (c # cs) = c # cs"
proof -
  have "take (length w) (c # cs) \<noteq> w" if "w \<in> set spaces" for w
  proof
    assume w: "take (length w) (c # cs) = w"
    have "w \<noteq> []" "hd w \<noteq> c" using that assms by (auto simp: list_all_iff)
    with w show False by (cases w) auto
  qed
  then have "filter (\<lambda>w. take (length w) (c # cs) = w) spaces = []"
    by (auto simp: filter_empty_conv)
  then show ?thesis by (simp add: strip_spaces.simps leading_space_def)
qed

lemma whitespace_first_last:
  "list_all (\<lambda>w. w \<noteq> [] \<and> (let n = of_char (hd w) :: nat in n < 33 \<or> 127 < n)
     \<and> (let n = of_char (hd (rev w)) :: nat in n < 33 \<or> 127 < n)) (map of_bytes whitespace_chars)"
  by (simp add: whitespace_chars_def of_bytes_def char_of_byte_def)

lemma trim_id:
  assumes "s \<noteq> []" and "32 < (of_char (hd s) :: nat)" "(of_char (hd s) :: nat) < 128"
    and "32 < (of_char (last s) :: nat)" "(of_char (last s) :: nat) < 128"
  shows "trim s = s"
proof -
  have w: "w \<noteq> []" "hd w \<noteq> hd s" "hd (rev w) \<noteq> last s" if "w \<in> set (map of_bytes whitespace_chars)" for w
  proof -
    have "w \<noteq> [] \<and> (let n = of_char (hd w) :: nat in n < 33 \<or> 127 < n)
        \<and> (let n = of_char (hd (rev w)) :: nat in n < 33 \<or> 127 < n)"
      using whitespace_first_last that unfolding list_all_iff by blast
    then show "w \<noteq> []" "hd w \<noteq> hd s" "hd (rev w) \<noteq> last s" using assms(2-5) by (auto simp: Let_def)
  qed
  have "trim_start s = s"
    using strip_spaces_none [of "hd s" "map of_bytes whitespace_chars" "tl s"] assms(1) w
    by (simp add: trim_start_def list_all_iff)
  moreover have "strip_spaces (map (rev \<circ> of_bytes) whitespace_chars) (rev s) = rev s"
  proof -
    obtain c cs where r: "rev s = c # cs" using assms(1) by (cases "rev s") auto
    then have "c = last s" by (metis last_rev list.sel(1) rev_rev_ident)
    with w show ?thesis unfolding r by (intro strip_spaces_none) (simp add: list_all_iff)
  qed
  ultimately show ?thesis by (simp add: trim_def trim_end_def)
qed

end
