(* ===== verification/Packet.thy ===== *)
theory Packet
  imports Crc8 Varint Text
begin

text \<open>
  Building, reading and parsing bus packets, \<^verbatim>\<open>packet.rs\<close>, and the textual forms of packets of
  \<^verbatim>\<open>tools.rs\<close>.  A packet is the packed destination and source address, the payload and the crc8.

  \<^verbatim>\<open>f32\<close> and \<^verbatim>\<open>f64\<close> values are their bit patterns, so \<^verbatim>\<open>to_bits\<close> and \<^verbatim>\<open>from_bits\<close> are the identity.
  A read that returns \<^verbatim>\<open>None\<close> or an error leaves the reader as it was, so its result is only the
  error; the two reads that index the data (\<^verbatim>\<open>read_blob_remain\<close>, \<^verbatim>\<open>read_string\<close>) panic when the
  position was set behind the end.
\<close>

subsection \<open>The assembler\<close>

datatype PacketParseError = MissingCrc | Address UnpackError

text \<open>The texts of the errors (\<^verbatim>\<open>Display\<close>).\<close>

fun pack_error_text :: "PackError \<Rightarrow> string" where
  "pack_error_text NegativeUnsignedValue = ''value must be unsigned''"
| "pack_error_text StartIndexOutOfBounds = ''start index is out of bounds''"
| "pack_error_text (DestinationTooSmall required) =
     ''destination buffer is too small; required '' @ show_nat required @ '' bytes''"

fun unpack_error_text :: "UnpackError \<Rightarrow> string" where
  "unpack_error_text IncompleteValue = ''incomplete variable-length value''"

fun parse_error_text :: "PacketParseError \<Rightarrow> string" where
  "parse_error_text MissingCrc = ''packet is missing crc8''"
| "parse_error_text (Address err) = ''failed to parse packet address: '' @ unpack_error_text err"

record PacketAssembler =
  asm_buffer :: bytes

definition asm_new :: PacketAssembler where
  "asm_new = \<lparr>asm_buffer = []\<rparr>"

definition write_u8 :: "u8 \<Rightarrow> PacketAssembler \<Rightarrow> PacketAssembler" where
  "write_u8 value a = a\<lparr>asm_buffer := asm_buffer a @ [value]\<rparr>"

definition write_i8 :: "i8 \<Rightarrow> PacketAssembler \<Rightarrow> PacketAssembler" where
  "write_i8 value a = write_u8 value a"

definition write_blob :: "bytes \<Rightarrow> PacketAssembler \<Rightarrow> PacketAssembler" where
  "write_blob data a = a\<lparr>asm_buffer := asm_buffer a @ data\<rparr>"

text \<open>\<^verbatim>\<open>to_be_bytes\<close> of an integer of \<open>n\<close> bytes.\<close>

fun to_be_bytes :: "nat \<Rightarrow> 'a::len word \<Rightarrow> bytes" where
  "to_be_bytes 0 w = []"
| "to_be_bytes (Suc n) w = to_be_bytes n (drop_bit 8 w) @ [ucast w]"

definition write_u16_be :: "u16 \<Rightarrow> PacketAssembler \<Rightarrow> PacketAssembler" where
  "write_u16_be value a = a\<lparr>asm_buffer := asm_buffer a @ to_be_bytes 2 value\<rparr>"

definition write_i16_be :: "i16 \<Rightarrow> PacketAssembler \<Rightarrow> PacketAssembler" where
  "write_i16_be value a = write_u16_be value a"

definition write_u32_be :: "u32 \<Rightarrow> PacketAssembler \<Rightarrow> PacketAssembler" where
  "write_u32_be value a = a\<lparr>asm_buffer := asm_buffer a @ to_be_bytes 4 value\<rparr>"

definition write_i32_be :: "i32 \<Rightarrow> PacketAssembler \<Rightarrow> PacketAssembler" where
  "write_i32_be value a = write_u32_be value a"

definition write_u64_be :: "u64 \<Rightarrow> PacketAssembler \<Rightarrow> PacketAssembler" where
  "write_u64_be value a = a\<lparr>asm_buffer := asm_buffer a @ to_be_bytes 8 value\<rparr>"

definition write_i64_be :: "i64 \<Rightarrow> PacketAssembler \<Rightarrow> PacketAssembler" where
  "write_i64_be value a = write_u64_be value a"

definition write_f32_be :: "u32 \<Rightarrow> PacketAssembler \<Rightarrow> PacketAssembler" where
  "write_f32_be value_bits a = write_u32_be value_bits a"

definition write_f64_be :: "u64 \<Rightarrow> PacketAssembler \<Rightarrow> PacketAssembler" where
  "write_f64_be value_bits a = write_u64_be value_bits a"

definition write_string :: "string \<Rightarrow> PacketAssembler \<Rightarrow> PacketAssembler" where
  "write_string value a = write_u8 0 (write_blob (as_bytes value) a)"

definition write_packed_value ::
  "(int \<Rightarrow> bytes) \<Rightarrow> bool \<Rightarrow> int \<Rightarrow> PacketAssembler \<Rightarrow> PackError + PacketAssembler" where
  "write_packed_value to_bytes_be is_signed value a =
     (case pack_value to_bytes_be is_signed value of
        Inl e \<Rightarrow> Inl e
      | Inr packed \<Rightarrow>
          let start = length (asm_buffer a);
              resized = asm_buffer a @ replicate (length packed) 0
          in (case pack_value_into to_bytes_be is_signed value resized start of
                Inl e \<Rightarrow> Inl e
              | Inr (_, buffer) \<Rightarrow> Inr (a\<lparr>asm_buffer := buffer\<rparr>)))"

definition write_address :: "(int \<Rightarrow> bytes) \<Rightarrow> i32 \<Rightarrow> PacketAssembler \<Rightarrow> PackError + PacketAssembler" where
  "write_address to_bytes_be value a = write_packed_value to_bytes_be True (sint value) a"

definition write_addressing ::
  "(int \<Rightarrow> bytes) \<Rightarrow> i32 \<Rightarrow> i32 \<Rightarrow> PacketAssembler \<Rightarrow> PackError + PacketAssembler" where
  "write_addressing to_bytes_be from to a =
     (case write_address to_bytes_be to a of
        Inl e \<Rightarrow> Inl e
      | Inr a' \<Rightarrow> write_address to_bytes_be from a')"

definition append_crc8 :: "PacketAssembler \<Rightarrow> PacketAssembler" where
  "append_crc8 a = write_u8 (crc8 (asm_buffer a)) a"

definition asm_done :: "PacketAssembler \<Rightarrow> bytes \<times> PacketAssembler" where
  "asm_done a = (asm_buffer a, a\<lparr>asm_buffer := []\<rparr>)"

subsection \<open>The reader\<close>

record PacketReader =
  reader_data :: bytes
  reader_ep :: nat

definition reader_new :: "bytes \<Rightarrow> PacketReader" where
  "reader_new data = \<lparr>reader_data = data, reader_ep = 0\<rparr>"

definition get_parse_state_index :: "PacketReader \<Rightarrow> nat" where
  "get_parse_state_index r = reader_ep r"

definition set_parse_state_index :: "nat \<Rightarrow> PacketReader \<Rightarrow> PacketReader" where
  "set_parse_state_index index r = r\<lparr>reader_ep := index\<rparr>"

definition get_remaining_bytes :: "PacketReader \<Rightarrow> nat" where
  "get_remaining_bytes r = length (reader_data r) - reader_ep r"

definition read_ubyte :: "PacketReader \<Rightarrow> (u8 \<times> PacketReader) option" where
  "read_ubyte r =
     (if reader_ep r < length (reader_data r)
      then Some (reader_data r ! reader_ep r, r\<lparr>reader_ep := reader_ep r + 1\<rparr>) else None)"

definition read_sbyte :: "PacketReader \<Rightarrow> (i8 \<times> PacketReader) option" where
  "read_sbyte r = read_ubyte r"

definition read_int :: "bool \<Rightarrow> PacketReader \<Rightarrow> UnpackError + ((int \<times> nat) \<times> PacketReader)" where
  "read_int is_signed r =
     (case unpack_value is_signed (reader_data r) (reader_ep r) of
        Inl e \<Rightarrow> Inl e
      | Inr (value, used) \<Rightarrow> Inr ((value, used), r\<lparr>reader_ep := reader_ep r + used\<rparr>))"

definition read_vuint :: "PacketReader \<Rightarrow> UnpackError + (int \<times> PacketReader)" where
  "read_vuint r = map_sum id (\<lambda>((value, _), r'). (value, r')) (read_int False r)"

definition read_vsint :: "PacketReader \<Rightarrow> UnpackError + (int \<times> PacketReader)" where
  "read_vsint r = map_sum id (\<lambda>((value, _), r'). (value, r')) (read_int True r)"

definition read_blob :: "nat \<Rightarrow> PacketReader \<Rightarrow> (bytes \<times> PacketReader) option" where
  "read_blob len r =
     (let end_index = reader_ep r + len
      in if exceeds_usize end_index \<or> length (reader_data r) < end_index then None
         else Some (take len (drop (reader_ep r) (reader_data r)), r\<lparr>reader_ep := end_index\<rparr>))"

definition read_blob_remain :: "PacketReader \<Rightarrow> (PacketParseError, bytes \<times> PacketReader) outcome" where
  "read_blob_remain r =
     (if length (reader_data r) < reader_ep r then Panic
      else Ret (drop (reader_ep r) (reader_data r), r\<lparr>reader_ep := length (reader_data r)\<rparr>))"

definition read_string :: "PacketReader \<Rightarrow> (PacketParseError, string \<times> PacketReader) outcome" where
  "read_string r =
     (if length (reader_data r) < reader_ep r then Panic
      else
        let rest = drop (reader_ep r) (reader_data r);
            value = takeWhile (\<lambda>b. b \<noteq> 0) rest
        in if length value < length rest
           then (case from_utf8 value of
                   None \<Rightarrow> Fail (Address IncompleteValue)
                 | Some s \<Rightarrow> Ret (s, r\<lparr>reader_ep := reader_ep r + length value + 1\<rparr>))
           else Fail (Address IncompleteValue))"

definition from_be_bytes :: "bytes \<Rightarrow> 'a::len word" where
  "from_be_bytes bs = foldl (\<lambda>a b. push_bit 8 a OR ucast b) 0 bs"

definition read_u16_be :: "PacketReader \<Rightarrow> (u16 \<times> PacketReader) option" where
  "read_u16_be r = map_option (\<lambda>(bs, r'). (from_be_bytes bs, r')) (read_blob 2 r)"

definition read_i16_be :: "PacketReader \<Rightarrow> (i16 \<times> PacketReader) option" where
  "read_i16_be r = read_u16_be r"

definition read_u32_be :: "PacketReader \<Rightarrow> (u32 \<times> PacketReader) option" where
  "read_u32_be r = map_option (\<lambda>(bs, r'). (from_be_bytes bs, r')) (read_blob 4 r)"

definition read_i32_be :: "PacketReader \<Rightarrow> (i32 \<times> PacketReader) option" where
  "read_i32_be r = read_u32_be r"

definition read_u64_be :: "PacketReader \<Rightarrow> (u64 \<times> PacketReader) option" where
  "read_u64_be r = map_option (\<lambda>(bs, r'). (from_be_bytes bs, r')) (read_blob 8 r)"

definition read_i64_be :: "PacketReader \<Rightarrow> (i64 \<times> PacketReader) option" where
  "read_i64_be r = read_u64_be r"

definition read_f32_be :: "PacketReader \<Rightarrow> (u32 \<times> PacketReader) option" where
  "read_f32_be r = read_u32_be r"

definition read_f64_be :: "PacketReader \<Rightarrow> (u64 \<times> PacketReader) option" where
  "read_f64_be r = read_u64_be r"

definition has_unprocessed_bytes :: "PacketReader \<Rightarrow> bool" where
  "has_unprocessed_bytes r \<longleftrightarrow> reader_ep r < length (reader_data r)"

subsection \<open>Parsed packets\<close>

record ParsedUartBusPacket =
  raw_packet :: bytes
  pkt_from :: i32
  pkt_to :: i32
  pkt_payload :: bytes
  pkt_crc8 :: "u8 option"
  pkt_valid_crc8 :: "u8 option"

text \<open>\<^verbatim>\<open>BigInt::try_into\<close> for \<^verbatim>\<open>i32\<close>.\<close>

definition i32_try_from :: "int \<Rightarrow> i32 option" where
  "i32_try_from i = (if - 2147483648 \<le> i \<and> i \<le> 2147483647 then Some (word_of_int i) else None)"

definition packet_new :: "bytes \<Rightarrow> PacketParseError + ParsedUartBusPacket" where
  "packet_new data =
     (case unpack_value True data 0 of
        Inl e \<Rightarrow> Inl (Address e)
      | Inr (to, used_to) \<Rightarrow>
          (case unpack_value True data used_to of
             Inl e \<Rightarrow> Inl (Address e)
           | Inr (from, used_from) \<Rightarrow>
               let ep = used_to + used_from
               in Inr \<lparr>raw_packet = data,
                       pkt_from = (case i32_try_from from of Some a \<Rightarrow> a | None \<Rightarrow> 2147483647),
                       pkt_to = (case i32_try_from to of Some a \<Rightarrow> a | None \<Rightarrow> - 2147483648),
                       pkt_payload = drop ep data, pkt_crc8 = None, pkt_valid_crc8 = None\<rparr>))"

definition from_raw_packet_with_crc :: "bytes \<Rightarrow> PacketParseError + ParsedUartBusPacket" where
  "from_raw_packet_with_crc data =
     (if data = [] then Inl MissingCrc
      else (case packet_new (take (length data - 1) data) of
              Inl e \<Rightarrow> Inl e
            | Inr packet \<Rightarrow> Inr (packet\<lparr>pkt_crc8 := Some (data ! (length data - 1))\<rparr>)))"

definition set_crc8 :: "u8 option \<Rightarrow> ParsedUartBusPacket \<Rightarrow> ParsedUartBusPacket" where
  "set_crc8 value p = p\<lparr>pkt_crc8 := value\<rparr>"

definition read_payload :: "ParsedUartBusPacket \<Rightarrow> PacketReader" where
  "read_payload p = reader_new (pkt_payload p)"

definition get_packet_valid_crc8_value :: "ParsedUartBusPacket \<Rightarrow> u8 \<times> ParsedUartBusPacket" where
  "get_packet_valid_crc8_value p =
     (let p' = (if pkt_valid_crc8 p = None then p\<lparr>pkt_valid_crc8 := Some (crc8 (raw_packet p))\<rparr> else p)
      in (the (pkt_valid_crc8 p'), p'))"

definition is_valid :: "ParsedUartBusPacket \<Rightarrow> bool \<times> ParsedUartBusPacket" where
  "is_valid p =
     (case pkt_crc8 p of
        Some expected \<Rightarrow> (let (v, p') = get_packet_valid_crc8_value p in (v = expected, p'))
      | None \<Rightarrow> (True, p))"

subsection \<open>Textual forms\<close>

fun parse_numbers :: "string list \<Rightarrow> bytes option" where
  "parse_numbers [] = Some []"
| "parse_numbers (number # numbers) =
     (case parse_i32 number of
        None \<Rightarrow> None
      | Some value \<Rightarrow> map_option (\<lambda>bs. ucast (value AND 0xff) # bs) (parse_numbers numbers))"

definition parse_colon_data :: "string \<Rightarrow> bytes option" where
  "parse_colon_data data = parse_numbers (split_on CHR '':'' data)"

definition format_colon_data :: "bytes \<Rightarrow> string" where
  "format_colon_data data = join_with '':'' (map (\<lambda>b. show_nat (unat b)) data)"

definition format_colon_data_with_validation :: "bytes \<Rightarrow> string" where
  "format_colon_data_with_validation data =
     (if data \<noteq> [] \<and> crc8_prefix data (length data - 1) = last data then format_colon_data data
      else ''!'' @ format_colon_data data)"

definition to_short_user_text :: "ParsedUartBusPacket \<Rightarrow> string" where
  "to_short_user_text p =
     (let text = ''From: '' @ show_int (sint (pkt_from p)) @ '', To: '' @ show_int (sint (pkt_to p))
            @ '', payload: '' @ format_colon_data (pkt_payload p)
      in (case pkt_crc8 p of
            None \<Rightarrow> text
          | Some expected \<Rightarrow>
              let text = text @ '', crc8: '' @ show_nat (unat expected);
                  valid = crc8 (raw_packet p)
              in if valid \<noteq> expected then text @ '' != '' @ show_nat (unat valid) else text))"

datatype PacketFormattingMode = RawColon | RawColonWithVerify | ParsedPacket

definition format_packet_with_mode :: "PacketFormattingMode \<Rightarrow> bytes \<Rightarrow> string" where
  "format_packet_with_mode mode data =
     (case mode of
        ParsedPacket \<Rightarrow>
          (case from_raw_packet_with_crc data of
             Inr packet \<Rightarrow> to_short_user_text packet
           | Inl _ \<Rightarrow> format_colon_data_with_validation data)
      | RawColon \<Rightarrow> format_colon_data data
      | RawColonWithVerify \<Rightarrow> format_colon_data_with_validation data)"

subsection \<open>Written values\<close>

lemma asm_buffer_simps [simp]:
  "asm_buffer asm_new = []" "asm_buffer (write_u8 b a) = asm_buffer a @ [b]"
  "asm_buffer (write_blob bs a) = asm_buffer a @ bs"
  "asm_buffer (write_string s a) = asm_buffer a @ as_bytes s @ [0]"
  "asm_buffer (append_crc8 a) = asm_buffer a @ [crc8 (asm_buffer a)]"
  "asm_done a = (asm_buffer a, \<lparr>asm_buffer = []\<rparr>)"
  by (simp_all add: asm_new_def write_u8_def write_blob_def write_string_def append_crc8_def asm_done_def)

lemma write_packed_value_eq:
  assumes "be_bytes tbe" and "sg \<or> 0 \<le> v" and "varint_fits tbe v"
    and "\<not> exceeds_usize (length (asm_buffer a) + length (varint_bytes tbe sg v))"
  shows "write_packed_value tbe sg v a = Inr (a\<lparr>asm_buffer := asm_buffer a @ varint_bytes tbe sg v\<rparr>)"
  using assms by (simp add: write_packed_value_def pack_value_eq pack_value_into_eq Let_def)

lemma i32_bounds: "- (2 ^ 31) \<le> sint (w :: i32)" "sint (w :: i32) < 2 ^ 31"
  using sint_greater_eq [of w] sint_lt [of w] by simp_all

lemma varint_fits_i32 [simp]: "be_bytes tbe \<Longrightarrow> varint_fits tbe (sint (w :: i32))"
  using i32_bounds [of w] by (intro varint_fits_small) auto

lemma length_varint_i32: "be_bytes tbe \<Longrightarrow> length (varint_bytes tbe sg (sint (w :: i32))) \<le> 9"
proof -
  assume tbe: "be_bytes tbe"
  define m where "m = (if sint w < 0 then - sint w - 1 else sint w)"
  have m: "0 \<le> m" "m < 2 ^ 31" using i32_bounds [of w] by (auto simp: m_def)
  then have "length (tbe m) \<le> 4" using tbe by (intro be_bytes_length) (simp_all add: nat_less_iff)
  moreover have "calc_pack_req_bytes_bytes sg (tbe m) \<le> 2 * length (tbe m) + 1"
    by (rule calc_pack_req_bytes_le [OF strip_leading_zero_be_bytes(2) [OF tbe m(1)]])
  ultimately show ?thesis
    unfolding length_varint_bytes [OF tbe] m_def [symmetric] by linarith
qed

text \<open>The bytes of a packet without crc8.\<close>

definition packet_bytes :: "(int \<Rightarrow> bytes) \<Rightarrow> i32 \<Rightarrow> i32 \<Rightarrow> bytes \<Rightarrow> bytes" where
  "packet_bytes to_bytes_be from to payload =
     varint_bytes to_bytes_be True (sint to) @ varint_bytes to_bytes_be True (sint from) @ payload"

lemma write_addressing_new:
  assumes "be_bytes tbe"
  shows "write_addressing tbe from to asm_new = Inr \<lparr>asm_buffer = packet_bytes tbe from to []\<rparr>"
proof -
  have "\<not> exceeds_usize (length (varint_bytes tbe True (sint to)) + length (varint_bytes tbe True (sint from)))"
    "\<not> exceeds_usize (length (varint_bytes tbe True (sint to)))"
    using length_varint_i32 [OF assms, of True to] length_varint_i32 [OF assms, of True "from"]
    by (simp_all add: exceeds_usize_def)
  with assms show ?thesis
    by (simp add: write_addressing_def write_address_def write_packed_value_eq packet_bytes_def asm_new_def)
qed

lemma i32_try_from_sint [simp]: "i32_try_from (sint w) = Some w"
  using i32_bounds [of w] by (simp add: i32_try_from_def)

lemma packet_new_packet_bytes:
  assumes "be_bytes tbe"
  shows "packet_new (packet_bytes tbe from to payload) =
    Inr \<lparr>raw_packet = packet_bytes tbe from to payload, pkt_from = from, pkt_to = to,
         pkt_payload = payload, pkt_crc8 = None, pkt_valid_crc8 = None\<rparr>"
proof -
  let ?to = "varint_bytes tbe True (sint to)" and ?from = "varint_bytes tbe True (sint from)"
  have "unpack_value True (packet_bytes tbe from to payload) 0 = Inr (sint to, length ?to)"
    using unpack_varint_bytes [OF assms, of True "sint to" "[]" "?from @ payload"]
    by (simp add: packet_bytes_def)
  moreover have "unpack_value True (packet_bytes tbe from to payload) (length ?to) = Inr (sint from, length ?from)"
    using unpack_varint_bytes [OF assms, of True "sint from" ?to payload] by (simp add: packet_bytes_def)
  moreover have "drop (length ?to + length ?from) (packet_bytes tbe from to payload) = payload"
    by (simp add: packet_bytes_def)
  ultimately show ?thesis
    by (simp add: packet_new_def Let_def)
qed

lemma from_raw_packet_with_crc_snoc:
  "from_raw_packet_with_crc (data @ [c]) = map_sum id (\<lambda>p. p\<lparr>pkt_crc8 := Some c\<rparr>) (packet_new data)"
  by (simp add: from_raw_packet_with_crc_def map_sum_def id_def split: sum.splits)

lemma is_valid_new: "packet_new data = Inr p \<Longrightarrow> fst (is_valid (p\<lparr>pkt_crc8 := Some c\<rparr>)) \<longleftrightarrow> crc8 data = c"
  by (auto simp: packet_new_def is_valid_def get_packet_valid_crc8_value_def Let_def
      split: sum.splits prod.splits)

subsection \<open>Big endian numbers\<close>

lemma from_be_bytes_snoc: "from_be_bytes (bs @ [b]) = push_bit 8 (from_be_bytes bs) OR ucast b"
  by (simp add: from_be_bytes_def)

lemma from_be_to_be_bytes: "from_be_bytes (to_be_bytes n w) = take_bit (8 * n) (w :: 'a::len word)"
proof (induction n arbitrary: w)
  case 0
  then show ?case by (simp add: from_be_bytes_def)
next
  case (Suc n)
  show ?case
    by (rule bit_word_eqI)
      (auto simp: from_be_bytes_snoc Suc bit_or_iff bit_push_bit_iff bit_take_bit_iff bit_drop_bit_eq
        bit_ucast_iff dest: bit_imp_le_length)
qed

lemma length_to_be_bytes [simp]: "length (to_be_bytes n w) = n"
  by (induction n arbitrary: w) simp_all

subsection \<open>The position of the reader\<close>

definition reader_ok :: "PacketReader \<Rightarrow> bool" where
  "reader_ok r \<longleftrightarrow> reader_ep r \<le> length (reader_data r)"

text \<open>
  A read of the packet: it takes bytes from the position on, never more than there are.
\<close>

locale sequential_read =
  fixes rd :: "PacketReader \<Rightarrow> ('a \<times> PacketReader) option"
  assumes rd_moves: "reader_ok r \<Longrightarrow> rd r = Some (x, r') \<Longrightarrow>
    reader_data r' = reader_data r \<and> reader_ep r \<le> reader_ep r' \<and> reader_ok r'"
begin

lemma rd_consumes:
  assumes "reader_ok r" and "rd r = Some (x, r')"
  shows "reader_ok r' \<and> (\<exists>used. drop (reader_ep r) (reader_data r) = used @ drop (reader_ep r') (reader_data r'))"
proof -
  have "drop (reader_ep r) (reader_data r) =
      take (reader_ep r' - reader_ep r) (drop (reader_ep r) (reader_data r)) @ drop (reader_ep r') (reader_data r)"
    using rd_moves [OF assms]
    by (metis append_take_drop_id drop_drop le_add_diff_inverse2)
  then show ?thesis using rd_moves [OF assms] by metis
qed

end

definition result_ok :: "'e + 'a \<Rightarrow> 'a option" where
  "result_ok m = (case m of Inl _ \<Rightarrow> None | Inr x \<Rightarrow> Some x)"

definition outcome_ok :: "('e, 'a) outcome \<Rightarrow> 'a option" where
  "outcome_ok m = (case m of Ret x \<Rightarrow> Some x | _ \<Rightarrow> None)"

lemma takeWhile_shorter: "length (takeWhile P xs) < length xs \<Longrightarrow> Suc (length (takeWhile P xs)) \<le> length xs"
  by simp

interpretation ubyte: sequential_read read_ubyte
  by unfold_locales (auto simp: read_ubyte_def reader_ok_def split: if_splits)

interpretation blob: sequential_read "read_blob n" for n
  by unfold_locales (auto simp: read_blob_def reader_ok_def Let_def split: if_splits)

interpretation u16: sequential_read read_u16_be
  by unfold_locales (auto simp: read_u16_be_def dest: blob.rd_moves)

interpretation u32: sequential_read read_u32_be
  by unfold_locales (auto simp: read_u32_be_def dest: blob.rd_moves)

interpretation u64: sequential_read read_u64_be
  by unfold_locales (auto simp: read_u64_be_def dest: blob.rd_moves)

interpretation packed: sequential_read "\<lambda>r. result_ok (read_int sg r)" for sg
proof
  fix r x r'
  assume r: "reader_ok r" and rd: "result_ok (read_int sg r) = Some (x, r')"
  then obtain v used where u: "unpack_value sg (reader_data r) (reader_ep r) = Inr (v, used)"
    and r': "r' = r\<lparr>reader_ep := reader_ep r + used\<rparr>"
    by (auto simp: read_int_def result_ok_def split: sum.splits prod.splits)
  then have "unpack_scan (reader_data r) (reader_ep r) 1 = Some used"
    by (auto simp: unpack_value_def Let_def split: option.splits)
  then have "reader_ep r + used \<le> length (reader_data r)"
    using unpack_scan_SomeD [of "reader_data r" "reader_ep r" 1 used] by simp
  then show "reader_data r' = reader_data r \<and> reader_ep r \<le> reader_ep r' \<and> reader_ok r'"
    using r' by (simp add: reader_ok_def)
qed

interpretation remain: sequential_read "\<lambda>r. outcome_ok (read_blob_remain r)"
  by unfold_locales (auto simp: read_blob_remain_def outcome_ok_def reader_ok_def split: if_splits)

interpretation str: sequential_read "\<lambda>r. outcome_ok (read_string r)"
proof
  fix r x r'
  assume r: "reader_ok r" and rd: "outcome_ok (read_string r) = Some (x, r')"
  define rest where "rest = drop (reader_ep r) (reader_data r)"
  from rd have "length (takeWhile (\<lambda>b. b \<noteq> 0) rest) < length rest"
    "r' = r\<lparr>reader_ep := reader_ep r + length (takeWhile (\<lambda>b. b \<noteq> 0) rest) + 1\<rparr>"
    unfolding rest_def
    by (auto simp: read_string_def outcome_ok_def Let_def split: if_splits option.splits)
  then show "reader_data r' = reader_data r \<and> reader_ep r \<le> reader_ep r' \<and> reader_ok r'"
    by (simp add: rest_def reader_ok_def)
qed

text \<open>One successful read of any kind.\<close>

inductive read_step :: "PacketReader \<Rightarrow> PacketReader \<Rightarrow> bool" where
  step_ubyte: "read_ubyte r = Some (b, r') \<Longrightarrow> read_step r r'"
| step_int: "read_int sg r = Inr (v, r') \<Longrightarrow> read_step r r'"
| step_blob: "read_blob n r = Some (bs, r') \<Longrightarrow> read_step r r'"
| step_remain: "read_blob_remain r = Ret (bs, r') \<Longrightarrow> read_step r r'"
| step_string: "read_string r = Ret (s, r') \<Longrightarrow> read_step r r'"

lemma read_step_moves:
  assumes "read_step r r'" and ok: "reader_ok r"
  shows "reader_data r' = reader_data r \<and> reader_ep r \<le> reader_ep r' \<and> reader_ok r'"
  using assms(1)
proof cases
  case (step_ubyte b) then show ?thesis using ubyte.rd_moves [OF ok] by blast
next
  case (step_int sg v)
  then show ?thesis using packed.rd_moves [OF ok, of sg v r'] by (simp add: result_ok_def)
next
  case (step_blob n bs) then show ?thesis using blob.rd_moves [OF ok] by blast
next
  case (step_remain bs)
  then show ?thesis using remain.rd_moves [OF ok, of bs r'] by (simp add: outcome_ok_def)
next
  case (step_string s)
  then show ?thesis using str.rd_moves [OF ok, of s r'] by (simp add: outcome_ok_def)
qed

lemma read_steps_move:
  "read_step\<^sup>*\<^sup>* r r' \<Longrightarrow> reader_ok r \<Longrightarrow>
    reader_data r' = reader_data r \<and> reader_ep r \<le> reader_ep r' \<and> reader_ok r'"
  by (induction rule: rtranclp_induct) (use read_step_moves in fastforce)+

subsection \<open>Reading back what was written\<close>

text \<open>The reader at a position inside of the data.\<close>

definition reader_at :: "bytes \<Rightarrow> bytes \<Rightarrow> PacketReader" where
  "reader_at done_part rest = \<lparr>reader_data = done_part @ rest, reader_ep = length done_part\<rparr>"

lemma reader_new_at: "reader_new data = reader_at [] data"
  by (simp add: reader_new_def reader_at_def)

lemma read_ubyte_at: "read_ubyte (reader_at pre (b # rest)) = Some (b, reader_at (pre @ [b]) rest)"
  by (simp add: read_ubyte_def reader_at_def)

lemma read_blob_at:
  "\<not> exceeds_usize (length pre + length bs) \<Longrightarrow>
    read_blob (length bs) (reader_at pre (bs @ rest)) = Some (bs, reader_at (pre @ bs) rest)"
  by (simp add: read_blob_def reader_at_def)

lemma read_u16_be_at:
  "\<not> exceeds_usize (length pre + 2) \<Longrightarrow>
    read_u16_be (reader_at pre (to_be_bytes 2 w @ rest)) = Some (w, reader_at (pre @ to_be_bytes 2 w) rest)"
  using read_blob_at [of pre "to_be_bytes 2 w" rest] take_bit_word_eq_self [of 16 w]
  by (simp add: read_u16_be_def from_be_to_be_bytes)

lemma read_u32_be_at:
  "\<not> exceeds_usize (length pre + 4) \<Longrightarrow>
    read_u32_be (reader_at pre (to_be_bytes 4 w @ rest)) = Some (w, reader_at (pre @ to_be_bytes 4 w) rest)"
  using read_blob_at [of pre "to_be_bytes 4 w" rest] take_bit_word_eq_self [of 32 w]
  by (simp add: read_u32_be_def from_be_to_be_bytes)

lemma read_u64_be_at:
  "\<not> exceeds_usize (length pre + 8) \<Longrightarrow>
    read_u64_be (reader_at pre (to_be_bytes 8 w @ rest)) = Some (w, reader_at (pre @ to_be_bytes 8 w) rest)"
  using read_blob_at [of pre "to_be_bytes 8 w" rest] take_bit_word_eq_self [of 64 w]
  by (simp add: read_u64_be_def from_be_to_be_bytes)

lemma read_int_at:
  assumes "be_bytes tbe" and "sg \<or> 0 \<le> v"
  shows "read_int sg (reader_at pre (varint_bytes tbe sg v @ rest)) =
    Inr ((v, length (varint_bytes tbe sg v)), reader_at (pre @ varint_bytes tbe sg v) rest)"
  using unpack_varint_bytes [OF assms, of pre rest] by (simp add: read_int_def reader_at_def)

lemma read_string_at:
  assumes "utf8_valid (as_bytes s)" and "0 \<notin> set (as_bytes s)"
  shows "read_string (reader_at pre (as_bytes s @ 0 # rest)) = Ret (s, reader_at (pre @ as_bytes s @ [0]) rest)"
proof -
  have "takeWhile (\<lambda>b. b \<noteq> 0) (as_bytes s @ 0 # rest) = as_bytes s"
    using assms(2) by (subst takeWhile_append2) auto
  then show ?thesis
    using assms(1) by (simp add: read_string_def reader_at_def from_utf8_as_bytes)
qed

lemma read_blob_remain_at: "read_blob_remain (reader_at pre rest) = Ret (rest, reader_at (pre @ rest) [])"
  by (simp add: read_blob_remain_def reader_at_def)

text \<open>Decoders of the front of a byte string, from the reads of the reader.\<close>

definition reader_dec :: "(PacketReader \<Rightarrow> ('a \<times> PacketReader) option) \<Rightarrow> bytes \<Rightarrow> ('a \<times> bytes) option" where
  "reader_dec rd data = map_option (\<lambda>(x, r). (x, drop (reader_ep r) (reader_data r))) (rd (reader_new data))"

lemma reader_dec_at: "rd (reader_at [] data) = Some (x, reader_at pre rest) \<Longrightarrow> reader_dec rd data = Some (x, rest)"
  by (simp add: reader_dec_def reader_new_at) (simp add: reader_at_def)

interpretation u16_code: prefix_codec "\<lambda>_. True" "to_be_bytes 2" "reader_dec read_u16_be"
  by unfold_locales (rule reader_dec_at, rule read_u16_be_at, simp add: exceeds_usize_def)

interpretation u32_code: prefix_codec "\<lambda>_. True" "to_be_bytes 4" "reader_dec read_u32_be"
  by unfold_locales (rule reader_dec_at, rule read_u32_be_at, simp add: exceeds_usize_def)

interpretation u64_code: prefix_codec "\<lambda>_. True" "to_be_bytes 8" "reader_dec read_u64_be"
  by unfold_locales (rule reader_dec_at, rule read_u64_be_at, simp add: exceeds_usize_def)

interpretation string_code: prefix_codec
  "\<lambda>s. utf8_valid (as_bytes s) \<and> 0 \<notin> set (as_bytes s)" "\<lambda>s. as_bytes s @ [0]"
  "reader_dec (\<lambda>r. outcome_ok (read_string r))"
  by unfold_locales (rule reader_dec_at, simp add: read_string_at outcome_ok_def)

subsection \<open>Colon separated data\<close>

lemma parse_i32_show_byte: "parse_i32 (show_nat (unat (b :: u8))) = Some (ucast b)"
proof -
  have "unat b < 256" using unsigned_less [of b] by simp
  then have "parse_int 10 True (- 2147483648) 2147483647 (show_nat (unat b)) = Some (int (unat b))"
    by (intro parse_int_show_nat) linarith+
  then show ?thesis
    by (simp add: parse_i32_def)
qed

lemma parse_numbers_show: "parse_numbers (map (\<lambda>b. show_nat (unat b)) data) = Some data"
proof (induction data)
  case (Cons b data)
  have "(0xff :: int) = mask 8" by (simp add: mask_eq_exp_minus_1)
  then have "bit (0xff :: int) n \<longleftrightarrow> n < 8" for n
    by (simp only: bit_mask_iff possible_bit_int simp_thms)
  then have "ucast ((ucast b :: i32) AND 0xff) = b"
    by (intro bit_word_eqI) (auto simp: bit_ucast_iff bit_and_iff)
  with Cons show ?case by (simp add: parse_i32_show_byte)
qed simp

lemma colon_not_in_show_nat: "CHR '':'' \<notin> set (show_nat n)"
  using show_nat_digits [of "CHR '':''" n] by auto

subsection \<open>Properties\<close>

text \<open>
  C4: A packet put together with the assembler (addresses, payload, crc8) is parsed back to the same
  addresses and payload, for all addresses and payloads, and is valid; the receiving side strips
  exactly its crc8.
\<close>

theorem assembled_packet_is_parsed_back:
  assumes "be_bytes to_bytes_be"
  shows "\<exists>a raw p. write_addressing to_bytes_be from to asm_new = Inr a
    \<and> asm_done (append_crc8 (write_blob payload a)) = (raw, asm_new)
    \<and> from_raw_packet_with_crc raw = Inr p
    \<and> pkt_from p = from \<and> pkt_to p = to \<and> pkt_payload p = payload \<and> fst (is_valid p)
    \<and> get_valid_packet raw = Some (raw_packet p)"
proof -
  define pb where "pb = packet_bytes to_bytes_be from to payload"
  define p where "p = \<lparr>raw_packet = pb, pkt_from = from, pkt_to = to, pkt_payload = payload,
    pkt_crc8 = None, pkt_valid_crc8 = None\<rparr>"
  have new: "packet_new pb = Inr p"
    using assms by (simp add: pb_def p_def packet_new_packet_bytes)
  have "asm_done (append_crc8 (write_blob payload \<lparr>asm_buffer = packet_bytes to_bytes_be from to []\<rparr>)) =
      (pb @ [crc8 pb], asm_new)"
    by (simp add: asm_new_def pb_def packet_bytes_def)
  moreover have "from_raw_packet_with_crc (pb @ [crc8 pb]) = Inr (p\<lparr>pkt_crc8 := Some (crc8 pb)\<rparr>)"
    using new by (simp add: from_raw_packet_with_crc_snoc)
  moreover have "fst (is_valid (p\<lparr>pkt_crc8 := Some (crc8 pb)\<rparr>))"
    using new by (simp add: is_valid_new)
  moreover have "get_valid_packet (pb @ [crc8 pb]) = Some pb"
    by (simp add: get_valid_packet_def crc8_def crc8_prefix_def)
  ultimately show ?thesis
    using write_addressing_new [OF assms, of "from" to] by (auto simp: p_def)
qed

theorem assembled_packet_is_parsed_back_witness:
  "\<exists>a raw p. write_addressing be_digits (- 1) 300 asm_new = Inr a
    \<and> asm_done (append_crc8 (write_blob [1, 2] a)) = (raw, asm_new)
    \<and> from_raw_packet_with_crc raw = Inr p
    \<and> pkt_from p = - 1 \<and> pkt_to p = 300 \<and> pkt_payload p = [1, 2] \<and> fst (is_valid p)
    \<and> get_valid_packet raw = Some (raw_packet p)"
  by (rule assembled_packet_is_parsed_back [OF be_bytes_be_digits])

text \<open>
  C8: No sequence of reads moves the reader behind the end of its data or changes the data, and from
  every state it reaches \<^verbatim>\<open>read_string\<close> and \<^verbatim>\<open>read_blob_remain\<close> do not panic.
\<close>

theorem reads_stay_inside:
  assumes "read_step\<^sup>*\<^sup>* (reader_new data) r"
  shows "reader_data r = data \<and> reader_ep r \<le> length data \<and> get_remaining_bytes r = length data - reader_ep r
    \<and> read_string r \<noteq> Panic \<and> read_blob_remain r \<noteq> Panic"
proof -
  have "reader_ok (reader_new data)" by (simp add: reader_new_def reader_ok_def)
  then have d: "reader_data r = data" and ok: "reader_ok r"
    using read_steps_move [OF assms] by (simp_all add: reader_new_def)
  from ok show ?thesis
    unfolding d [symmetric] by (simp add: reader_ok_def get_remaining_bytes_def read_string_def read_blob_remain_def Let_def
        split: option.splits)
qed

theorem reads_stay_inside_witness:
  "let r = \<lparr>reader_data = [1, 2, 3], reader_ep = 2\<rparr>
   in reader_data r = [1, 2, 3] \<and> reader_ep r \<le> length ([1, 2, 3] :: bytes)
    \<and> get_remaining_bytes r = length ([1, 2, 3] :: bytes) - reader_ep r
    \<and> read_string r \<noteq> Panic \<and> read_blob_remain r \<noteq> Panic"
proof -
  have "read_blob 2 (reader_new [1, 2, 3]) = Some ([1, 2], \<lparr>reader_data = [1, 2, 3], reader_ep = 2\<rparr>)"
    by code_simp
  then have "read_step\<^sup>*\<^sup>* (reader_new [1, 2, 3]) \<lparr>reader_data = [1, 2, 3], reader_ep = 2\<rparr>"
    by (intro r_into_rtranclp step_blob)
  then show ?thesis
    unfolding Let_def by (rule reads_stay_inside)
qed

text \<open>
  The colon separated form of a non-empty byte string is parsed back to the same bytes.
\<close>

lemma parse_format_colon_data:
  assumes "data \<noteq> []"
  shows "parse_colon_data (format_colon_data data) = Some data"
proof -
  have "split_on CHR '':'' (format_colon_data data) = map (\<lambda>b. show_nat (unat b)) data"
    unfolding format_colon_data_def using assms
    by (intro split_on_join_with) (auto simp: list_all_iff colon_not_in_show_nat)
  then show ?thesis by (simp add: parse_colon_data_def parse_numbers_show)
qed

end
