(* ===== verification/Rpc_Values.thy ===== *)
theory Rpc_Values
  imports Packet
begin

text \<open>
  The typed values of the RPC, \<^verbatim>\<open>rpc/types.rs\<close> and \<^verbatim>\<open>rpc/tools.rs\<close>: their bytes in a packet
  (\<^verbatim>\<open>append_value\<close>, \<^verbatim>\<open>to_packet\<close>) and reading them by type (\<^verbatim>\<open>read_type\<close>).

  The loop that reads the items of an array ends when no byte is left; with an item type that takes
  no bytes it never ends.  So \<open>read_type\<close> has a bound \<open>n\<close> on the turns of each such loop, and
  \<^const>\<open>None\<close> stands for running out of it: a theorem shows that for all types whose array items take
  bytes one turn more than there are bytes is enough.
\<close>

subsection \<open>Definitions\<close>

datatype RpcValue =
    RvBool bool
  | RvS8 i8
  | RvU8 u8
  | RvUInt8 u8
  | RvU16 u16
  | RvUInt16 u16
  | RvS16 i16
  | RvBytes bytes
  | RvString string
  | RvVSigned int
  | RvVUnsigned int
  | RvEnum nat
  | RvStruct "RpcValue list"
  | RvArray "RpcValue list"

datatype RpcType =
    RtBool | RtS8 | RtU8 | RtUInt8 | RtU16 | RtUInt16 | RtS16 | RtBytes | RtString | RtVSigned
  | RtVUnsigned
  | RtEnum "string list"
  | RtStruct "RpcType list"
  | RtArray RpcType

datatype RpcReadError = PacketError UnpackError | EnumIndexOutOfRange nat nat

fun read_error_text :: "RpcReadError \<Rightarrow> string" where
  "read_error_text (PacketError err) = ''packet read error: '' @ unpack_error_text err"
| "read_error_text (EnumIndexOutOfRange index len) =
     ''enum index '' @ show_nat index @ '' is out of range for '' @ show_nat len @ '' values''"

fun read_error_of_parse :: "PacketParseError \<Rightarrow> RpcReadError" where
  "read_error_of_parse MissingCrc = PacketError IncompleteValue"
| "read_error_of_parse (Address e) = PacketError e"

fun append_value :: "(int \<Rightarrow> bytes) \<Rightarrow> RpcValue \<Rightarrow> PacketAssembler \<Rightarrow> PackError + PacketAssembler"
and append_elements :: "(int \<Rightarrow> bytes) \<Rightarrow> RpcValue list \<Rightarrow> PacketAssembler \<Rightarrow> PackError + PacketAssembler" where
  "append_value tbe (RvBool value) a = Inr (write_u8 (if value then 1 else 0) a)"
| "append_value tbe (RvS8 value) a = Inr (write_i8 value a)"
| "append_value tbe (RvU8 value) a = Inr (write_u8 value a)"
| "append_value tbe (RvUInt8 value) a = Inr (write_u8 value a)"
| "append_value tbe (RvU16 value) a = Inr (write_u16_be value a)"
| "append_value tbe (RvUInt16 value) a = Inr (write_u16_be value a)"
| "append_value tbe (RvS16 value) a = Inr (write_i16_be value a)"
| "append_value tbe (RvBytes value) a = Inr (write_blob value a)"
| "append_value tbe (RvString value) a = Inr (write_string value a)"
| "append_value tbe (RvVSigned value) a = write_packed_value tbe True value a"
| "append_value tbe (RvVUnsigned value) a = write_packed_value tbe True value a"
| "append_value tbe (RvEnum index) a = write_packed_value tbe False (int index) a"
| "append_value tbe (RvStruct values) a = append_elements tbe values a"
| "append_value tbe (RvArray values) a = append_elements tbe values a"
| "append_elements tbe [] a = Inr a"
| "append_elements tbe (value # values) a =
     (case append_value tbe value a of Inl e \<Rightarrow> Inl e | Inr a' \<Rightarrow> append_elements tbe values a')"

definition to_packet :: "(int \<Rightarrow> bytes) \<Rightarrow> i32 \<Rightarrow> i32 \<Rightarrow> RpcValue list \<Rightarrow> PackError + bytes" where
  "to_packet to_bytes_be to from elements =
     (case write_addressing to_bytes_be from to asm_new of
        Inl e \<Rightarrow> Inl e
      | Inr a \<Rightarrow>
          (case append_elements to_bytes_be elements a of
             Inl e \<Rightarrow> Inl e
           | Inr a' \<Rightarrow> Inr (fst (asm_done (append_crc8 a')))))"

text \<open>\<^verbatim>\<open>ok_or(IncompleteValue)\<close> on the reads that return an option, and the conversions of errors.\<close>

fun require :: "('b \<Rightarrow> 'a) \<Rightarrow> ('b \<times> PacketReader) option \<Rightarrow> (RpcReadError, 'a \<times> PacketReader) outcome" where
  "require f None = Fail (PacketError IncompleteValue)"
| "require f (Some (x, r)) = Ret (f x, r)"

fun lift_unpack :: "('b \<Rightarrow> 'a) \<Rightarrow> UnpackError + ('b \<times> PacketReader) \<Rightarrow> (RpcReadError, 'a \<times> PacketReader) outcome" where
  "lift_unpack f (Inl e) = Fail (PacketError e)"
| "lift_unpack f (Inr (x, r)) = Ret (f x, r)"

fun lift_parse ::
  "('b \<Rightarrow> 'a) \<Rightarrow> (PacketParseError, 'b \<times> PacketReader) outcome \<Rightarrow> (RpcReadError, 'a \<times> PacketReader) outcome" where
  "lift_parse f Panic = Panic"
| "lift_parse f (Fail e) = Fail (read_error_of_parse e)"
| "lift_parse f (Ret (x, r)) = Ret (f x, r)"

definition read_enum :: "PacketReader \<Rightarrow> string list \<Rightarrow> (RpcReadError, RpcValue \<times> PacketReader) outcome" where
  "read_enum r values =
     (case read_vuint r of
        Inl e \<Rightarrow> Fail (PacketError e)
      | Inr (index, r') \<Rightarrow>
          if index < 0 \<or> exceeds_usize (nat index) then Fail (PacketError IncompleteValue)
          else if length values \<le> nat index then Fail (EnumIndexOutOfRange (nat index) (length values))
          else Ret (RvEnum (nat index), r'))"

function (sequential) read_type ::
    "nat \<Rightarrow> PacketReader \<Rightarrow> RpcType \<Rightarrow> (RpcReadError, RpcValue \<times> PacketReader) outcome option"
and read_fields ::
    "nat \<Rightarrow> PacketReader \<Rightarrow> RpcType list \<Rightarrow> RpcValue list
      \<Rightarrow> (RpcReadError, RpcValue \<times> PacketReader) outcome option"
and read_items ::
    "nat \<Rightarrow> nat \<Rightarrow> PacketReader \<Rightarrow> RpcType \<Rightarrow> RpcValue list
      \<Rightarrow> (RpcReadError, RpcValue \<times> PacketReader) outcome option" where
  "read_type n r RtBool = Some (require (\<lambda>b. RvBool (b \<noteq> 0)) (read_sbyte r))"
| "read_type n r RtS8 = Some (require RvS8 (read_sbyte r))"
| "read_type n r RtU8 = Some (require RvU8 (read_ubyte r))"
| "read_type n r RtUInt8 = Some (require RvUInt8 (read_ubyte r))"
| "read_type n r RtU16 = Some (require RvU16 (read_u16_be r))"
| "read_type n r RtUInt16 = Some (require RvUInt16 (read_u16_be r))"
| "read_type n r RtS16 = Some (require RvS16 (read_i16_be r))"
| "read_type n r RtBytes = Some (lift_parse RvBytes (read_blob_remain r))"
| "read_type n r RtString = Some (lift_parse RvString (read_string r))"
| "read_type n r RtVSigned = Some (lift_unpack RvVSigned (read_vsint r))"
| "read_type n r RtVUnsigned = Some (lift_unpack RvVUnsigned (read_vuint r))"
| "read_type n r (RtEnum values) = Some (read_enum r values)"
| "read_type n r (RtStruct types) = read_fields n r types []"
| "read_type n r (RtArray item_type) = read_items n n r item_type []"
| "read_fields n r [] values = Some (Ret (RvStruct values, r))"
| "read_fields n r (ty # types) values =
     (case read_type n r ty of
        None \<Rightarrow> None
      | Some Panic \<Rightarrow> Some Panic
      | Some (Fail e) \<Rightarrow> Some (Fail e)
      | Some (Ret (value, r')) \<Rightarrow> read_fields n r' types (values @ [value]))"
| "read_items n 0 r item_type values = None"
| "read_items n (Suc k) r item_type values =
     (if has_unprocessed_bytes r
      then (case read_type n r item_type of
              None \<Rightarrow> None
            | Some Panic \<Rightarrow> Some Panic
            | Some (Fail e) \<Rightarrow> Some (Fail e)
            | Some (Ret (value, r')) \<Rightarrow> read_items n k r' item_type (values @ [value]))
      else Some (Ret (RvArray values, r)))"
  by pat_completeness auto
termination
  by (relation "measures
     [case_sum (\<lambda>(n, r, ty). size ty) (case_sum (\<lambda>(n, r, tys, vs). size_list size tys) (\<lambda>(n, k, r, ty, vs). size ty)),
      case_sum (\<lambda>(n, r, ty). 0) (case_sum (\<lambda>(n, r, tys, vs). length tys) (\<lambda>(n, k, r, ty, vs). Suc k))]")
    auto

subsection \<open>Reading ends\<close>

text \<open>A type whose values take at least one byte if there is one, and types without endless arrays.\<close>

fun takes_bytes :: "RpcType \<Rightarrow> bool" where
  "takes_bytes (RtStruct types) = list_ex takes_bytes types"
| "takes_bytes _ = True"

fun arrays_end :: "RpcType \<Rightarrow> bool" where
  "arrays_end (RtStruct types) = list_all arrays_end types"
| "arrays_end (RtArray item_type) = (takes_bytes item_type \<and> arrays_end item_type)"
| "arrays_end _ = True"

text \<open>A read does not panic, and when it returns a value the reader has moved forward.\<close>

definition moved :: "PacketReader \<Rightarrow> bool \<Rightarrow> PacketReader \<Rightarrow> bool" where
  "moved r must r' \<longleftrightarrow> reader_data r' = reader_data r \<and> reader_ep r \<le> reader_ep r' \<and> reader_ok r'
     \<and> (must \<and> has_unprocessed_bytes r \<longrightarrow> reader_ep r < reader_ep r')"

fun progress :: "PacketReader \<Rightarrow> bool \<Rightarrow> ('e, 'a \<times> PacketReader) outcome option \<Rightarrow> bool" where
  "progress r must None = True"
| "progress r must (Some Panic) = False"
| "progress r must (Some (Fail e)) = True"
| "progress r must (Some (Ret (v, r'))) = moved r must r'"

lemma read_result_cases [case_names none panic fail returned]:
  obtains "res = None" | "res = Some Panic" | e where "res = Some (Fail e)"
  | v r' where "res = Some (Ret (v, r' :: PacketReader))"
  by (cases res; cases "the res"; auto)

lemma progress_mono: "progress r must res \<Longrightarrow> (must' \<Longrightarrow> must) \<Longrightarrow> progress r must' res"
  by (cases res rule: read_result_cases) (auto simp: moved_def)

lemma progress_require:
  assumes "\<And>x r'. rd = Some (x, r') \<Longrightarrow> moved r must r'"
  shows "progress r must (Some (require f rd))"
  using assms by (cases rd) auto

lemma read_ubyte_moved: "reader_ok r \<Longrightarrow> read_ubyte r = Some (x, r') \<Longrightarrow> moved r must r'"
  by (auto simp: read_ubyte_def moved_def reader_ok_def split: if_splits)

lemma read_u16_be_moved: "reader_ok r \<Longrightarrow> read_u16_be r = Some (x, r') \<Longrightarrow> moved r must r'"
  by (auto simp: read_u16_be_def read_blob_def Let_def moved_def reader_ok_def split: if_splits)

lemma read_int_moved: 
  assumes ok: "reader_ok r" and rd: "read_int sg r = Inr (x, r')"
  shows "moved r must r'"
proof -
  from rd obtain v used where u: "unpack_value sg (reader_data r) (reader_ep r) = Inr (v, used)"
    and r': "r' = r\<lparr>reader_ep := reader_ep r + used\<rparr>"
    by (auto simp: read_int_def split: sum.splits)
  have "0 < used"
    using u unpack_scan_SomeD [of "reader_data r" "reader_ep r" 1 used]
    by (auto simp: unpack_value_def Let_def split: option.splits)
  moreover have "reader_data r' = reader_data r \<and> reader_ep r \<le> reader_ep r' \<and> reader_ok r'"
    using packed.rd_moves [OF ok, of sg x r'] rd by (simp add: result_ok_def)
  ultimately show ?thesis by (simp add: moved_def r')
qed

lemma read_vint_moved:
  assumes "reader_ok r"
  shows "read_vsint r = Inr (x, r') \<Longrightarrow> moved r must r'" "read_vuint r = Inr (x, r') \<Longrightarrow> moved r must r'"
  using assms read_int_moved
  by (auto simp: read_vsint_def read_vuint_def map_sum_def split: sum.splits prod.splits)

lemma progress_lift_unpack:
  assumes "\<And>x r'. rd = Inr (x, r') \<Longrightarrow> moved r must r'"
  shows "progress r must (Some (lift_unpack f rd))"
  using assms by (cases rd) auto

lemma progress_read_blob_remain: "reader_ok r \<Longrightarrow> progress r must (Some (lift_parse f (read_blob_remain r)))"
  by (auto simp: read_blob_remain_def moved_def reader_ok_def has_unprocessed_bytes_def)

lemma progress_read_string:
  assumes ok: "reader_ok r"
  shows "progress r must (Some (lift_parse f (read_string r)))"
proof (cases "read_string r")
  case (Ret x)
  then obtain s r' where rd: "read_string r = Ret (s, r')" by (cases x) auto
  then have "reader_ep r < reader_ep r'"
    by (auto simp: read_string_def Let_def split: if_splits option.splits)
  moreover have "reader_data r' = reader_data r \<and> reader_ep r \<le> reader_ep r' \<and> reader_ok r'"
    using str.rd_moves [OF ok, of s r'] rd by (simp add: outcome_ok_def)
  ultimately show ?thesis by (simp add: rd moved_def)
next
  case Panic
  then show ?thesis using ok
    by (auto simp: read_string_def Let_def reader_ok_def split: if_splits option.splits)
qed simp

lemma progress_read_enum: "reader_ok r \<Longrightarrow> progress r must (Some (read_enum r values))"
  by (auto simp: read_enum_def read_vint_moved split: sum.splits)

lemma progress_base:
  assumes "reader_ok r"
  shows "progress r must (Some (require f (read_ubyte r)))" "progress r must (Some (require g (read_u16_be r)))"
    "progress r must (Some (lift_unpack h (read_vsint r)))" "progress r must (Some (lift_unpack h (read_vuint r)))"
  using assms read_ubyte_moved read_u16_be_moved read_vint_moved
  by (blast intro: progress_require progress_lift_unpack)+

lemma read_type_progress:
  shows "reader_ok r \<Longrightarrow> progress r (takes_bytes ty \<and> arrays_end ty) (read_type n r ty)"
    and "reader_ok r \<Longrightarrow>
      progress r (list_ex takes_bytes types \<and> list_all arrays_end types) (read_fields n r types vals)"
    and "reader_ok r \<Longrightarrow> progress r (takes_bytes ty \<and> arrays_end ty) (read_items n k r ty vals)"
proof (induction n r ty and n r types vals and n k r ty vals
    rule: read_type_read_fields_read_items.induct)
  case (16 n r ty types vs)
  then have first: "progress r (takes_bytes ty \<and> arrays_end ty) (read_type n r ty)" by simp
  show ?case
  proof (cases "read_type n r ty" rule: read_result_cases)
    case (returned v r')
    with first have m: "moved r (takes_bytes ty \<and> arrays_end ty) r'" by simp
    then have "progress r' (list_ex takes_bytes types \<and> list_all arrays_end types) (read_fields n r' types (vs @ [v]))"
      using 16 returned by (auto simp: moved_def)
    then show ?thesis
      using returned m by (cases "read_fields n r' types (vs @ [v])" rule: read_result_cases)
        (auto simp: moved_def has_unprocessed_bytes_def)
  qed (use first in simp_all)
next
  case (18 n k r ty vs)
  show ?case
  proof (cases "has_unprocessed_bytes r")
    case unp: True
    with 18 have first: "progress r (takes_bytes ty \<and> arrays_end ty) (read_type n r ty)" by simp
    show ?thesis
    proof (cases "read_type n r ty" rule: read_result_cases)
      case (returned v r')
      with first unp have m: "moved r (takes_bytes ty \<and> arrays_end ty) r'" by simp
      then have "progress r' (takes_bytes ty \<and> arrays_end ty) (read_items n k r' ty (vs @ [v]))"
        using 18 returned unp by (auto simp: moved_def)
      then show ?thesis
        using returned m unp by (cases "read_items n k r' ty (vs @ [v])" rule: read_result_cases)
          (auto simp: moved_def)
    qed (use first unp in simp_all)
  qed (use 18 in \<open>simp add: moved_def\<close>)
next
  case (14 n r item_type)
  then show ?case by (auto intro: progress_mono)
qed (auto simp: read_sbyte_def read_i16_be_def progress_base progress_read_blob_remain progress_read_string
    progress_read_enum moved_def)

lemma read_type_total:
  shows "arrays_end ty \<Longrightarrow> reader_ok r \<Longrightarrow> length (reader_data r) < n \<Longrightarrow> read_type n r ty \<noteq> None"
    and "list_all arrays_end types \<Longrightarrow> reader_ok r \<Longrightarrow> length (reader_data r) < n \<Longrightarrow>
      read_fields n r types vals \<noteq> None"
    and "takes_bytes ty \<Longrightarrow> arrays_end ty \<Longrightarrow> reader_ok r \<Longrightarrow> length (reader_data r) < n \<Longrightarrow>
      length (reader_data r) < k + reader_ep r \<Longrightarrow> read_items n k r ty vals \<noteq> None"
proof (induction n r ty and n r types vals and n k r ty vals
    rule: read_type_read_fields_read_items.induct)
  case (16 n r ty types vs)
  have "progress r (takes_bytes ty \<and> arrays_end ty) (read_type n r ty)"
    using 16 read_type_progress(1) by blast
  then show ?case
    using 16 by (cases "read_type n r ty" rule: read_result_cases) (auto simp: moved_def)
next
  case (17 n r ty vs)
  then show ?case by (simp add: reader_ok_def)
next
  case (18 n k r ty vs)
  have "progress r (takes_bytes ty \<and> arrays_end ty) (read_type n r ty)"
    using 18 read_type_progress(1) by blast
  then show ?case
    using 18 by (cases "read_type n r ty" rule: read_result_cases) (auto simp: moved_def)
qed auto

text \<open>More turns do not change a result.\<close>

lemma read_more_turns:
  shows "read_type n r ty = Some x \<Longrightarrow> n \<le> m \<Longrightarrow> read_type m r ty = Some x"
    and "read_fields n r types vals = Some x \<Longrightarrow> n \<le> m \<Longrightarrow> read_fields m r types vals = Some x"
    and "read_items n k r ty vals = Some x \<Longrightarrow> n \<le> m \<Longrightarrow> k \<le> j \<Longrightarrow> read_items m j r ty vals = Some x"
proof (induction n r ty and n r types vals and n k r ty vals arbitrary: x m and x m and x m j
    rule: read_type_read_fields_read_items.induct)
  case (13 n r types)
  show ?case using "13.IH" [of x m] "13.prems" by (simp only: read_type.simps)
next
  case (14 n r item_type)
  show ?case using "14.IH" [of x m m] "14.prems" by (simp only: read_type.simps)
next
  case (16 n r ty types vs)
  note first = "16.IH"(1) [OF _ "16.prems"(2)]
  show ?case
  proof (cases "read_type n r ty" rule: read_result_cases)
    case (returned v r')
    then show ?thesis
      using first [OF returned] "16.IH"(2) [OF returned refl refl _ "16.prems"(2)] "16.prems"(1) by simp
  next
    case none
    then show ?thesis using "16.prems" by simp
  next
    case panic
    then show ?thesis using first [OF panic] "16.prems"(1) by simp
  next
    case (fail e)
    then show ?thesis using first [OF fail] "16.prems"(1) by auto
  qed
next
  case (18 n k r ty vs)
  obtain i where j: "j = Suc i" "k \<le> i" using "18.prems" by (cases j) auto
  show ?case
  proof (cases "has_unprocessed_bytes r")
    case unp: True
    note first = "18.IH"(1) [OF unp _ "18.prems"(2)]
    show ?thesis
    proof (cases "read_type n r ty" rule: read_result_cases)
      case (returned v r')
      then show ?thesis
        using first [OF returned] "18.IH"(2) [OF unp returned refl refl _ "18.prems"(2) j(2)] "18.prems"(1) unp j
        by simp
    next
      case none
      then show ?thesis using "18.prems" unp by simp
    next
      case panic
      then show ?thesis using first [OF panic] "18.prems"(1) unp j by simp
    next
      case (fail e)
      then show ?thesis using first [OF fail] "18.prems"(1) unp j by auto
    qed
  next
    case False
    then show ?thesis using "18.prems" j by simp
  qed
qed simp_all

subsection \<open>The bytes of a value\<close>

fun enc_value :: "(int \<Rightarrow> bytes) \<Rightarrow> RpcValue \<Rightarrow> bytes" where
  "enc_value tbe (RvBool value) = [if value then 1 else 0]"
| "enc_value tbe (RvS8 value) = [value]"
| "enc_value tbe (RvU8 value) = [value]"
| "enc_value tbe (RvUInt8 value) = [value]"
| "enc_value tbe (RvU16 value) = to_be_bytes 2 value"
| "enc_value tbe (RvUInt16 value) = to_be_bytes 2 value"
| "enc_value tbe (RvS16 value) = to_be_bytes 2 value"
| "enc_value tbe (RvBytes value) = value"
| "enc_value tbe (RvString value) = as_bytes value @ [0]"
| "enc_value tbe (RvVSigned value) = varint_bytes tbe True value"
| "enc_value tbe (RvVUnsigned value) = varint_bytes tbe True value"
| "enc_value tbe (RvEnum index) = varint_bytes tbe False (int index)"
| "enc_value tbe (RvStruct vals) = concat (map (enc_value tbe) vals)"
| "enc_value tbe (RvArray vals) = concat (map (enc_value tbe) vals)"

text \<open>The numbers in a value are of a size that fits in memory.\<close>

fun fits_value :: "(int \<Rightarrow> bytes) \<Rightarrow> RpcValue \<Rightarrow> bool" where
  "fits_value tbe (RvVSigned value) = varint_fits tbe value"
| "fits_value tbe (RvVUnsigned value) = varint_fits tbe value"
| "fits_value tbe (RvEnum index) = varint_fits tbe (int index)"
| "fits_value tbe (RvStruct vals) = list_all (fits_value tbe) vals"
| "fits_value tbe (RvArray vals) = list_all (fits_value tbe) vals"
| "fits_value tbe _ = True"

lemma exceeds_usize_mono: "\<not> exceeds_usize n \<Longrightarrow> m \<le> n \<Longrightarrow> \<not> exceeds_usize m"
  by (simp add: exceeds_usize_def)

lemma append_value_eq:
  shows "be_bytes tbe \<Longrightarrow> fits_value tbe v \<Longrightarrow> \<not> exceeds_usize (length (asm_buffer a) + length (enc_value tbe v)) \<Longrightarrow>
      append_value tbe v a = Inr \<lparr>asm_buffer = asm_buffer a @ enc_value tbe v\<rparr>"
    and "be_bytes tbe \<Longrightarrow> list_all (fits_value tbe) vs \<Longrightarrow>
      \<not> exceeds_usize (length (asm_buffer a) + length (concat (map (enc_value tbe) vs))) \<Longrightarrow>
      append_elements tbe vs a = Inr \<lparr>asm_buffer = asm_buffer a @ concat (map (enc_value tbe) vs)\<rparr>"
proof (induction tbe v a and tbe vs a rule: append_value_append_elements.induct)
  case (16 tbe v vs a)
  have "\<not> exceeds_usize (length (asm_buffer a) + length (enc_value tbe v))"
    using 16(5) by (rule exceeds_usize_mono) simp
  with 16 show ?case by (simp add: add.assoc)
qed (simp_all add: write_u8_def write_i8_def write_u16_be_def write_i16_be_def write_blob_def
    write_string_def write_packed_value_eq)

subsection \<open>Reading back\<close>

text \<open>An unsigned value is written with room for a sign, and read without it.\<close>

lemma packed_byte_positive: "packed_byte (Some False) = packed_byte None"
  by (simp add: packed_byte_def fun_eq_iff)

lemma unpack_unsigned_of_signed:
  assumes tbe: "be_bytes tbe" and v: "0 \<le> v"
  shows "unpack_value False (pre @ varint_bytes tbe True v @ rest) (length pre) =
    Inr (v, length (varint_bytes tbe True v))"
proof -
  define req where "req = calc_pack_req_bytes_bytes True (tbe v)"
  define data where "data = pre @ varint_bytes tbe True v @ rest"
  have vb: "varint_bytes tbe True v = map (packed_byte None (nat v) req) [0..<req]"
    using v by (simp add: varint_bytes_eq [OF tbe] req_def Let_def packed_byte_positive)
  have req: "0 < req" by (simp add: req_def calc_pack_req_bytes_pos)
  have bytes: "data ! (length pre + i) = packed_byte None (nat v) req i" if "i < req" for i
    using that by (simp add: data_def nth_append vb)
  have "nat v < 2 ^ (7 * req - of_bool True)"
    using pack_capacity [of "tbe v" True] strip_leading_zero_be_bytes [OF tbe v] by (simp add: req_def)
  then have cap: "nat v < 2 ^ (7 * req - of_bool False)"
    by (rule less_le_trans) (intro power_increasing, auto)
  have "unpack_scan data (length pre) (Suc 0) = Some (Suc (req - 1))"
    using req bytes [of "req - 1"]
    by (intro unpack_scan_found) (auto simp: bytes bit_packed_byte, simp add: data_def vb)
  moreover have "unpack_groups False data (length pre) [0..<req] 0 = v"
    using unpack_groups_packed [OF cap _ order_refl bytes] v by simp
  ultimately show ?thesis
    using req unfolding data_def [symmetric] by (simp add: unpack_value_def vb)
qed

text \<open>Types whose values end by themselves, and types whose values can be read back.\<close>

fun delimited :: "RpcType \<Rightarrow> bool" where
  "delimited RtBytes = False"
| "delimited (RtArray _) = False"
| "delimited (RtStruct types) = list_all delimited types"
| "delimited _ = True"

fun readable :: "RpcType \<Rightarrow> bool" where
  "readable (RtStruct types) = (list_all readable types \<and> list_all delimited (butlast types))"
| "readable (RtArray item_type) = (readable item_type \<and> delimited item_type \<and> takes_bytes item_type)"
| "readable _ = True"

fun has_type :: "(int \<Rightarrow> bytes) \<Rightarrow> RpcValue \<Rightarrow> RpcType \<Rightarrow> bool"
and has_types :: "(int \<Rightarrow> bytes) \<Rightarrow> RpcValue list \<Rightarrow> RpcType list \<Rightarrow> bool" where
  "has_type tbe (RvBool _) ty = (ty = RtBool)"
| "has_type tbe (RvS8 _) ty = (ty = RtS8)"
| "has_type tbe (RvU8 _) ty = (ty = RtU8)"
| "has_type tbe (RvUInt8 _) ty = (ty = RtUInt8)"
| "has_type tbe (RvU16 _) ty = (ty = RtU16)"
| "has_type tbe (RvUInt16 _) ty = (ty = RtUInt16)"
| "has_type tbe (RvS16 _) ty = (ty = RtS16)"
| "has_type tbe (RvBytes _) ty = (ty = RtBytes)"
| "has_type tbe (RvString s) ty = (ty = RtString \<and> utf8_valid (as_bytes s) \<and> 0 \<notin> set (as_bytes s))"
| "has_type tbe (RvVSigned v) ty = (ty = RtVSigned \<and> varint_fits tbe v)"
| "has_type tbe (RvVUnsigned v) ty = (ty = RtVUnsigned \<and> 0 \<le> v \<and> varint_fits tbe v)"
| "has_type tbe (RvEnum index) ty =
     (case ty of RtEnum names \<Rightarrow> index < length names \<and> \<not> exceeds_usize index | _ \<Rightarrow> False)"
| "has_type tbe (RvStruct vals) ty = (case ty of RtStruct types \<Rightarrow> has_types tbe vals types | _ \<Rightarrow> False)"
| "has_type tbe (RvArray vals) ty =
     (case ty of RtArray item_type \<Rightarrow> list_all (\<lambda>v. has_type tbe v item_type) vals | _ \<Rightarrow> False)"
| "has_types tbe [] tys = (tys = [])"
| "has_types tbe (v # vs) tys =
     (case tys of [] \<Rightarrow> False | ty # tys' \<Rightarrow> has_type tbe v ty \<and> has_types tbe vs tys')"

lemma varint_fits_usize: "be_bytes tbe \<Longrightarrow> \<not> exceeds_usize i \<Longrightarrow> varint_fits tbe (int i)"
  by (rule varint_fits_small) (auto simp: exceeds_usize_def)

lemma has_type_fits:
  shows "be_bytes tbe \<Longrightarrow> has_type tbe v ty \<Longrightarrow> fits_value tbe v"
    and "be_bytes tbe \<Longrightarrow> has_types tbe vs tys \<Longrightarrow> list_all (fits_value tbe) vs"
  by (induction tbe v ty and tbe vs tys rule: has_type_has_types.induct)
    (auto simp: varint_fits_usize list_all_iff split: RpcType.splits list.splits)

lemma varint_bytes_nonempty: "be_bytes tbe \<Longrightarrow> 0 < length (varint_bytes tbe sg v)"
  by (simp add: length_varint_bytes calc_pack_req_bytes_pos)

lemma enc_value_nonempty:
  shows "be_bytes tbe \<Longrightarrow> has_type tbe v ty \<Longrightarrow> takes_bytes ty \<Longrightarrow> delimited ty \<Longrightarrow> enc_value tbe v \<noteq> []"
    and "be_bytes tbe \<Longrightarrow> has_types tbe vs tys \<Longrightarrow> list_ex takes_bytes tys \<Longrightarrow> list_all delimited tys
      \<Longrightarrow> concat (map (enc_value tbe) vs) \<noteq> []"
proof (induction tbe v ty and tbe vs tys rule: has_type_has_types.induct)
qed (auto simp: varint_bytes_nonempty split: RpcType.splits list.splits simp flip: length_greater_0_conv)

text \<open>Reading a value of a type at any position.\<close>

definition reads_back :: "(int \<Rightarrow> bytes) \<Rightarrow> RpcType \<Rightarrow> bool" where
  "reads_back tbe ty \<longleftrightarrow>
     (\<forall>v n pre rest. has_type tbe v ty \<longrightarrow> (delimited ty \<or> rest = []) \<longrightarrow>
       length (pre @ enc_value tbe v @ rest) < n \<longrightarrow> \<not> exceeds_usize (length (pre @ enc_value tbe v @ rest)) \<longrightarrow>
       read_type n (reader_at pre (enc_value tbe v @ rest)) ty =
         Some (Ret (v, reader_at (pre @ enc_value tbe v) rest)))"

lemma reads_backD:
  "reads_back tbe ty \<Longrightarrow> has_type tbe v ty \<Longrightarrow> delimited ty \<or> rest = [] \<Longrightarrow>
    length (pre @ enc_value tbe v @ rest) < n \<Longrightarrow> \<not> exceeds_usize (length (pre @ enc_value tbe v @ rest)) \<Longrightarrow>
    read_type n (reader_at pre (enc_value tbe v @ rest)) ty = Some (Ret (v, reader_at (pre @ enc_value tbe v) rest))"
  unfolding reads_back_def by blast

lemma reads_backI:
  assumes "\<And>v n pre rest. has_type tbe v ty \<Longrightarrow> delimited ty \<or> rest = [] \<Longrightarrow>
    length (pre @ enc_value tbe v @ rest) < n \<Longrightarrow> \<not> exceeds_usize (length (pre @ enc_value tbe v @ rest)) \<Longrightarrow>
    read_type n (reader_at pre (enc_value tbe v @ rest)) ty = Some (Ret (v, reader_at (pre @ enc_value tbe v) rest))"
  shows "reads_back tbe ty"
  using assms unfolding reads_back_def by blast

lemma read_fields_back:
  "list_all (reads_back tbe) types \<Longrightarrow> has_types tbe vals types \<Longrightarrow> list_all delimited (butlast types) \<Longrightarrow>
    list_all delimited types \<or> rest = [] \<Longrightarrow>
    length (pre @ concat (map (enc_value tbe) vals) @ rest) < n \<Longrightarrow>
    \<not> exceeds_usize (length (pre @ concat (map (enc_value tbe) vals) @ rest)) \<Longrightarrow>
    read_fields n (reader_at pre (concat (map (enc_value tbe) vals) @ rest)) types acc =
      Some (Ret (RvStruct (acc @ vals), reader_at (pre @ concat (map (enc_value tbe) vals)) rest))"
proof (induction types arbitrary: vals pre acc)
  case Nil
  then show ?case by (cases vals) simp_all
next
  case (Cons ty types)
  from Cons.prems(2) obtain v vs where vals: "vals = v # vs" by (cases vals) simp_all
  let ?vs = "concat (map (enc_value tbe) vs)"
  have "delimited ty \<or> ?vs @ rest = []"
    using Cons.prems(2-4) by (cases types; cases vs) (auto simp: vals)
  then have "read_type n (reader_at pre (enc_value tbe v @ ?vs @ rest)) ty =
      Some (Ret (v, reader_at (pre @ enc_value tbe v) (?vs @ rest)))"
    using Cons.prems by (intro reads_backD) (auto simp: vals)
  moreover have "read_fields n (reader_at (pre @ enc_value tbe v) (?vs @ rest)) types (acc @ [v]) =
      Some (Ret (RvStruct ((acc @ [v]) @ vs), reader_at ((pre @ enc_value tbe v) @ ?vs) rest))"
    using Cons.prems by (intro Cons.IH) (auto simp: vals split: if_splits)
  ultimately show ?case by (simp add: vals)
qed

lemma read_items_back:
  assumes tbe: "be_bytes tbe" and ty: "reads_back tbe ty" "delimited ty" "takes_bytes ty"
  shows "list_all (\<lambda>v. has_type tbe v ty) vals \<Longrightarrow>
    length (pre @ concat (map (enc_value tbe) vals)) < n \<Longrightarrow>
    length (concat (map (enc_value tbe) vals)) < k \<Longrightarrow>
    \<not> exceeds_usize (length (pre @ concat (map (enc_value tbe) vals))) \<Longrightarrow>
    read_items n k (reader_at pre (concat (map (enc_value tbe) vals))) ty acc =
      Some (Ret (RvArray (acc @ vals), reader_at (pre @ concat (map (enc_value tbe) vals)) []))"
proof (induction vals arbitrary: pre acc k)
  case Nil
  then show ?case by (cases k) (simp_all add: has_unprocessed_bytes_def reader_at_def)
next
  case (Cons v vs)
  let ?vs = "concat (map (enc_value tbe) vs)"
  obtain k' where k: "k = Suc k'" using Cons.prems by (cases k) simp_all
  have "0 < length (enc_value tbe v)"
    using enc_value_nonempty(1) [OF tbe _ ty(3,2)] Cons.prems by simp
  moreover have "length (enc_value tbe v) + length ?vs < Suc k'" using Cons.prems(3) k by simp
  ultimately have "has_unprocessed_bytes (reader_at pre (enc_value tbe v @ ?vs))" "length ?vs < k'"
    by (simp_all add: has_unprocessed_bytes_def reader_at_def del: length_greater_0_conv length_concat) 
  moreover have "read_type n (reader_at pre (enc_value tbe v @ ?vs)) ty =
      Some (Ret (v, reader_at (pre @ enc_value tbe v) ?vs))"
    using Cons.prems ty by (intro reads_backD) auto
  moreover have "read_items n k' (reader_at (pre @ enc_value tbe v) ?vs) ty (acc @ [v]) =
      Some (Ret (RvArray ((acc @ [v]) @ vs), reader_at ((pre @ enc_value tbe v) @ ?vs) []))"
    using Cons.prems calculation(2) by (intro Cons.IH) auto
  ultimately show ?case by (simp add: k)
qed

lemma read_vint_at:
  assumes "be_bytes tbe"
  shows "read_vsint (reader_at pre (varint_bytes tbe True v @ rest)) = Inr (v, reader_at (pre @ varint_bytes tbe True v) rest)"
    "0 \<le> v \<Longrightarrow> read_vuint (reader_at pre (varint_bytes tbe True v @ rest)) = Inr (v, reader_at (pre @ varint_bytes tbe True v) rest)"
    "0 \<le> v \<Longrightarrow> read_vuint (reader_at pre (varint_bytes tbe False v @ rest)) = Inr (v, reader_at (pre @ varint_bytes tbe False v) rest)"
  using read_int_at [OF assms, of True v] read_int_at [OF assms, of False v] unpack_unsigned_of_signed [OF assms, of v]
  by (simp_all add: read_vsint_def read_vuint_def read_int_def reader_at_def)

lemma read_enum_at:
  "be_bytes tbe \<Longrightarrow> i < length names \<Longrightarrow> \<not> exceeds_usize i \<Longrightarrow>
    read_enum (reader_at pre (varint_bytes tbe False (int i) @ rest)) names =
      Ret (RvEnum i, reader_at (pre @ varint_bytes tbe False (int i)) rest)"
  by (simp add: read_enum_def read_vint_at)

lemma exceeds_usize_2: "\<not> exceeds_usize (Suc (Suc (m + n))) \<Longrightarrow> \<not> exceeds_usize (Suc (Suc m))"
  by (erule exceeds_usize_mono) simp

lemmas read_backs = read_ubyte_at read_sbyte_def read_u16_be_at read_i16_be_def read_blob_remain_at
  read_string_at read_vint_at read_enum_at exceeds_usize_2

lemma reads_back_base:
  assumes tbe: "be_bytes tbe" and ty: "\<And>ts. ty \<noteq> RtStruct ts" "\<And>t. ty \<noteq> RtArray t"
  shows "reads_back tbe ty"
proof (rule reads_backI)
  fix v n pre rest
  assume "has_type tbe v ty" "delimited ty \<or> rest = []"
    "\<not> exceeds_usize (length (pre @ enc_value tbe v @ rest))"
  then show "read_type n (reader_at pre (enc_value tbe v @ rest)) ty =
      Some (Ret (v, reader_at (pre @ enc_value tbe v) rest))"
    using tbe ty by (cases v) (auto simp: read_backs split: RpcType.splits)
qed

lemma reads_back_readable:
  assumes tbe: "be_bytes tbe"
  shows "readable ty \<Longrightarrow> reads_back tbe ty"
proof (induction ty)
  case (RtStruct types)
  then have fields: "list_all (reads_back tbe) types" by (auto simp: list_all_iff)
  show ?case
  proof (rule reads_backI)
    fix v n pre rest
    assume "has_type tbe v (RtStruct types)" and d: "delimited (RtStruct types) \<or> rest = []"
      and n: "length (pre @ enc_value tbe v @ rest) < n" "\<not> exceeds_usize (length (pre @ enc_value tbe v @ rest))"
    then obtain vals where v: "v = RvStruct vals" "has_types tbe vals types" by (cases v) auto
    show "read_type n (reader_at pre (enc_value tbe v @ rest)) (RtStruct types) =
        Some (Ret (v, reader_at (pre @ enc_value tbe v) rest))"
      using read_fields_back [OF fields v(2), of rest pre n "[]"] RtStruct.prems d n by (simp add: v(1))
  qed
next
  case (RtArray ty)
  show ?case
  proof (rule reads_backI)
    fix v n pre and rest :: bytes
    assume "has_type tbe v (RtArray ty)" and "delimited (RtArray ty) \<or> rest = []"
      and n: "length (pre @ enc_value tbe v @ rest) < n" "\<not> exceeds_usize (length (pre @ enc_value tbe v @ rest))"
    then obtain vals where v: "v = RvArray vals" "list_all (\<lambda>v. has_type tbe v ty) vals" and rest: "rest = []"
      by (cases v) auto
    show "read_type n (reader_at pre (enc_value tbe v @ rest)) (RtArray ty) =
        Some (Ret (v, reader_at (pre @ enc_value tbe v) rest))"
      using read_items_back [OF tbe _ _ _ v(2), of pre n n "[]"] RtArray n by (simp add: v(1) rest)
  qed
qed (simp_all add: reads_back_base [OF tbe])

lemma to_packet_eq:
  assumes tbe: "be_bytes tbe" and fits: "list_all (fits_value tbe) vals"
    and mem: "\<not> exceeds_usize (18 + length (concat (map (enc_value tbe) vals)))"
  shows "to_packet tbe to from vals =
    (let data = packet_bytes tbe from to (concat (map (enc_value tbe) vals)) in Inr (data @ [crc8 data]))"
proof -
  have "length (packet_bytes tbe from to []) \<le> 18"
    using length_varint_i32 [OF tbe, of True to] length_varint_i32 [OF tbe, of True "from"]
    by (simp add: packet_bytes_def)
  then have "\<not> exceeds_usize (length (packet_bytes tbe from to []) + length (concat (map (enc_value tbe) vals)))"
    using mem by (simp add: exceeds_usize_def)
  then show ?thesis
    using append_value_eq(2) [OF tbe fits, of "\<lparr>asm_buffer = packet_bytes tbe from to []\<rparr>"]
    by (simp add: to_packet_def write_addressing_new [OF tbe] Let_def) (simp add: packet_bytes_def)
qed

text \<open>A read by a type returns only values of the type.\<close>

fun returns :: "('a \<Rightarrow> bool) \<Rightarrow> ('e, 'a \<times> PacketReader) outcome option \<Rightarrow> bool" where
  "returns P (Some (Ret (v, r))) = P v"
| "returns P _ = True"

lemma returns_require: "(\<And>x. P (f x)) \<Longrightarrow> returns P (Some (require f rd))"
  by (cases "(f, rd)" rule: require.cases) auto

lemma read_string_utf8: "read_string r = Ret (s, r') \<Longrightarrow> utf8_valid (as_bytes s) \<and> 0 \<notin> set (as_bytes s)"
  by (auto simp: read_string_def Let_def from_utf8_def dest: set_takeWhileD split: if_splits)

lemma read_vint_fits:
  assumes "be_bytes tbe" and "length (reader_data r) < 4611686018427387904"
  shows "read_vsint r = Inr (v, r') \<Longrightarrow> varint_fits tbe v" 
    and "read_vuint r = Inr (v, r') \<Longrightarrow> 0 \<le> v \<and> varint_fits tbe v"
  using assms unpack_value_fits unpack_value_sign
  by (fastforce simp: read_vsint_def read_vuint_def read_int_def map_sum_def split: sum.splits prod.splits)+

lemma has_types_snoc: "has_types tbe vs tys \<Longrightarrow> has_type tbe v ty \<Longrightarrow> has_types tbe (vs @ [v]) (tys @ [ty])"
  by (induction vs arbitrary: tys) (auto split: list.splits)

lemma read_type_has_type:
  assumes tbe: "be_bytes tbe"
  shows "reader_ok r \<Longrightarrow> length (reader_data r) < 4611686018427387904 \<Longrightarrow> returns (\<lambda>v. has_type tbe v ty) (read_type n r ty)"
    and "reader_ok r \<Longrightarrow> length (reader_data r) < 4611686018427387904 \<Longrightarrow> has_types tbe vals before \<Longrightarrow>
      returns (\<lambda>v. has_type tbe v (RtStruct (before @ types))) (read_fields n r types vals)"
    and "reader_ok r \<Longrightarrow> length (reader_data r) < 4611686018427387904 \<Longrightarrow> list_all (\<lambda>v. has_type tbe v ty) vals \<Longrightarrow>
      returns (\<lambda>v. has_type tbe v (RtArray ty)) (read_items n k r ty vals)"
proof (induction n r ty and n r types vals and n k r ty vals arbitrary: and before
    rule: read_type_read_fields_read_items.induct)
  case (16 n r ty types vs)
  show ?case
  proof (cases "read_type n r ty" rule: read_result_cases)
    case (returned v r')
    then have "moved r (takes_bytes ty \<and> arrays_end ty) r'" using read_type_progress(1) [of r ty n] "16.prems" by simp
    moreover have "has_types tbe (vs @ [v]) (before @ [ty])"
      using 16 returned by (auto intro: has_types_snoc)
    ultimately show ?thesis using 16(2) [OF returned refl refl, of "before @ [ty]"] "16.prems" returned
      by (auto simp: moved_def)
  qed simp_all
next
  case (18 n k r ty vs)
  show ?case
  proof (cases "read_type n r ty" rule: read_result_cases)
    case (returned v r')
    then have "moved r (takes_bytes ty \<and> arrays_end ty) r'" using read_type_progress(1) [of r ty n] "18.prems" by simp
    then show ?thesis using 18 returned by (auto simp: moved_def)
  qed (use 18 in simp_all)
next
  case (8 n r)
  then show ?case by (cases "(RvBytes, read_blob_remain r)" rule: lift_parse.cases) auto
next
  case (9 n r)
  then show ?case using read_string_utf8 by (cases "(RvString, read_string r)" rule: lift_parse.cases) auto
next
  case (10 n r)
  then show ?case using read_vint_fits [OF tbe] by (cases "(RvVSigned, read_vsint r)" rule: lift_unpack.cases) auto
next
  case (11 n r)
  then show ?case using read_vint_fits [OF tbe] by (cases "(RvVUnsigned, read_vuint r)" rule: lift_unpack.cases) auto
next
  case (12 n r names)
  then show ?case by (auto simp: read_enum_def split: sum.splits)
qed (auto intro: returns_require simp: returns_require)

subsection \<open>Properties\<close>

text \<open>
  C11: Values written into a packet with \<^verbatim>\<open>to_packet\<close> are read back by their types: the packet
  parses to the same addresses, is valid, and \<^verbatim>\<open>read_type\<close> on its payload returns exactly the
  values and leaves no byte.
\<close>

theorem packet_values_are_read_back:
  assumes "be_bytes to_bytes_be" and "has_types to_bytes_be vals types" and "readable (RtStruct types)"
    and "\<not> exceeds_usize (18 + length (concat (map (enc_value to_bytes_be) vals)))"
  shows "\<exists>raw p r. to_packet to_bytes_be to from vals = Inr raw \<and> from_raw_packet_with_crc raw = Inr p
    \<and> pkt_from p = from \<and> pkt_to p = to \<and> fst (is_valid p)
    \<and> (\<forall>n. length (pkt_payload p) < n \<longrightarrow>
         read_type n (read_payload p) (RtStruct types) = Some (Ret (RvStruct vals, r)))
    \<and> \<not> has_unprocessed_bytes r"
proof -
  define payload where "payload = concat (map (enc_value to_bytes_be) vals)"
  define data where "data = packet_bytes to_bytes_be from to payload"
  have "to_packet to_bytes_be to from vals = Inr (data @ [crc8 data])"
    using to_packet_eq [OF assms(1) has_type_fits(2) [OF assms(1,2)] assms(4)]
    by (simp add: data_def payload_def Let_def)
  moreover obtain p where p: "packet_new data = Inr p" "pkt_from p = from" "pkt_to p = to" "pkt_payload p = payload"
    using packet_new_packet_bytes [OF assms(1), of "from" to payload] by (simp add: data_def)
  moreover have "from_raw_packet_with_crc (data @ [crc8 data]) = Inr (p\<lparr>pkt_crc8 := Some (crc8 data)\<rparr>)"
    using p(1) by (simp add: from_raw_packet_with_crc_snoc)
  moreover have "fst (is_valid (p\<lparr>pkt_crc8 := Some (crc8 data)\<rparr>))"
    using p(1) by (simp add: is_valid_new)
  moreover have "\<not> exceeds_usize (length payload)"
    using assms(4) unfolding payload_def by (rule exceeds_usize_mono) simp
  then have "read_type n (read_payload (p\<lparr>pkt_crc8 := Some (crc8 data)\<rparr>)) (RtStruct types) =
      Some (Ret (RvStruct vals, reader_at payload []))" if "length payload < n" for n
    using that reads_backD [OF reads_back_readable [OF assms(1,3)], of "RvStruct vals" "[]" "[]" n] assms(2) p(4)
    by (simp add: read_payload_def reader_new_at payload_def)
  ultimately show ?thesis
    by (intro exI [of _ "data @ [crc8 data]"] exI [of _ "p\<lparr>pkt_crc8 := Some (crc8 data)\<rparr>"]
        exI [of _ "reader_at payload []"]) (auto simp: has_unprocessed_bytes_def reader_at_def)
qed

theorem packet_values_are_read_back_witness:
  "\<exists>raw p r. to_packet be_digits 5 63 [RvU8 1, RvVUnsigned 300, RvArray [RvS16 (- 2), RvS16 7]] = Inr raw
    \<and> from_raw_packet_with_crc raw = Inr p
    \<and> pkt_from p = 63 \<and> pkt_to p = 5 \<and> fst (is_valid p)
    \<and> (\<forall>n. length (pkt_payload p) < n \<longrightarrow>
         read_type n (read_payload p) (RtStruct [RtU8, RtVUnsigned, RtArray RtS16]) =
           Some (Ret (RvStruct [RvU8 1, RvVUnsigned 300, RvArray [RvS16 (- 2), RvS16 7]], r)))
    \<and> \<not> has_unprocessed_bytes r"
proof (rule packet_values_are_read_back [OF be_bytes_be_digits])
  have "varint_fits be_digits 300" by code_simp
  then show "has_types be_digits [RvU8 1, RvVUnsigned 300, RvArray [RvS16 (- 2), RvS16 7]] [RtU8, RtVUnsigned, RtArray RtS16]"
    by simp
  show "readable (RtStruct [RtU8, RtVUnsigned, RtArray RtS16])" by simp
  show "\<not> exceeds_usize (18 + length (concat (map (enc_value be_digits) [RvU8 1, RvVUnsigned 300, RvArray [RvS16 (- 2), RvS16 7]])))"
    by code_simp
qed

text \<open>
  C12: Reading a type in which no array has items without bytes always ends, within one turn more
  than there are bytes, with a value or an error but never with a panic, and the reader stays inside
  its data.
\<close>

theorem read_type_ends:
  assumes "arrays_end ty" and "reader_ep r \<le> length (reader_data r)" and "length (reader_data r) < n"
  shows "(\<exists>e. read_type n r ty = Some (Fail e)) \<or>
    (\<exists>v r'. read_type n r ty = Some (Ret (v, r')) \<and> reader_data r' = reader_data r
       \<and> reader_ep r \<le> reader_ep r' \<and> reader_ep r' \<le> length (reader_data r'))"
proof -
  have ok: "reader_ok r" using assms(2) by (simp add: reader_ok_def)
  then show ?thesis
    using read_type_progress(1) [OF ok, of ty n] read_type_total(1) [OF assms(1) ok assms(3)]
    by (cases "read_type n r ty" rule: read_result_cases) (auto simp: reader_ok_def moved_def)
qed

theorem read_type_ends_witness:
  "(\<exists>e. read_type 4 (reader_new [1, 2, 3]) (RtArray RtU16) = Some (Fail e)) \<or>
    (\<exists>v r'. read_type 4 (reader_new [1, 2, 3]) (RtArray RtU16) = Some (Ret (v, r'))
       \<and> reader_data r' = reader_data (reader_new [1, 2, 3])
       \<and> reader_ep (reader_new [1, 2, 3]) \<le> reader_ep r' \<and> reader_ep r' \<le> length (reader_data r'))"
  by (rule read_type_ends) (simp_all add: reader_new_def)

text \<open>
  C13: An array of items that take no bytes is never read to its end when there are bytes: no number
  of turns is enough.
\<close>

theorem array_of_empty_items_never_ends:
  assumes "has_unprocessed_bytes r" and "\<And>n. read_type n r ty = Some (Ret (v, r))"
  shows "read_type n r (RtArray ty) = None"
proof -
  have "read_items m k r ty vals = None" for m k vals
    using assms by (induction k arbitrary: vals) simp_all
  then show ?thesis by simp
qed

theorem array_of_empty_items_never_ends_witness:
  "\<forall>n. read_type n (reader_new [1]) (RtArray (RtStruct [])) = None"
  using array_of_empty_items_never_ends [of "reader_new [1]" "RtStruct []" "RvStruct []"]
  by (simp add: has_unprocessed_bytes_def reader_new_def)

text \<open>
  C30: A value read by a type is a value of the type: strings are UTF-8 without a zero, unsigned
  numbers are not negative, enum indexes name a value, structures have the fields and arrays the items
  of their types.  So it can be written again.
\<close>

theorem read_value_has_its_type:
  assumes "be_bytes to_bytes_be" and "reader_ep r \<le> length (reader_data r)" and "length (reader_data r) < 4611686018427387904"
    and "read_type n r ty = Some (Ret (v, r'))" and "\<not> exceeds_usize (length (asm_buffer a) + length (enc_value to_bytes_be v))"
  shows "has_type to_bytes_be v ty \<and> (\<exists>a'. append_value to_bytes_be v a = Inr a')"
  using read_type_has_type(1) [OF assms(1), of r ty n] assms
  using append_value_eq(1) [OF assms(1) has_type_fits(1) [OF assms(1)]]
  by (auto simp: reader_ok_def)

theorem read_value_has_its_type_witness:
  "has_type be_digits (RvArray [RvVUnsigned 300]) (RtArray RtVUnsigned) \<and>
    (\<exists>a'. append_value be_digits (RvArray [RvVUnsigned 300]) asm_new = Inr a')"
proof (rule read_value_has_its_type [OF be_bytes_be_digits])
  show "read_type 3 (reader_new [130, 44]) (RtArray RtVUnsigned) =
     Some (Ret (RvArray [RvVUnsigned 300], \<lparr>reader_data = [130, 44], reader_ep = 2\<rparr>))" by code_simp
qed (simp_all add: reader_new_def, code_simp)

end
