(* ===== verification/Bus.thy ===== *)
theory Bus
  imports Rpc_Values
begin

text \<open>
  The client view of the bus, \<^verbatim>\<open>rpc/bus.rs\<close>: requests are registered, received packets are paired
  with the waiting requests, and everything else goes to the listeners.

  A \<^verbatim>\<open>TransactionState\<close> is shared by the list of pending requests and the handle the caller holds; here
  \<open>bus_transactions\<close> is the store of all of them, and a handle or a pending request is an index into it
  (so \<^verbatim>\<open>Arc::ptr_eq\<close> is equality of indexes).  Calling a listener or writing the log is an event.  The
  stream thread feeds received packets to \<^verbatim>\<open>process_packet\<close> while a request is sent or waited for:
  these packets are arguments of \<open>new_transaction\<close> (\<open>meanwhile\<close>) and \<open>wait_response\<close> (\<open>arrivals\<close>, the
  packets up to the answer or the timeout).
\<close>

subsection \<open>Definitions\<close>

record TransactionState =
  ts_to :: i32
  ts_from :: i32
  ts_path :: bytes
  ts_zero_namespace_answer :: bool
  ts_response :: "bytes option"

definition try_accept_response :: "ParsedUartBusPacket \<Rightarrow> TransactionState \<Rightarrow> bool \<times> TransactionState" where
  "try_accept_response packet t =
     (if pkt_to packet \<noteq> ts_from t \<or> pkt_from packet \<noteq> ts_to t then (False, t)
      else
        let diff = (if ts_zero_namespace_answer t then 1 else 0)
        in if length (pkt_payload packet) < length (ts_path t) + diff then (False, t)
           else if ts_zero_namespace_answer t \<and> pkt_payload packet ! 0 \<noteq> 0 then (False, t)
           else if take (length (ts_path t)) (drop diff (pkt_payload packet)) \<noteq> ts_path t then (False, t)
           else (True, t\<lparr>ts_response := Some (pkt_payload packet)\<rparr>))"

record UartBus =
  bus_from_address :: i32
  bus_transactions :: "TransactionState list"
  pending_requests :: "nat list"
  next_listener_id :: u64
  unrelated_packets :: "u64 list"
  invalid_packets :: "u64 list"

datatype BusEvent =
    Unrelated u64 bytes
  | Invalid u64 bytes
  | BusLog string

definition bus_new :: "i32 \<Rightarrow> UartBus" where
  "bus_new from_address =
     \<lparr>bus_from_address = from_address, bus_transactions = [], pending_requests = [],
      next_listener_id = 0, unrelated_packets = [], invalid_packets = []\<rparr>"

definition add_unrelated_packet_listener :: "UartBus \<Rightarrow> u64 \<times> UartBus" where
  "add_unrelated_packet_listener b =
     (next_listener_id b,
      b\<lparr>next_listener_id := next_listener_id b + 1,
        unrelated_packets := unrelated_packets b @ [next_listener_id b]\<rparr>)"

definition remove_unrelated_packet_listener :: "u64 \<Rightarrow> UartBus \<Rightarrow> UartBus" where
  "remove_unrelated_packet_listener lid b =
     b\<lparr>unrelated_packets := filter (\<lambda>l. l \<noteq> lid) (unrelated_packets b)\<rparr>"

definition add_invalid_packet_listener :: "UartBus \<Rightarrow> u64 \<times> UartBus" where
  "add_invalid_packet_listener b =
     (next_listener_id b,
      b\<lparr>next_listener_id := next_listener_id b + 1,
        invalid_packets := invalid_packets b @ [next_listener_id b]\<rparr>)"

text \<open>\<^verbatim>\<open>position\<close> over the pending requests: the first one that accepts, which keeps the response.\<close>

fun accept_first ::
  "ParsedUartBusPacket \<Rightarrow> nat list \<Rightarrow> TransactionState list \<Rightarrow> nat option \<times> TransactionState list" where
  "accept_first packet [] ts = (None, ts)"
| "accept_first packet (i # is) ts =
     (let (accepted, t) = try_accept_response packet (ts ! i)
      in if accepted then (Some 0, ts[i := t])
         else (let (index, ts') = accept_first packet is ts in (map_option Suc index, ts')))"

definition remove_at :: "nat \<Rightarrow> 'a list \<Rightarrow> 'a list" where
  "remove_at i xs = take i xs @ drop (Suc i) xs"

definition process_packet :: "bytes \<Rightarrow> UartBus \<Rightarrow> UartBus \<times> BusEvent list" where
  "process_packet packet b =
     (case get_valid_packet packet of
        None \<Rightarrow> (b, map (\<lambda>l. Invalid l packet) (invalid_packets b))
      | Some data \<Rightarrow>
          (case packet_new data of
             Inl err \<Rightarrow> (b, [BusLog (''Exception while parsing packet: '' @ parse_error_text err)])
           | Inr parsed \<Rightarrow>
               (case accept_first parsed (pending_requests b) (bus_transactions b) of
                  (Some index, ts) \<Rightarrow>
                    (b\<lparr>bus_transactions := ts, pending_requests := remove_at index (pending_requests b)\<rparr>, [])
                | (None, _) \<Rightarrow> (b, map (\<lambda>l. Unrelated l (raw_packet parsed)) (unrelated_packets b)))))"

fun process_packets :: "bytes list \<Rightarrow> UartBus \<Rightarrow> UartBus \<times> BusEvent list" where
  "process_packets [] b = (b, [])"
| "process_packets (p # ps) b =
     (let (b', es) = process_packet p b; (b'', es') = process_packets ps b' in (b'', es @ es'))"

definition revoke_pending_request :: "nat \<Rightarrow> UartBus \<Rightarrow> UartBus" where
  "revoke_pending_request t b = b\<lparr>pending_requests := filter (\<lambda>i. i \<noteq> t) (pending_requests b)\<rparr>"

definition register :: "i32 \<Rightarrow> i32 \<Rightarrow> bytes \<Rightarrow> bool \<Rightarrow> UartBus \<Rightarrow> nat \<times> UartBus" where
  "register from to path zero_namespace_answer b =
     (let t = length (bus_transactions b)
      in (t, b\<lparr>bus_transactions := bus_transactions b @
               [\<lparr>ts_to = to, ts_from = from, ts_path = path,
                 ts_zero_namespace_answer = zero_namespace_answer, ts_response = None\<rparr>],
             pending_requests := pending_requests b @ [t]\<rparr>))"

definition subscribe_response :: "i32 \<Rightarrow> i32 \<Rightarrow> bytes \<Rightarrow> bool \<Rightarrow> UartBus \<Rightarrow> nat \<times> UartBus" where
  "subscribe_response from to path zero_namespace b = register from to path zero_namespace b"

text \<open>
  The result of \<^verbatim>\<open>send_packet\<close> of the connection is \<open>send_result\<close>; when it is an error the handle is
  dropped, which revokes the request.  Besides the result the function returns the packets it sent.
\<close>

definition new_transaction ::
  "(int \<Rightarrow> bytes) \<Rightarrow> string option \<Rightarrow> bytes list \<Rightarrow> i32 \<Rightarrow> bytes \<Rightarrow> bytes \<Rightarrow> bool \<Rightarrow> UartBus
    \<Rightarrow> (string + nat) \<times> bytes list \<times> UartBus \<times> BusEvent list" where
  "new_transaction to_bytes_be send_result meanwhile to path payload zero_namespace_answer b =
     (case to_packet to_bytes_be to (bus_from_address b) [RvBytes payload] of
        Inl e \<Rightarrow> (Inl (pack_error_text e), [], b, [])
      | Inr packet \<Rightarrow>
          let (t, b) = register (bus_from_address b) to path zero_namespace_answer b;
              (b, es) = process_packets meanwhile b
          in (case send_result of
                Some e \<Rightarrow> (Inl e, [packet], revoke_pending_request t b, es)
              | None \<Rightarrow> (Inr t, [packet], b, es)))"

definition is_responsed :: "nat \<Rightarrow> UartBus \<Rightarrow> bool" where
  "is_responsed t b \<longleftrightarrow> ts_response (bus_transactions b ! t) \<noteq> None"

definition wait_response ::
  "bytes list \<Rightarrow> nat \<Rightarrow> UartBus \<Rightarrow> bytes option \<times> UartBus \<times> BusEvent list" where
  "wait_response arrivals t b =
     (case ts_response (bus_transactions b ! t) of
        Some payload \<Rightarrow> (Some payload, b, [])
      | None \<Rightarrow>
          let (b', es) = process_packets arrivals b
          in (ts_response (bus_transactions b' ! t), b', es))"

definition ensure_response ::
  "bytes list \<Rightarrow> nat \<Rightarrow> string option \<Rightarrow> nat \<Rightarrow> UartBus \<Rightarrow> (string + bytes) \<times> UartBus \<times> BusEvent list" where
  "ensure_response arrivals timeout_ms err_append_msg t b =
     (case wait_response arrivals t b of
        (Some payload, b', es) \<Rightarrow> (Inr payload, b', es)
      | (None, b', es) \<Rightarrow>
          (Inl (''Device (`'' @ show_int (sint (ts_to (bus_transactions b ! t))) @ ''`) not responded within ''
                @ show_nat timeout_ms @ '' MILLISECONDS for the request''
                @ (case err_append_msg of None \<Rightarrow> [] | Some msg \<Rightarrow> '': '' @ msg)), b', es))"

text \<open>Dropping the handle.\<close>

definition drop_transaction :: "nat \<Rightarrow> UartBus \<Rightarrow> UartBus" where
  "drop_transaction t b = revoke_pending_request t b"

subsection \<open>Pairing\<close>

text \<open>What makes a packet the answer of a request.\<close>

definition answers :: "ParsedUartBusPacket \<Rightarrow> TransactionState \<Rightarrow> bool" where
  "answers p t \<longleftrightarrow> pkt_to p = ts_from t \<and> pkt_from p = ts_to t \<and>
     (\<exists>vals. pkt_payload p = (if ts_zero_namespace_answer t then [0] else []) @ ts_path t @ vals)"

lemma starts_with_iff: "length p \<le> length xs \<and> take (length p) xs = p \<longleftrightarrow> (\<exists>ys. xs = p @ ys)"
  by (metis append_eq_conv_conj append_take_drop_id length_append le_add1)

lemma try_accept_response_eq:
  "try_accept_response p t = (answers p t, if answers p t then t\<lparr>ts_response := Some (pkt_payload p)\<rparr> else t)"
proof (cases "ts_zero_namespace_answer t")
  case True
  have "(\<exists>vals. pkt_payload p = 0 # ts_path t @ vals) \<longleftrightarrow>
      length (ts_path t) < length (pkt_payload p) \<and> pkt_payload p ! 0 = 0
        \<and> take (length (ts_path t)) (drop 1 (pkt_payload p)) = ts_path t"
    using starts_with_iff [of "ts_path t" "tl (pkt_payload p)"] by (cases "pkt_payload p") auto
  then show ?thesis using True by (auto simp: try_accept_response_def answers_def Let_def not_less)
next
  case False
  then show ?thesis
    using starts_with_iff [of "ts_path t" "pkt_payload p"]
    by (auto simp: try_accept_response_def answers_def Let_def not_less)
qed

lemma accept_first_Some:
  "accept_first p is ts = (Some k, ts') \<Longrightarrow>
    k < length is \<and> answers p (ts ! (is ! k)) \<and> (\<forall>j<k. \<not> answers p (ts ! (is ! j)))
      \<and> ts' = ts[is ! k := (ts ! (is ! k))\<lparr>ts_response := Some (pkt_payload p)\<rparr>]"
proof (induction "is" arbitrary: k)
  case (Cons i "is")
  show ?case
  proof (cases "answers p (ts ! i)")
    case True
    with Cons.prems show ?thesis by (auto simp: try_accept_response_eq)
  next
    case False
    with Cons.prems obtain k' where k: "k = Suc k'" "accept_first p is ts = (Some k', ts')"
      by (auto simp: try_accept_response_eq split: prod.splits)
    then show ?thesis using Cons.IH [OF k(2)] False by (auto simp: less_Suc_eq_0_disj)
  qed
qed simp

lemma accept_first_None:
  "accept_first p is ts = (None, ts') \<Longrightarrow> \<forall>i\<in>set is. \<not> answers p (ts ! i)"
proof (induction "is")
  case (Cons i "is")
  then show ?case
    by (cases "answers p (ts ! i)") (auto simp: try_accept_response_eq split: prod.splits)
qed simp

lemma accept_first_exists:
  assumes "\<exists>i\<in>set is. answers p (ts ! i)"
  shows "\<exists>k ts'. accept_first p is ts = (Some k, ts')"
  using accept_first_None [of p "is" ts] assms by (cases "accept_first p is ts"; cases "fst (accept_first p is ts)") auto

subsection \<open>The invariant of the pending requests\<close>

definition bus_inv :: "UartBus \<Rightarrow> bool" where
  "bus_inv b \<longleftrightarrow> distinct (pending_requests b) \<and>
     (\<forall>i\<in>set (pending_requests b).
        i < length (bus_transactions b) \<and> ts_response (bus_transactions b ! i) = None)"

inductive bus_step :: "UartBus \<Rightarrow> UartBus \<Rightarrow> bool" where
  step_process: "process_packet packet b = (b', es) \<Longrightarrow> bus_step b b'"
| step_register: "register from to path zero b = (t, b') \<Longrightarrow> bus_step b b'"
| step_revoke: "revoke_pending_request t b = b' \<Longrightarrow> bus_step b b'"
| step_add_unrelated: "add_unrelated_packet_listener b = (l, b') \<Longrightarrow> bus_step b b'"
| step_remove_unrelated: "remove_unrelated_packet_listener l b = b' \<Longrightarrow> bus_step b b'"
| step_add_invalid: "add_invalid_packet_listener b = (l, b') \<Longrightarrow> bus_step b b'"

lemma remove_at_Cons [simp]: "remove_at 0 (x # xs) = xs" "remove_at (Suc i) (x # xs) = x # remove_at i xs"
  by (simp_all add: remove_at_def)

lemma set_remove_at: "distinct xs \<Longrightarrow> i < length xs \<Longrightarrow> set (remove_at i xs) = set xs - {xs ! i}"
proof (induction xs arbitrary: i)
  case (Cons x xs)
  then show ?case by (cases i) auto
qed simp

lemma distinct_remove_at: "distinct xs \<Longrightarrow> i < length xs \<Longrightarrow> distinct (remove_at i xs)"
proof (induction xs arbitrary: i)
  case (Cons x xs)
  then show ?case by (cases i) (auto simp: set_remove_at)
qed simp

text \<open>What processing a packet does, by cases.\<close>

lemma process_packet_cases:
  assumes "process_packet packet b = (b', es)"
  obtains (invalid) "get_valid_packet packet = None" "b' = b" "es = map (\<lambda>l. Invalid l packet) (invalid_packets b)"
  | (unparsable) data err where "get_valid_packet packet = Some data" "packet_new data = Inl err" "b' = b"
      "es = [BusLog (''Exception while parsing packet: '' @ parse_error_text err)]"
  | (answer) data p k where "get_valid_packet packet = Some data" "packet_new data = Inr p"
      "k < length (pending_requests b)"
      "answers p (bus_transactions b ! (pending_requests b ! k))"
      "\<forall>j<k. \<not> answers p (bus_transactions b ! (pending_requests b ! j))"
      "b' = b\<lparr>bus_transactions := (bus_transactions b)[pending_requests b ! k :=
                (bus_transactions b ! (pending_requests b ! k))\<lparr>ts_response := Some (pkt_payload p)\<rparr>],
              pending_requests := remove_at k (pending_requests b)\<rparr>" "es = []"
  | (unrelated) data p where "get_valid_packet packet = Some data" "packet_new data = Inr p"
      "\<forall>i\<in>set (pending_requests b). \<not> answers p (bus_transactions b ! i)" "b' = b"
      "es = map (\<lambda>l. Unrelated l (raw_packet p)) (unrelated_packets b)"
proof (cases "get_valid_packet packet")
  case None
  then show ?thesis using assms by (intro that(1)) (auto simp: process_packet_def)
next
  case (Some data)
  show ?thesis
  proof (cases "packet_new data")
    case (Inl err)
    then show ?thesis using assms Some by (intro that(2)) (auto simp: process_packet_def)
  next
    case (Inr p)
    obtain r ts where a: "accept_first p (pending_requests b) (bus_transactions b) = (r, ts)" by force
    show ?thesis
    proof (cases r)
      case None
      with a have "\<forall>i\<in>set (pending_requests b). \<not> answers p (bus_transactions b ! i)"
        using accept_first_None by blast
      then show ?thesis using assms Some Inr None a by (intro that(4)) (auto simp: process_packet_def)
    next
      case (Some k)
      with a have "accept_first p (pending_requests b) (bus_transactions b) = (Some k, ts)" by simp
      from accept_first_Some [OF this] show ?thesis
        using assms \<open>get_valid_packet packet = Some data\<close> Inr Some a
        by (intro that(3) [of data p k]) (auto simp: process_packet_def)
    qed
  qed
qed

lemma bus_step_inv: "bus_step b b' \<Longrightarrow> bus_inv b \<Longrightarrow> bus_inv b'"
proof (induction rule: bus_step.induct)
  case (step_process packet b b' es)
  from step_process(1) show ?case
  proof (cases rule: process_packet_cases)
    case (answer data p k)
    then show ?thesis
      using step_process(2) by (auto simp: bus_inv_def set_remove_at distinct_remove_at nth_list_update)
  qed (use step_process in simp_all)
qed (auto simp: bus_inv_def register_def revoke_pending_request_def add_unrelated_packet_listener_def
    remove_unrelated_packet_listener_def add_invalid_packet_listener_def Let_def nth_append)

lemma bus_steps_inv: "bus_step\<^sup>*\<^sup>* b b' \<Longrightarrow> bus_inv b \<Longrightarrow> bus_inv b'"
  by (induction rule: rtranclp_induct) (auto intro: bus_step_inv)

text \<open>The store only grows, and an answered request keeps its answer.\<close>

lemma bus_step_keeps:
  "bus_step b b' \<Longrightarrow> bus_inv b \<Longrightarrow> i < length (bus_transactions b) \<Longrightarrow>
    i < length (bus_transactions b') \<and>
    (ts_response (bus_transactions b ! i) = Some r \<longrightarrow> bus_transactions b' ! i = bus_transactions b ! i)"
proof (induction rule: bus_step.induct)
  case (step_process packet b b' es)
  from step_process(1) show ?case
  proof (cases rule: process_packet_cases)
    case (answer data p k)
    then have "ts_response (bus_transactions b ! (pending_requests b ! k)) = None"
      using step_process(2) by (auto simp: bus_inv_def)
    then show ?thesis
      using answer step_process(3) by (cases "pending_requests b ! k = i") auto
  qed (use step_process in simp_all)
qed (auto simp: register_def revoke_pending_request_def add_unrelated_packet_listener_def
    remove_unrelated_packet_listener_def add_invalid_packet_listener_def Let_def nth_append)

lemma bus_steps_keep:
  "bus_step\<^sup>*\<^sup>* b b' \<Longrightarrow> bus_inv b \<Longrightarrow> i < length (bus_transactions b) \<Longrightarrow>
    ts_response (bus_transactions b ! i) = Some r \<Longrightarrow>
    i < length (bus_transactions b') \<and> bus_transactions b' ! i = bus_transactions b ! i"
proof (induction rule: rtranclp_induct)
  case (step b' b'')
  then show ?case using bus_step_keeps [OF step(2) bus_steps_inv [OF step(1)], of i r] by simp
qed simp

lemma process_packets_steps: "process_packets ps b = (b', es) \<Longrightarrow> bus_step\<^sup>*\<^sup>* b b'"
  by (induction ps arbitrary: b es)
    (auto split: prod.splits intro: converse_rtranclp_into_rtranclp step_process)

lemma new_transaction_steps:
  "new_transaction tbe res mw to path payload zero b = (r, sent, b', es) \<Longrightarrow> bus_step\<^sup>*\<^sup>* b b'"
proof (cases "to_packet tbe to (bus_from_address b) [RvBytes payload]")
  case (Inr packet)
  assume nt: "new_transaction tbe res mw to path payload zero b = (r, sent, b', es)"
  obtain t b1 where r1: "register (bus_from_address b) to path zero b = (t, b1)" by force
  obtain b2 es2 where r2: "process_packets mw b1 = (b2, es2)" by force
  have "bus_step\<^sup>*\<^sup>* b b2"
    using step_register [OF r1] process_packets_steps [OF r2] by (rule converse_rtranclp_into_rtranclp)
  moreover have "b' = b2 \<or> b' = revoke_pending_request t b2"
    using nt Inr r1 r2 by (auto simp: new_transaction_def split: option.splits)
  ultimately show ?thesis
    using step_revoke [OF refl, of b2 t] by (auto intro: rtranclp.rtrancl_into_rtrancl)
qed (simp add: new_transaction_def)

lemma bus_inv_new: "bus_inv (bus_new from)"
  by (simp add: bus_inv_def bus_new_def)

text \<open>The states of a bus with the packets it has been given so far.\<close>

inductive bus_history :: "i32 \<Rightarrow> bytes list \<Rightarrow> UartBus \<Rightarrow> bool" where
  history_new: "bus_history a [] (bus_new a)"
| history_packet: "bus_history a ps b \<Longrightarrow> process_packet packet b = (b', es) \<Longrightarrow> bus_history a (ps @ [packet]) b'"
| history_register: "bus_history a ps b \<Longrightarrow> register from to path zero b = (t, b') \<Longrightarrow> bus_history a ps b'"
| history_revoke: "bus_history a ps b \<Longrightarrow> revoke_pending_request t b = b' \<Longrightarrow> bus_history a ps b'"
| history_add_unrelated: "bus_history a ps b \<Longrightarrow> add_unrelated_packet_listener b = (l, b') \<Longrightarrow> bus_history a ps b'"
| history_remove_unrelated: "bus_history a ps b \<Longrightarrow> remove_unrelated_packet_listener l b = b' \<Longrightarrow> bus_history a ps b'"
| history_add_invalid: "bus_history a ps b \<Longrightarrow> add_invalid_packet_listener b = (l, b') \<Longrightarrow> bus_history a ps b'"

lemma bus_history_steps: "bus_history a ps b \<Longrightarrow> bus_step\<^sup>*\<^sup>* (bus_new a) b"
  by (induction rule: bus_history.induct)
    (blast intro: rtranclp.intros bus_step.intros)+

lemma bus_step_history: "bus_step b b' \<Longrightarrow> bus_history a ps b \<Longrightarrow> \<exists>ps'. bus_history a ps' b'"
  by (induction rule: bus_step.induct) (blast intro: bus_history.intros)+

lemma bus_steps_history: "bus_step\<^sup>*\<^sup>* (bus_new a) b \<Longrightarrow> \<exists>ps. bus_history a ps b"
  by (induction rule: rtranclp_induct) (blast intro: history_new bus_step_history)+

text \<open>A response is the payload of a packet that was heard and that its own request accepts.\<close>

definition responses_heard :: "bytes list \<Rightarrow> UartBus \<Rightarrow> bool" where
  "responses_heard ps b \<longleftrightarrow> (\<forall>t<length (bus_transactions b). \<forall>payload.
     ts_response (bus_transactions b ! t) = Some payload \<longrightarrow>
       (\<exists>data p. data @ [crc8 data] \<in> set ps \<and> packet_new data = Inr p \<and> pkt_payload p = payload
          \<and> answers p (bus_transactions b ! t)))"

lemma responses_heardD:
  "responses_heard ps b \<Longrightarrow> t < length (bus_transactions b) \<Longrightarrow> ts_response (bus_transactions b ! t) = Some payload \<Longrightarrow>
    \<exists>data p. data @ [crc8 data] \<in> set ps \<and> packet_new data = Inr p \<and> pkt_payload p = payload
          \<and> answers p (bus_transactions b ! t)"
  unfolding responses_heard_def by blast

lemma responses_heard_process:
  assumes "process_packet packet b = (b', es)" and heard: "responses_heard ps b"
  shows "responses_heard (ps @ [packet]) b'"
  using assms(1)
proof (cases rule: process_packet_cases)
  case (answer data p k)
  have packet: "packet = data @ [crc8 data]"
    using answer(1) by (simp add: get_valid_packet_strips_exactly_the_crc)
  show ?thesis
    unfolding responses_heard_def
  proof (intro allI impI)
    fix t payload
    assume t: "t < length (bus_transactions b')" "ts_response (bus_transactions b' ! t) = Some payload"
    show "\<exists>data p. data @ [crc8 data] \<in> set (ps @ [packet]) \<and> packet_new data = Inr p
        \<and> pkt_payload p = payload \<and> answers p (bus_transactions b' ! t)"
    proof (cases "t = pending_requests b ! k")
      case True
      then have "payload = pkt_payload p" "answers p (bus_transactions b' ! t)"
        using t answer(4) unfolding answer(6) by (auto simp: answers_def)
      then show ?thesis using packet answer(2) by auto
    next
      case False
      then show ?thesis using t responses_heardD [OF heard, of t payload] unfolding answer(6) by auto
    qed
  qed
qed (use heard in \<open>force simp: responses_heard_def\<close>)+

lemma bus_history_heard: "bus_history a ps b \<Longrightarrow> responses_heard ps b"
proof (induction rule: bus_history.induct)
  case (history_packet a ps b packet b' es)
  then show ?case by (blast intro: responses_heard_process)
qed (auto simp: responses_heard_def bus_new_def register_def revoke_pending_request_def
    add_unrelated_packet_listener_def remove_unrelated_packet_listener_def
    add_invalid_packet_listener_def Let_def nth_append less_Suc_eq)

subsection \<open>Properties\<close>

text \<open>
  C14: Through every sequence of operations of the bus the pending requests are different
  registered requests without an answer, and every response that a request has got is the payload of
  a valid packet that was heard, that goes from the device asked to the address the request was sent
  from, and that starts with the path the request waits for (behind a zero byte, if it waits for one).
\<close>

theorem pending_requests_are_unanswered:
  assumes "bus_history from_address ps b"
  shows "distinct (pending_requests b) \<and>
    (\<forall>i\<in>set (pending_requests b).
       i < length (bus_transactions b) \<and> ts_response (bus_transactions b ! i) = None) \<and>
    (\<forall>t<length (bus_transactions b). \<forall>payload.
       ts_response (bus_transactions b ! t) = Some payload \<longrightarrow>
       (\<exists>data p vals. data @ [crc8 data] \<in> set ps \<and> packet_new data = Inr p \<and> pkt_payload p = payload
          \<and> pkt_from p = ts_to (bus_transactions b ! t) \<and> pkt_to p = ts_from (bus_transactions b ! t)
          \<and> payload = (if ts_zero_namespace_answer (bus_transactions b ! t) then [0] else [])
              @ ts_path (bus_transactions b ! t) @ vals))"
proof -
  have "bus_inv b" using bus_steps_inv [OF bus_history_steps [OF assms] bus_inv_new] .
  moreover have "\<exists>data p vals. data @ [crc8 data] \<in> set ps \<and> packet_new data = Inr p \<and> pkt_payload p = payload
      \<and> pkt_from p = ts_to (bus_transactions b ! t) \<and> pkt_to p = ts_from (bus_transactions b ! t)
      \<and> payload = (if ts_zero_namespace_answer (bus_transactions b ! t) then [0] else [])
          @ ts_path (bus_transactions b ! t) @ vals"
    if "t < length (bus_transactions b)" "ts_response (bus_transactions b ! t) = Some payload" for t payload
    using responses_heardD [OF bus_history_heard [OF assms] that] unfolding answers_def by metis
  ultimately show ?thesis unfolding bus_inv_def by blast
qed

theorem pending_requests_are_unanswered_witness:
  "let b = fst (process_packet [63, 5, 0, 1, 185]
         (snd (register 63 6 [] True (snd (register 63 5 [1] True (bus_new 63))))))
   in pending_requests b = [1] \<and> ts_response (bus_transactions b ! 1) = None
    \<and> ts_response (bus_transactions b ! 0) = Some [0, 1]
    \<and> (\<exists>data p vals. data @ [crc8 data] \<in> {[63, 5, 0, 1, 185]} \<and> packet_new data = Inr p \<and> pkt_payload p = [0, 1]
          \<and> pkt_from p = 5 \<and> pkt_to p = 63 \<and> [0, 1] = [0] @ [1] @ vals)"
proof -
  let ?b1 = "snd (register 63 5 [1] True (bus_new 63))"
  let ?b2 = "snd (register 63 6 [] True ?b1)"
  let ?b = "fst (process_packet [63, 5, 0, 1, 185] ?b2)"
  have "bus_history 63 [] ?b1" by (rule history_register [OF history_new]) (rule prod.collapse [symmetric])
  then have "bus_history 63 [] ?b2" by (rule history_register) (rule prod.collapse [symmetric])
  then have h: "bus_history 63 ([] @ [[63, 5, 0, 1, 185]]) ?b"
    by (rule history_packet) (rule prod.collapse [symmetric])
  have ev: "pending_requests ?b = [1]" "length (bus_transactions ?b) = 2"
    "ts_response (bus_transactions ?b ! 0) = Some [0, 1]" "ts_to (bus_transactions ?b ! 0) = 5"
    "ts_from (bus_transactions ?b ! 0) = 63" "ts_zero_namespace_answer (bus_transactions ?b ! 0)"
    "ts_path (bus_transactions ?b ! 0) = [1]"
    by code_simp+
  note u = pending_requests_are_unanswered [OF h]
  have "ts_response (bus_transactions ?b ! 1) = None" using u ev(1) by auto
  moreover have "\<exists>data p vals. data @ [crc8 data] \<in> {[63, 5, 0, 1, 185]} \<and> packet_new data = Inr p
      \<and> pkt_payload p = [0, 1] \<and> pkt_from p = 5 \<and> pkt_to p = 63 \<and> [0, 1] = [0] @ [1] @ vals"
    using conjunct2 [OF conjunct2 [OF u], rule_format, of 0 "[0, 1]"] ev by simp
  ultimately show ?thesis unfolding Let_def using ev by blast
qed

text \<open>
  C15: An answer is final: once a request has got its response, nothing that happens on the bus
  later changes it.
\<close>

theorem response_is_final:
  assumes "bus_step\<^sup>*\<^sup>* (bus_new from_address) b" and "t < length (bus_transactions b)"
    and "ts_response (bus_transactions b ! t) = Some payload" and "bus_step\<^sup>*\<^sup>* b b'"
  shows "fst (wait_response arrivals t b') = Some payload"
  using bus_steps_keep [OF assms(4) bus_steps_inv [OF assms(1) bus_inv_new] assms(2,3)] assms(3)
  by (simp add: wait_response_def)

theorem response_is_final_witness:
  "fst (wait_response [] 0
     (snd (register 63 6 [] True
       (fst (process_packet [63, 5, 0, 1, 185] (snd (register 63 5 [1] True (bus_new 63)))))))) = Some [0, 1]"
proof -
  let ?b = "snd (register 63 5 [1] True (bus_new 63))"
  let ?c = "fst (process_packet [63, 5, 0, 1, 185] ?b)"
  have "bus_step (bus_new 63) ?b" by (rule step_register) (rule prod.collapse [symmetric])
  moreover have "bus_step ?b ?c" by (rule step_process) (rule prod.collapse [symmetric])
  ultimately have "bus_step\<^sup>*\<^sup>* (bus_new 63) ?c" by simp
  moreover have "0 < length (bus_transactions ?c)" by code_simp
  moreover have "ts_response (bus_transactions ?c ! 0) = Some [0, 1]" by code_simp
  moreover have "bus_step ?c (snd (register 63 6 [] True ?c))"
    by (rule step_register) (rule prod.collapse [symmetric])
  ultimately show ?thesis by (rule response_is_final [OF _ _ _ r_into_rtranclp])
qed

text \<open>
  C16: What a received packet does: a packet with a wrong crc8 goes to the invalid packet
  listeners only; a valid one that answers a pending request is kept as the response of the first
  such request, which stops waiting, and no listener sees it; any other packet goes, without crc8,
  to the unrelated packet listeners only.
\<close>

theorem process_packet_pairs:
  assumes "process_packet (data @ [c]) b = (b', es)"
  shows "(crc8 data \<noteq> c \<longrightarrow> b' = b \<and> es = map (\<lambda>l. Invalid l (data @ [c])) (invalid_packets b))
    \<and> (\<forall>p. crc8 data = c \<and> packet_new data = Inr p \<longrightarrow>
         (if \<exists>i\<in>set (pending_requests b). answers p (bus_transactions b ! i)
          then \<exists>k<length (pending_requests b).
            answers p (bus_transactions b ! (pending_requests b ! k))
            \<and> (\<forall>j<k. \<not> answers p (bus_transactions b ! (pending_requests b ! j)))
            \<and> b' = b\<lparr>bus_transactions := (bus_transactions b)[pending_requests b ! k :=
                  (bus_transactions b ! (pending_requests b ! k))\<lparr>ts_response := Some (pkt_payload p)\<rparr>],
                pending_requests := remove_at k (pending_requests b)\<rparr>
            \<and> es = []
          else b' = b \<and> es = map (\<lambda>l. Unrelated l data) (unrelated_packets b)))"
proof -
  have valid: "get_valid_packet (data @ [c]) = (if crc8 data = c then Some data else None)"
    by (simp add: get_valid_packet_def crc8_def crc8_prefix_def)
  have raw: "packet_new data = Inr p \<Longrightarrow> raw_packet p = data" for p
    by (auto simp: packet_new_def Let_def split: sum.splits)
  from assms show ?thesis
  proof (cases rule: process_packet_cases)
    case (answer d p k)
    then show ?thesis using nth_mem [OF answer(3)] by (auto simp: valid split: if_splits)
  qed (auto simp: valid raw split: if_splits)
qed

theorem process_packet_pairs_witness:
  "process_packet ([63, 5, 0, 1] @ [185]) (snd (add_unrelated_packet_listener (bus_new 63))) =
     (snd (add_unrelated_packet_listener (bus_new 63)), [Unrelated 0 [63, 5, 0, 1]])"
proof -
  let ?b = "snd (add_unrelated_packet_listener (bus_new 63))"
  obtain b' es where r: "process_packet ([63, 5, 0, 1] @ [185]) ?b = (b', es)" by force
  have "crc8 [63, 5, 0, 1] = 185" by code_simp
  moreover have "packet_new [63, 5, 0, 1] = Inr \<lparr>raw_packet = [63, 5, 0, 1], pkt_from = 5, pkt_to = 63,
      pkt_payload = [0, 1], pkt_crc8 = None, pkt_valid_crc8 = None\<rparr>"
    by code_simp
  ultimately have "b' = ?b \<and> es = map (\<lambda>l. Unrelated l [63, 5, 0, 1]) (unrelated_packets ?b)"
    using process_packet_pairs [OF r] by (simp add: add_unrelated_packet_listener_def bus_new_def)
  then show ?thesis
    using r by (simp add: add_unrelated_packet_listener_def bus_new_def)
qed

end
