(* ===== verification/Device.thy ===== *)
theory Device
  imports Bus
begin

text \<open>
  Calls of the RPC functions of a device, \<^verbatim>\<open>rpc/device.rs\<close>.  What the bus does during the attempts of a
  call is \<open>env\<close>: for each attempt the result of sending, the packets processed while sending, and the
  ones processed until the answer or the timeout.  A call returns its result, the packets it sent and
  the events of the bus.  \<open>n\<close> bounds the loops of \<^const>\<open>read_type\<close>; \<open>debug_text\<close> is the derived
  \<^verbatim>\<open>Debug\<close> of the values.
\<close>

subsection \<open>Definitions\<close>

definition ENOENT :: u8 where "ENOENT = 2"
definition EIO :: u8 where "EIO = 5"
definition ENXIO :: u8 where "ENXIO = 6"
definition EAGAIN :: u8 where "EAGAIN = 11"
definition EACCES :: u8 where "EACCES = 13"
definition EEXIST :: u8 where "EEXIST = 17"
definition ENOTDIR :: u8 where "ENOTDIR = 20"
definition EMSGSIZE :: u8 where "EMSGSIZE = 90"
definition EOPNOTSUPP :: u8 where "EOPNOTSUPP = 95"

datatype RpcError = RpcTransaction string | RpcPosix u8 | RpcOther string

fun rpc_error_text :: "RpcError \<Rightarrow> string" where
  "rpc_error_text (RpcTransaction msg) = ''TransactionException: '' @ msg"
| "rpc_error_text (RpcPosix errno) = ''PosixErrnoException: errno '' @ show_nat (unat errno)"
| "rpc_error_text (RpcOther msg) = msg"

datatype UbRet = RetNoReturn | RetVoid | RetValue RpcType

record UbFunction =
  fn_index :: u8
  fn_ret :: UbRet
  fn_posix :: bool
  fn_retransmittable :: bool

definition UbFunction_new :: "u8 \<Rightarrow> UbRet \<Rightarrow> UbFunction" where
  "UbFunction_new index ret = \<lparr>fn_index = index, fn_ret = ret, fn_posix = False, fn_retransmittable = False\<rparr>"

definition posix :: "UbFunction \<Rightarrow> UbFunction" where
  "posix f = f\<lparr>fn_posix := True\<rparr>"

definition retransmittable :: "UbFunction \<Rightarrow> UbFunction" where
  "retransmittable f = f\<lparr>fn_retransmittable := True\<rparr>"

definition read_return ::
  "nat \<Rightarrow> UbFunction \<Rightarrow> PacketReader \<Rightarrow> (RpcError, RpcValue option) outcome option" where
  "read_return n f reader =
     (case fn_ret f of
        RetNoReturn \<Rightarrow> Some (Ret None)
      | RetVoid \<Rightarrow> Some (Ret None)
      | RetValue ty \<Rightarrow>
          (case read_type n reader ty of
             None \<Rightarrow> None
           | Some Panic \<Rightarrow> Some Panic
           | Some (Fail err) \<Rightarrow> Some (Fail (RpcOther (''Unextractable returning value: '' @ read_error_text err)))
           | Some (Ret (value, _)) \<Rightarrow> Some (Ret (Some value))))"

definition extract_or_throw_result ::
  "nat \<Rightarrow> UbFunction \<Rightarrow> bytes \<Rightarrow> (RpcError, RpcValue option) outcome option" where
  "extract_or_throw_result n f data =
     (let reader = reader_new data
      in if fn_posix f
         then (case read_ubyte reader of
                 None \<Rightarrow> Some (Fail (RpcOther ''Answer without error number''))
               | Some (err, reader) \<Rightarrow>
                   if err \<noteq> 0 then Some (Fail (RpcPosix err)) else read_return n f reader)
         else read_return n f reader)"

definition NS_BUS :: u8 where "NS_BUS = 1"
definition NS_BOOTLOADER :: u8 where "NS_BOOTLOADER = 2"
definition NS_APP :: u8 where "NS_APP = 32"
definition NS_REFLECT :: u8 where "NS_REFLECT = 255"
definition NS_POWER :: bytes where "NS_POWER = [NS_BOOTLOADER, 0]"
definition NS_FLASH :: bytes where "NS_FLASH = [NS_BOOTLOADER, 4]"

datatype UbBootloaderVariable = IsApplicationRunning | IsSignalingSos | ResetFlag

fun variable_index :: "UbBootloaderVariable \<Rightarrow> nat" where
  "variable_index IsApplicationRunning = 0"
| "variable_index IsSignalingSos = 1"
| "variable_index ResetFlag = 2"

record UartBusDevice =
  dev_address :: i32
  dev_timeout_ms :: nat
  dev_retry_count :: nat

definition device_new :: "i32 \<Rightarrow> UartBusDevice" where
  "device_new address = \<lparr>dev_address = address, dev_timeout_ms = 100, dev_retry_count = 5\<rparr>"

record Attempt =
  att_send :: "string option"
  att_meanwhile :: "bytes list"
  att_arrivals :: "bytes list"

text \<open>The loop over the attempts: \<open>left\<close> are left, \<open>k\<close> is the number of the next one.\<close>

fun call_loop ::
  "(int \<Rightarrow> bytes) \<Rightarrow> nat \<Rightarrow> UartBusDevice \<Rightarrow> UbFunction \<Rightarrow> bytes \<Rightarrow> bytes \<Rightarrow> nat \<Rightarrow> nat \<Rightarrow> (nat \<Rightarrow> Attempt)
    \<Rightarrow> UartBus \<Rightarrow> string option
    \<Rightarrow> (RpcError, RpcValue option) outcome option \<times> bytes list \<times> UartBus \<times> BusEvent list" where
  "call_loop tbe n dev f path data 0 k env b last_error =
     (Some (Fail (RpcTransaction (''Device not responded after '' @ show_nat (dev_retry_count dev)
        @ '' attempt.'' @ (case last_error of None \<Rightarrow> [] | Some e \<Rightarrow> '' '' @ e)))), [], b, [])"
| "call_loop tbe n dev f path data (Suc left) k env b last_error =
     (case new_transaction tbe (att_send (env k)) (att_meanwhile (env k)) (dev_address dev) path data True b of
        (Inl e, sent, b, es) \<Rightarrow> (Some (Fail (RpcOther (''Can't send request: '' @ e))), sent, b, es)
      | (Inr t, sent, b, es) \<Rightarrow>
          if fn_ret f = RetNoReturn then (Some (Ret None), sent, drop_transaction t b, es)
          else
            (case ensure_response (att_arrivals (env k)) (dev_timeout_ms dev) None t b of
               (Inr response, b, es') \<Rightarrow>
                 (if length response < length path + 1 then Some Panic
                  else extract_or_throw_result n f (drop (length path + 1) response),
                  sent, drop_transaction t b, es @ es')
             | (Inl err, b, es') \<Rightarrow>
                 if \<not> fn_retransmittable f
                 then (Some (Fail (RpcTransaction err)), sent, drop_transaction t b, es @ es')
                 else
                   (case call_loop tbe n dev f path data left (k + 1) env (drop_transaction t b) (Some err) of
                      (r, sent', b, es'') \<Rightarrow> (r, sent @ sent', b, es @ es' @ es''))))"

definition device_call ::
  "(int \<Rightarrow> bytes) \<Rightarrow> nat \<Rightarrow> UartBusDevice \<Rightarrow> bytes \<Rightarrow> UbFunction \<Rightarrow> RpcValue list \<Rightarrow> (nat \<Rightarrow> Attempt) \<Rightarrow> UartBus
    \<Rightarrow> (RpcError, RpcValue option) outcome option \<times> bytes list \<times> UartBus \<times> BusEvent list" where
  "device_call tbe n dev ns_path f params env b =
     (let path = ns_path @ [fn_index f]
      in (case append_elements tbe params (write_blob path asm_new) of
            Inl e \<Rightarrow> (Some (Fail (RpcOther (pack_error_text e))), [], b, [])
          | Inr a \<Rightarrow>
              call_loop tbe n dev f path (fst (asm_done a)) (dev_retry_count dev) 0 env b None))"

text \<open>The other functions work on the result of a call only.\<close>

fun on_result ::
  "('a \<Rightarrow> (RpcError, 'b) outcome) \<Rightarrow> (RpcError, 'a) outcome option \<times> 's \<Rightarrow> (RpcError, 'b) outcome option \<times> 's" where
  "on_result g (r, s) = (map_option (\<lambda>m. obind m g) r, s)"

definition unit_result :: "RpcValue option \<Rightarrow> (RpcError, unit) outcome" where
  "unit_result v = Ret ()"

definition required_value :: "RpcValue option \<Rightarrow> (RpcError, RpcValue) outcome" where
  "required_value v = (case v of Some x \<Rightarrow> Ret x | None \<Rightarrow> Fail (RpcOther ''Function returned no value''))"

definition call_value where
  "call_value tbe n dev ns_path f params env b = on_result required_value (device_call tbe n dev ns_path f params env b)"

definition unexpected :: "(RpcValue \<Rightarrow> string) \<Rightarrow> RpcValue \<Rightarrow> (RpcError, 'a) outcome" where
  "unexpected debug_text other = Fail (RpcOther (''Unexpected value: '' @ debug_text other))"

definition s8_value :: "(RpcValue \<Rightarrow> string) \<Rightarrow> RpcValue \<Rightarrow> (RpcError, i8) outcome" where
  "s8_value debug_text v = (case v of RvS8 value \<Rightarrow> Ret value | other \<Rightarrow> unexpected debug_text other)"

definition address_value :: "(RpcValue \<Rightarrow> string) \<Rightarrow> RpcValue \<Rightarrow> (RpcError, u16) outcome" where
  "address_value debug_text v = (case v of RvU16 address \<Rightarrow> Ret address | other \<Rightarrow> unexpected debug_text other)"

definition ping where
  "ping tbe n dev env b =
     on_result unit_result
       (device_call tbe n dev [NS_BUS] (retransmittable (UbFunction_new 0 RetVoid)) [] env b)"

definition hardware_reset where
  "hardware_reset tbe n dev env b =
     on_result unit_result (device_call tbe n dev NS_POWER (UbFunction_new 0 RetNoReturn) [] env b)"

definition software_reset where
  "software_reset tbe n dev env b =
     on_result unit_result (device_call tbe n dev NS_POWER (UbFunction_new 1 RetNoReturn) [] env b)"

definition get_var where
  "get_var debug_text tbe n dev var env b =
     on_result (s8_value debug_text)
       (call_value tbe n dev [NS_BOOTLOADER] (retransmittable (UbFunction_new 1 (RetValue RtS8)))
          [RvEnum (variable_index var)] env b)"

definition set_var where
  "set_var tbe n dev var value env b =
     on_result unit_result
       (device_call tbe n dev [NS_BOOTLOADER] (UbFunction_new 2 RetVoid)
          [RvEnum (variable_index var), RvS8 value] env b)"

definition code_value :: "(RpcValue \<Rightarrow> string) \<Rightarrow> (RpcValue list \<Rightarrow> string) \<Rightarrow> RpcValue \<Rightarrow> (RpcError, u16 \<times> bytes) outcome" where
  "code_value debug_text debug_list v =
     (case v of
        RvStruct vals \<Rightarrow>
          (case vals of
             [RvU16 address, RvBytes code] \<Rightarrow> Ret (address, code)
           | other \<Rightarrow> Fail (RpcOther (''Unexpected value: '' @ debug_list other)))
      | other \<Rightarrow> unexpected debug_text other)"

definition read_program_code where
  "read_program_code debug_text debug_list tbe n dev address len env b =
     on_result (code_value debug_text debug_list)
       (call_value tbe n dev [NS_BOOTLOADER]
          (retransmittable (UbFunction_new 3 (RetValue (RtStruct [RtU16, RtBytes]))))
          [RvU16 address, RvU8 len] env b)"

definition flash_get_stage where
  "flash_get_stage debug_text tbe n dev env b =
     on_result (s8_value debug_text)
       (call_value tbe n dev NS_FLASH (retransmittable (posix (UbFunction_new 0 (RetValue RtS8)))) [] env b)"

definition flash_start where
  "flash_start tbe n dev env b =
     on_result unit_result (device_call tbe n dev NS_FLASH (posix (UbFunction_new 1 RetVoid)) [] env b)"

definition flash_get_next_address where
  "flash_get_next_address debug_text tbe n dev env b =
     on_result (address_value debug_text)
       (call_value tbe n dev NS_FLASH (retransmittable (UbFunction_new 2 (RetValue RtU16))) [] env b)"

definition flash_push_code where
  "flash_push_code debug_text tbe n dev start_address data env b =
     on_result (address_value debug_text)
       (call_value tbe n dev NS_FLASH (posix (UbFunction_new 3 (RetValue RtU16)))
          [RvU16 start_address, RvBytes data] env b)"

definition flash_commit where
  "flash_commit tbe n dev env b =
     on_result unit_result (device_call tbe n dev NS_FLASH (posix (UbFunction_new 4 RetVoid)) [] env b)"

subsection \<open>Requests of a call\<close>

lemma process_packet_pending:
  "process_packet p b = (b', es) \<Longrightarrow> set (pending_requests b') \<subseteq> set (pending_requests b) \<and>
    bus_from_address b' = bus_from_address b"
  by (erule process_packet_cases)
    (auto simp: remove_at_def dest: in_set_takeD in_set_dropD)

lemma process_packets_pending:
  "process_packets ps b = (b', es) \<Longrightarrow> set (pending_requests b') \<subseteq> set (pending_requests b) \<and>
    bus_from_address b' = bus_from_address b"
  by (induction ps arbitrary: b es) (auto split: prod.splits dest!: process_packet_pending)

text \<open>A transaction of a call: what it sends, and the request it leaves pending.\<close>

lemma new_transaction_result:
  assumes "new_transaction tbe res mw to path payload zero b = (r, sent, b', es)"
  shows "bus_from_address b' = bus_from_address b"
    and "sent = (case to_packet tbe to (bus_from_address b) [RvBytes payload] of Inl _ \<Rightarrow> [] | Inr p \<Rightarrow> [p])"
    and "r = Inl e \<Longrightarrow> set (pending_requests b') \<subseteq> set (pending_requests b)"
    and "r = Inr t \<Longrightarrow> t = length (bus_transactions b) \<and>
      set (pending_requests b') \<subseteq> insert t (set (pending_requests b))"
proof -
  obtain t1 b1 where r1: "register (bus_from_address b) to path zero b = (t1, b1)" by force
  obtain b2 es2 where r2: "process_packets mw b1 = (b2, es2)" by force
  have "bus_from_address b2 = bus_from_address b" "t1 = length (bus_transactions b)"
    "set (pending_requests b2) \<subseteq> insert t1 (set (pending_requests b))"
    using r1 process_packets_pending [OF r2] by (auto simp: register_def Let_def)
  then show "bus_from_address b' = bus_from_address b"
    "sent = (case to_packet tbe to (bus_from_address b) [RvBytes payload] of Inl _ \<Rightarrow> [] | Inr p \<Rightarrow> [p])"
    "r = Inl e \<Longrightarrow> set (pending_requests b') \<subseteq> set (pending_requests b)"
    "r = Inr t \<Longrightarrow> t = length (bus_transactions b) \<and>
      set (pending_requests b') \<subseteq> insert t (set (pending_requests b))"
    using assms r1 r2
    by (auto simp: new_transaction_def revoke_pending_request_def split: sum.splits option.splits)
qed

lemma ensure_response_pending:
  "ensure_response arr ms msg t b = (r, b', es) \<Longrightarrow> set (pending_requests b') \<subseteq> set (pending_requests b) \<and>
    bus_from_address b' = bus_from_address b"
  by (auto simp: ensure_response_def wait_response_def split: option.splits prod.splits
      dest: process_packets_pending)

lemma call_loop_requests:
  "call_loop tbe n dev f path data left k env b last_error = (r, sent, b', es) \<Longrightarrow>
    set (pending_requests b') \<subseteq> set (pending_requests b)
    \<and> length sent \<le> (if fn_retransmittable f then left else min 1 left)
    \<and> (\<forall>p\<in>set sent. to_packet tbe (dev_address dev) (bus_from_address b) [RvBytes data] = Inr p)"
proof (induction left arbitrary: k b last_error r sent b' es)
  case (Suc left)
  obtain r1 s1 b1 e1 where nt: "new_transaction tbe (att_send (env k)) (att_meanwhile (env k))
      (dev_address dev) path data True b = (r1, s1, b1, e1)" by (metis prod_cases4)
  note nt' = new_transaction_result [OF nt]
  have s1: "length s1 \<le> 1" "\<forall>p\<in>set s1. to_packet tbe (dev_address dev) (bus_from_address b) [RvBytes data] = Inr p"
    using nt'(2) by (auto split: sum.splits)
  show ?case
  proof (cases r1)
    case (Inl e)
    then show ?thesis using Suc.prems nt nt'(3) s1 by auto
  next
    case (Inr t)
    obtain r2 b2 e2 where er: "ensure_response (att_arrivals (env k)) (dev_timeout_ms dev) None t b1 = (r2, b2, e2)"
      by (metis prod_cases3)
    have drop: "set (pending_requests (drop_transaction t b1)) \<subseteq> set (pending_requests b)"
      "set (pending_requests (drop_transaction t b2)) \<subseteq> set (pending_requests b)"
      "bus_from_address (drop_transaction t b2) = bus_from_address b"
      using nt'(1) nt'(4) [OF Inr] ensure_response_pending [OF er]
      by (auto simp: drop_transaction_def revoke_pending_request_def)
    show ?thesis
    proof (cases "fn_ret f \<noteq> RetNoReturn \<and> (\<exists>err. r2 = Inl err) \<and> fn_retransmittable f")
      case False
      then show ?thesis using Suc.prems nt Inr er drop s1 by (auto split: if_splits sum.splits)
    next
      case True
      then obtain err where err: "r2 = Inl err" by blast
      obtain r3 s3 b3 e3 where cl: "call_loop tbe n dev f path data left (k + 1) env (drop_transaction t b2) (Some err) =
          (r3, s3, b3, e3)" by (metis prod_cases4)
      from Suc.IH [OF cl] show ?thesis
        using Suc.prems nt Inr er err True cl drop s1 by auto
    qed
  qed
qed simp

subsection \<open>Answers of a call\<close>

text \<open>A response of a transaction has the shape its request waits for.\<close>

definition responses_ok :: "UartBus \<Rightarrow> bool" where
  "responses_ok b \<longleftrightarrow> (\<forall>t<length (bus_transactions b). \<forall>payload.
     ts_response (bus_transactions b ! t) = Some payload \<longrightarrow>
       (\<exists>vals. payload = (if ts_zero_namespace_answer (bus_transactions b ! t) then [0] else [])
          @ ts_path (bus_transactions b ! t) @ vals))"

lemma responses_ok_length:
  assumes "responses_ok b" "t < length (bus_transactions b)" "ts_response (bus_transactions b ! t) = Some payload"
    "ts_zero_namespace_answer (bus_transactions b ! t)"
  shows "length (ts_path (bus_transactions b ! t)) + 1 \<le> length payload"
proof -
  have "\<exists>vals. payload = (if ts_zero_namespace_answer (bus_transactions b ! t) then [0] else [])
      @ ts_path (bus_transactions b ! t) @ vals"
    using assms(1-3) unfolding responses_ok_def by blast
  then obtain vals where "payload = [0] @ ts_path (bus_transactions b ! t) @ vals"
    using assms(4) by auto
  then show ?thesis by simp
qed

lemma responses_ok_step: "bus_step b b' \<Longrightarrow> responses_ok b \<Longrightarrow> responses_ok b'"
proof (induction rule: bus_step.induct)
  case (step_process packet b b' es)
  from step_process(1) show ?case
  proof (cases rule: process_packet_cases)
    case (answer data p k)
    show ?thesis
      unfolding responses_ok_def
    proof (intro allI impI)
      fix t payload
      assume "t < length (bus_transactions b')" "ts_response (bus_transactions b' ! t) = Some payload"
      then show "\<exists>vals. payload = (if ts_zero_namespace_answer (bus_transactions b' ! t) then [0] else [])
          @ ts_path (bus_transactions b' ! t) @ vals"
        using step_process(2) answer(4) unfolding responses_ok_def answer(6)
        by (cases "t = pending_requests b ! k") (auto simp: answers_def)
    qed
  qed (use step_process in simp_all)
qed (auto simp: responses_ok_def register_def revoke_pending_request_def add_unrelated_packet_listener_def
    remove_unrelated_packet_listener_def add_invalid_packet_listener_def Let_def nth_append less_Suc_eq)

lemma responses_ok_steps: "bus_step\<^sup>*\<^sup>* b b' \<Longrightarrow> responses_ok b \<Longrightarrow> responses_ok b'"
  by (induction rule: rtranclp_induct) (auto intro: responses_ok_step)

lemma responses_ok_new: "responses_ok (bus_new from)"
  by (simp add: responses_ok_def bus_new_def)

text \<open>What a request waits for does not change.\<close>

lemma bus_step_request:
  "bus_step b b' \<Longrightarrow> i < length (bus_transactions b) \<Longrightarrow>
    i < length (bus_transactions b') \<and> ts_path (bus_transactions b' ! i) = ts_path (bus_transactions b ! i)
    \<and> ts_zero_namespace_answer (bus_transactions b' ! i) = ts_zero_namespace_answer (bus_transactions b ! i)"
proof (induction rule: bus_step.induct)
  case (step_process packet b b' es)
  from step_process(1) show ?case
  proof (cases rule: process_packet_cases)
    case (answer data p k)
    then show ?thesis using step_process(2) by (cases "i = pending_requests b ! k") auto
  qed (use step_process in simp_all)
qed (auto simp: register_def revoke_pending_request_def add_unrelated_packet_listener_def
    remove_unrelated_packet_listener_def add_invalid_packet_listener_def Let_def nth_append)

lemma bus_steps_request:
  "bus_step\<^sup>*\<^sup>* b b' \<Longrightarrow> i < length (bus_transactions b) \<Longrightarrow>
    i < length (bus_transactions b') \<and> ts_path (bus_transactions b' ! i) = ts_path (bus_transactions b ! i)
    \<and> ts_zero_namespace_answer (bus_transactions b' ! i) = ts_zero_namespace_answer (bus_transactions b ! i)"
  by (induction rule: rtranclp_induct) (auto dest: bus_step_request)

lemma new_transaction_registers:
  assumes "new_transaction tbe res mw to path payload zero b = (Inr t, sent, b', es)"
  shows "t < length (bus_transactions b') \<and> ts_path (bus_transactions b' ! t) = path
    \<and> ts_zero_namespace_answer (bus_transactions b' ! t) = zero"
proof -
  obtain b1 where r1: "register (bus_from_address b) to path zero b = (length (bus_transactions b), b1)"
    by (simp add: register_def Let_def)
  obtain b2 es2 where r2: "process_packets mw b1 = (b2, es2)" by force
  have "b' = b2" "t = length (bus_transactions b)"
    using assms r1 r2 by (auto simp: new_transaction_def split: sum.splits option.splits)
  moreover have "length (bus_transactions b) < length (bus_transactions b1)"
    "ts_path (bus_transactions b1 ! length (bus_transactions b)) = path"
    "ts_zero_namespace_answer (bus_transactions b1 ! length (bus_transactions b)) = zero"
    using r1 by (auto simp: register_def Let_def)
  ultimately show ?thesis using bus_steps_request [OF process_packets_steps [OF r2]] by simp
qed

lemma ensure_response_steps:
  "ensure_response arr ms msg t b = (r, b', es) \<Longrightarrow> bus_step\<^sup>*\<^sup>* b b'
    \<and> (\<forall>payload. r = Inr payload \<longrightarrow> ts_response (bus_transactions b' ! t) = Some payload)"
  by (auto simp: ensure_response_def wait_response_def split: option.splits prod.splits
      dest: process_packets_steps)

lemma drop_transaction_step: "bus_step b (drop_transaction t b)"
  unfolding drop_transaction_def by (rule step_revoke) (rule refl)

lemma extract_no_panic: "extract_or_throw_result n f data \<noteq> Some Panic"
proof -
  have "read_return n f r \<noteq> Some Panic" if "reader_ok r" for r
    using that read_type_progress(1) [OF that, of "case fn_ret f of RetValue ty \<Rightarrow> ty" n]
    by (auto simp: read_return_def split: UbRet.splits option.splits outcome.splits)
  moreover have "reader_ok (reader_new data)" by (simp add: reader_ok_def reader_new_def)
  ultimately show ?thesis
    using ubyte.rd_moves [of "reader_new data"]
    by (auto simp: extract_or_throw_result_def Let_def split: option.splits)
qed

lemma call_attempt_ok:
  assumes nt: "new_transaction tbe res mw to path data True b = (Inr t, s1, b1, e1)"
    and er: "ensure_response arr ms msg t b1 = (r2, b2, e2)" and "responses_ok b"
  shows "responses_ok (drop_transaction t b2)"
    and "r2 = Inr response \<Longrightarrow> length path + 1 \<le> length response"
proof -
  have steps: "bus_step\<^sup>*\<^sup>* b b1" "bus_step\<^sup>*\<^sup>* b1 b2"
    using new_transaction_steps [OF nt] ensure_response_steps [OF er] by simp_all
  have ok2: "responses_ok b2"
    using responses_ok_steps [OF steps(2)] responses_ok_steps [OF steps(1)] assms(3) by blast
  then show "responses_ok (drop_transaction t b2)" by (rule responses_ok_step [OF drop_transaction_step])
  have req: "t < length (bus_transactions b2)" "ts_path (bus_transactions b2 ! t) = path"
    "ts_zero_namespace_answer (bus_transactions b2 ! t)"
    using bus_steps_request [OF steps(2)] new_transaction_registers [OF nt] by simp_all
  show "length path + 1 \<le> length response" if "r2 = Inr response"
    using responses_ok_length [OF ok2 req(1)] req(2,3) ensure_response_steps [OF er] that by simp
qed

lemma call_loop_no_panic:
  "call_loop tbe n dev f path data left k env b last_error = (r, sent, b', es) \<Longrightarrow> responses_ok b \<Longrightarrow>
    r \<noteq> Some Panic"
proof (induction left arbitrary: k b last_error r sent b' es)
  case (Suc left)
  obtain r1 s1 b1 e1 where nt: "new_transaction tbe (att_send (env k)) (att_meanwhile (env k))
      (dev_address dev) path data True b = (r1, s1, b1, e1)" by (metis prod_cases4)
  show ?case
  proof (cases r1)
    case (Inl e)
    then show ?thesis using Suc.prems nt by auto
  next
    case (Inr t)
    obtain r2 b2 e2 where er: "ensure_response (att_arrivals (env k)) (dev_timeout_ms dev) None t b1 = (r2, b2, e2)"
      by (metis prod_cases3)
    from call_attempt_ok [OF nt [unfolded Inr] er Suc.prems(2)] show ?thesis
      using Suc.prems(1) nt Inr er Suc.IH extract_no_panic
      by (auto split: if_splits sum.splits prod.splits)
  qed
qed simp

text \<open>A call ends when the type it returns can be read to its end.\<close>

lemma extract_cases:
  "(\<exists>e. \<forall>n. extract_or_throw_result n f data = Some (Fail e)) \<or>
   (\<exists>reader. reader_ok reader \<and> reader_data reader = data
      \<and> (\<forall>n. extract_or_throw_result n f data = read_return n f reader))"
proof (cases "fn_posix f")
  case False
  have "reader_ok (reader_new data)" "reader_data (reader_new data) = data"
    by (simp_all add: reader_ok_def reader_new_def)
  moreover have "\<forall>n. extract_or_throw_result n f data = read_return n f (reader_new data)"
    using False by (simp add: extract_or_throw_result_def)
  ultimately show ?thesis by blast
next
  case True
  show ?thesis
  proof (cases "read_ubyte (reader_new data)")
    case None
    then show ?thesis using True by (auto simp: extract_or_throw_result_def)
  next
    case (Some x)
    obtain err reader where x: "x = (err, reader)" by force
    have "reader_ok reader \<and> reader_data reader = data"
      using ubyte.rd_moves [of "reader_new data" err reader] Some x
      by (auto simp: reader_ok_def reader_new_def)
    then show ?thesis
      using Some x True by (cases "err = 0") (auto simp: extract_or_throw_result_def)
  qed
qed

lemma read_return_ends:
  assumes "\<And>ty. fn_ret f = RetValue ty \<Longrightarrow> arrays_end ty" and "reader_ok reader"
  shows "\<exists>r. \<forall>n>length (reader_data reader). read_return n f reader = Some r"
proof (cases "fn_ret f")
  case (RetValue ty)
  obtain x where x: "read_type (Suc (length (reader_data reader))) reader ty = Some x"
    using read_type_total(1) [OF assms(1) [OF RetValue] assms(2), of "Suc (length (reader_data reader))"] by auto
  have "read_type n reader ty = Some x" if "length (reader_data reader) < n" for n
    using read_more_turns(1) [OF x] that by simp
  then show ?thesis using RetValue
    by (cases x) (auto simp: read_return_def)
qed (auto simp: read_return_def)

lemma extract_ends:
  assumes "\<And>ty. fn_ret f = RetValue ty \<Longrightarrow> arrays_end ty"
  shows "\<exists>r. r \<noteq> Panic \<and> (\<forall>n>length data. extract_or_throw_result n f data = Some r)"
  using extract_cases [of f data]
proof
  assume "\<exists>e. \<forall>n. extract_or_throw_result n f data = Some (Fail e)"
  then show ?thesis by auto
next
  assume "\<exists>reader. reader_ok reader \<and> reader_data reader = data
      \<and> (\<forall>n. extract_or_throw_result n f data = read_return n f reader)"
  then obtain reader where "reader_ok reader" "reader_data reader = data"
    "\<forall>n. extract_or_throw_result n f data = read_return n f reader" by blast
  then obtain r where r: "\<forall>n>length data. extract_or_throw_result n f data = Some r"
    using read_return_ends [of f reader, OF assms] by auto
  then have "r \<noteq> Panic" using extract_no_panic [of "Suc (length data)" f data] by auto
  with r show ?thesis by blast
qed

lemma call_loop_ends:
  assumes ends: "\<And>ty. fn_ret f = RetValue ty \<Longrightarrow> arrays_end ty"
  shows "responses_ok b \<Longrightarrow>
    \<exists>r N. r \<noteq> Panic \<and> (\<forall>n\<ge>N. fst (call_loop tbe n dev f path data left k env b last_error) = Some r)"
proof (induction left arbitrary: k b last_error)
  case (Suc left)
  obtain r1 s1 b1 e1 where nt: "new_transaction tbe (att_send (env k)) (att_meanwhile (env k))
      (dev_address dev) path data True b = (r1, s1, b1, e1)" by (metis prod_cases4)
  show ?case
  proof (cases r1)
    case (Inl e)
    then show ?thesis using nt by auto
  next
    case (Inr t)
    obtain r2 b2 e2 where er: "ensure_response (att_arrivals (env k)) (dev_timeout_ms dev) None t b1 = (r2, b2, e2)"
      by (metis prod_cases3)
    note ok = call_attempt_ok [OF nt [unfolded Inr] er Suc.prems]
    show ?thesis
    proof (cases r2)
      case r2: (Inr response)
      let ?data = "drop (length path + 1) response"
      obtain r where r: "r \<noteq> Panic" "\<And>n. length ?data < n \<Longrightarrow> extract_or_throw_result n f ?data = Some r"
        using extract_ends [of f ?data, OF ends] by blast
      have "\<forall>n\<ge>Suc (length ?data).
          fst (call_loop tbe n dev f path data (Suc left) k env b last_error) =
            (if fn_ret f = RetNoReturn then Some (Ret None) else Some r)"
        using r(2) ok(2) [OF r2] r2 nt Inr er by auto
      then show ?thesis using r(1) by (cases "fn_ret f = RetNoReturn") auto
    next
      case r2: (Inl err)
      then show ?thesis
        using Suc.IH [OF ok(1), of "k + 1" "Some err"] nt Inr er
        by (cases "fn_ret f = RetNoReturn"; cases "fn_retransmittable f") (auto simp: case_prod_beta)
    qed
  qed
qed auto

subsection \<open>Properties\<close>

text \<open>
  A call of a device function sends its request at most as often as it has attempts, and at
  most once when the function is not retransmittable; every packet it sends is the same request to
  the device; no request of the call is left pending when it returns.
\<close>

lemma call_sends_bounded_requests:
  assumes "device_call to_bytes_be n dev ns_path f params env b = (r, sent, b', es)"
  shows "length sent \<le> (if fn_retransmittable f then dev_retry_count dev else 1)
    \<and> (\<exists>data. \<forall>p\<in>set sent. to_packet to_bytes_be (dev_address dev) (bus_from_address b) [RvBytes data] = Inr p)
    \<and> set (pending_requests b') \<subseteq> set (pending_requests b)"
proof (cases "append_elements to_bytes_be params (write_blob (ns_path @ [fn_index f]) asm_new)")
  case (Inl e)
  then show ?thesis using assms by (auto simp: device_call_def)
next
  case (Inr a)
  then have "call_loop to_bytes_be n dev f (ns_path @ [fn_index f]) (asm_buffer a) (dev_retry_count dev) 0 env b None =
      (r, sent, b', es)"
    using assms by (simp add: device_call_def)
  from call_loop_requests [OF this] show ?thesis by (auto split: if_splits)
qed

text \<open>
  C18: Whatever packets arrive on the bus while it waits a call does not panic, and it ends with a
  value or an error: when every array in the type of the returned value has items that take bytes,
  there is a result that every sufficiently large number of turns of the array loops gives.
\<close>

theorem call_never_panics:
  assumes "bus_step\<^sup>*\<^sup>* (bus_new from_address) b"
  shows "fst (device_call to_bytes_be n dev ns_path f params env b) \<noteq> Some Panic \<and>
    ((\<forall>ty. fn_ret f = RetValue ty \<longrightarrow> arrays_end ty) \<longrightarrow>
      (\<exists>r N. r \<noteq> Panic \<and>
        (\<forall>n\<ge>N. fst (device_call to_bytes_be n dev ns_path f params env b) = Some r)))"
proof -
  let ?path = "ns_path @ [fn_index f]"
  have ok: "responses_ok b" using responses_ok_steps [OF assms responses_ok_new] .
  show ?thesis
  proof (cases "append_elements to_bytes_be params (write_blob ?path asm_new)")
    case (Inl e)
    then show ?thesis by (auto simp: device_call_def)
  next
    case (Inr a)
    then have call: "device_call to_bytes_be n dev ns_path f params env b =
        call_loop to_bytes_be n dev f ?path (fst (asm_done a)) (dev_retry_count dev) 0 env b None" for n
      by (simp add: device_call_def)
    show ?thesis
      unfolding call using call_loop_ends [OF _ ok] call_loop_no_panic [OF _ ok] by (metis prod.collapse)
  qed
qed

theorem call_never_panics_witness:
  "\<exists>n r. r \<noteq> Panic \<and> fst (device_call be_digits n (device_new 5) [1] (UbFunction_new 0 (RetValue (RtArray RtU16))) []
     (\<lambda>k. \<lparr>att_send = None, att_meanwhile = [[63, 5, 0, 1]], att_arrivals = [[], [0]]\<rparr>) (bus_new 63)) = Some r"
proof -
  let ?call = "\<lambda>n. device_call be_digits n (device_new 5) [1] (UbFunction_new 0 (RetValue (RtArray RtU16))) []
     (\<lambda>k. \<lparr>att_send = None, att_meanwhile = [[63, 5, 0, 1]], att_arrivals = [[], [0]]\<rparr>) (bus_new 63)"
  have "\<forall>ty. fn_ret (UbFunction_new 0 (RetValue (RtArray RtU16))) = RetValue ty \<longrightarrow> arrays_end ty"
    by (simp add: UbFunction_new_def)
  then have "\<exists>r N. r \<noteq> Panic \<and> (\<forall>n\<ge>N. fst (?call n) = Some r)"
    using call_never_panics [OF rtranclp.rtrancl_refl] by blast
  then show ?thesis by blast
qed

end
