(* ===== verification/Service.thy ===== *)
theory Service
  imports Rpc_Values
begin

text \<open>
  Serving RPC functions on the bus, \<^verbatim>\<open>rpc/service.rs\<close>.  A \<^verbatim>\<open>dyn UbService\<close> is its method \<^verbatim>\<open>call\<close>, which
  reads its parameters from the reader and may change the state \<open>'w\<close> the services work on.  The
  bridge hands its responses to the response handler and writes the log: these are its events.
\<close>

subsection \<open>Definitions\<close>

text \<open>
  A reply and a call are over the type \<open>'u\<close> of the namespaces a function can select; a service recurses
  through them.
\<close>

datatype 'u ServiceReply =
    NoReturn
  | Void
  | ReplyValue RpcValue
  | Namespace 'u

datatype ServiceError = ServicePosix u8 | Internal string

datatype 'u ServiceCall = ServiceCall (call_posix: bool) (call_result: "ServiceError + 'u ServiceReply")

datatype 'w UbService =
    UbService (service_call: "u8 \<Rightarrow> PacketReader \<Rightarrow> 'w \<Rightarrow> ('w UbService ServiceCall \<times> PacketReader) option \<times> 'w")

definition ServiceCall_plain :: "ServiceError + 'u ServiceReply \<Rightarrow> 'u ServiceCall" where
  "ServiceCall_plain result = ServiceCall False result"

definition ServiceCall_posix :: "ServiceError + 'u ServiceReply \<Rightarrow> 'u ServiceCall" where
  "ServiceCall_posix result = ServiceCall True result"

record 'w UartbusServiceBridge =
  bridge_service :: "'w UbService"
  target_address :: "i32 option"
  bridge_path :: bytes

datatype BridgeEvent = Response bytes | BridgeLog string

definition response_packet ::
  "(int \<Rightarrow> bytes) \<Rightarrow> ParsedUartBusPacket \<Rightarrow> nat \<Rightarrow> RpcValue list \<Rightarrow> BridgeEvent list" where
  "response_packet to_bytes_be request path_end vals =
     (case (case write_addressing to_bytes_be (pkt_to request) (pkt_from request) asm_new of
              Inl e \<Rightarrow> Inl e
            | Inr a \<Rightarrow>
                append_elements to_bytes_be vals
                  (write_blob (take path_end (pkt_payload request)) (write_u8 0 a))) of
        Inr a \<Rightarrow> [Response (fst (asm_done (append_crc8 a)))]
      | Inl err \<Rightarrow> [BridgeLog (''Can't build response: '' @ pack_error_text err)])"

definition bridge_warn :: "ParsedUartBusPacket \<Rightarrow> string \<Rightarrow> BridgeEvent" where
  "bridge_warn request what =
     BridgeLog (''Exception occured while servicing uartbus request `'' @ to_short_user_text request
       @ ''`: '' @ what)"

text \<open>
  The loop of \<^verbatim>\<open>feed_packet\<close>.  The argument \<open>service\<close> is \<^verbatim>\<open>self.service\<close> or the selected sub namespace.
\<close>

function serve_loop ::
  "(int \<Rightarrow> bytes) \<Rightarrow> ParsedUartBusPacket \<Rightarrow> 'w UbService \<Rightarrow> nat \<Rightarrow> 'w \<Rightarrow> BridgeEvent list \<times> 'w" where
  "serve_loop tbe request service ep w =
     (if length (pkt_payload request) \<le> ep
      then ([bridge_warn request ''request ends before the function index''], w)
      else
        let index = pkt_payload request ! ep;
            ep = ep + 1;
            path_end = ep;
            reader = reader_new (drop ep (pkt_payload request))
        in (case service_call service index reader w of
              (None, w) \<Rightarrow> ([], w)
            | (Some (call, reader), w) \<Rightarrow>
                let ep = ep + get_parse_state_index reader
                in (case call_result call of
                      Inr NoReturn \<Rightarrow> ([], w)
                    | Inr Void \<Rightarrow>
                        (response_packet tbe request path_end (if call_posix call then [RvU8 0] else []), w)
                    | Inr (ReplyValue value) \<Rightarrow>
                        (if call_posix call then response_packet tbe request path_end [RvU8 0, value]
                         else response_packet tbe request path_end [value], w)
                    | Inr (Namespace sub) \<Rightarrow> serve_loop tbe request sub ep w
                    | Inl (ServicePosix errno) \<Rightarrow>
                        (if call_posix call then response_packet tbe request path_end [RvU8 errno]
                         else [bridge_warn request (''errno '' @ show_nat (unat errno)
                                 @ '' from a function that can't report it'')], w)
                    | Inl (Internal message) \<Rightarrow> ([bridge_warn request message], w))))"
  by pat_completeness auto
termination
  by (relation "measure (\<lambda>(tbe, request, service, ep, w). length (pkt_payload request) - ep)") auto

declare serve_loop.simps [simp del]

definition feed_packet ::
  "(int \<Rightarrow> bytes) \<Rightarrow> 'w UartbusServiceBridge \<Rightarrow> bytes \<Rightarrow> 'w \<Rightarrow> BridgeEvent list \<times> 'w" where
  "feed_packet to_bytes_be bridge raw w =
     (case packet_new raw of
        Inl _ \<Rightarrow> ([], w)
      | Inr request \<Rightarrow>
          if (case target_address bridge of Some addr \<Rightarrow> addr \<noteq> pkt_to request | None \<Rightarrow> False) then ([], w)
          else if take (length (bridge_path bridge)) (pkt_payload request) \<noteq> bridge_path bridge then ([], w)
          else serve_loop to_bytes_be request (bridge_service bridge) (length (bridge_path bridge)) w)"

text \<open>\<open>n\<close> bounds the loops of \<^const>\<open>read_type\<close>; \<^const>\<open>None\<close> is a read that does not end.\<close>

definition read_param ::
  "nat \<Rightarrow> PacketReader \<Rightarrow> RpcType \<Rightarrow> (ServiceError, RpcValue \<times> PacketReader) outcome option" where
  "read_param n params ty =
     (case read_type n params ty of
        None \<Rightarrow> None
      | Some Panic \<Rightarrow> Some Panic
      | Some (Fail err) \<Rightarrow> Some (Fail (Internal (''can't read parameter: '' @ read_error_text err)))
      | Some (Ret x) \<Rightarrow> Some (Ret x))"

subsection \<open>A string as a namespace\<close>

record UbString =
  ubs_bytes :: bytes

definition UbString_new :: "string \<Rightarrow> UbString" where
  "UbString_new s = \<lparr>ubs_bytes = as_bytes s\<rparr>"

definition get_string_part :: "UbString \<Rightarrow> nat \<Rightarrow> nat \<Rightarrow> bytes" where
  "get_string_part s from len =
     (let from = min from (length (ubs_bytes s));
          to = min (from + len) (length (ubs_bytes s))
      in take (to - from) (drop from (ubs_bytes s)))"

definition param_as_usize :: "RpcValue \<Rightarrow> nat" where
  "param_as_usize value =
     (case value of
        RvVUnsigned v \<Rightarrow> (if v < 0 \<or> exceeds_usize (nat v) then nat 18446744073709551615 else nat v)
      | _ \<Rightarrow> 0)"

text \<open>
  \<^verbatim>\<open>VUnsigned\<close> is read without a loop over items, so any bound does; a failed read ends the call with its
  error and the reader as it is then.
\<close>

definition UbString_call :: "UbString \<Rightarrow> u8 \<Rightarrow> PacketReader \<Rightarrow> ('w UbService ServiceCall \<times> PacketReader) option" where
  "UbString_call s index params =
     (if index = 1 then
        Some (ServiceCall_plain (Inr (ReplyValue (RvVSigned (int (length (ubs_bytes s)))))), params)
      else if index = 2 then
        (case read_param 0 params RtVUnsigned of
           Some (Ret (from, params1)) \<Rightarrow>
             (case read_param 0 params1 RtVUnsigned of
                Some (Ret (len, params2)) \<Rightarrow>
                  Some (ServiceCall_plain (Inr (ReplyValue (RvBytes
                    (get_string_part s (param_as_usize from) (param_as_usize len))))), params2)
              | Some (Fail e) \<Rightarrow> Some (ServiceCall_plain (Inl e), params1)
              | _ \<Rightarrow> None)
         | Some (Fail e) \<Rightarrow> Some (ServiceCall_plain (Inl e), params)
         | _ \<Rightarrow> None)
      else None)"

definition UbString_service :: "UbString \<Rightarrow> 'w UbService" where
  "UbString_service s = UbService (\<lambda>index params w. (UbString_call s index params, w))"

subsection \<open>Responses\<close>

text \<open>Whatever is appended, what was written before stays.\<close>

lemma pack_loop_take:
  "take start (pack_loop neg bs req start n offset index dst) = take start dst"
  by (induction n arbitrary: offset index dst) (simp_all add: Let_def)

lemma pack_value_magnitude_take: "pack_value_magnitude neg bs dst start = Inr (m, dst') \<Longrightarrow> take start dst' = take start dst"
  by (auto simp: pack_value_magnitude_def Let_def pack_loop_take split: if_splits)

lemma pack_value_into_take: "pack_value_into tbe sg v dst start = Inr (m, dst') \<Longrightarrow> take start dst' = take start dst"
  by (auto simp: pack_value_into_def Let_def pack_value_magnitude_take
      split: if_splits sum.splits prod.splits)

lemma write_packed_value_keeps:
  assumes "write_packed_value tbe sg v a = Inr a'"
  shows "\<exists>more. asm_buffer a' = asm_buffer a @ more"
proof -
  obtain packed :: bytes and m dst where "pack_value_into tbe sg v (asm_buffer a @ replicate (length packed) 0)
      (length (asm_buffer a)) = Inr (m, dst)" "a' = a\<lparr>asm_buffer := dst\<rparr>"
    using assms unfolding write_packed_value_def Let_def by (auto split: sum.splits)
  then have "take (length (asm_buffer a)) (asm_buffer a') = asm_buffer a"
    by (auto dest: pack_value_into_take)
  then show ?thesis by (metis append_take_drop_id)
qed

lemma append_value_keeps:
  shows "append_value tbe v a = Inr a' \<Longrightarrow> \<exists>more. asm_buffer a' = asm_buffer a @ more"
    and "append_elements tbe vs a = Inr a' \<Longrightarrow> \<exists>more. asm_buffer a' = asm_buffer a @ more"
proof (induction tbe v a and tbe vs a arbitrary: a' and a' rule: append_value_append_elements.induct)
  case (16 tbe v vs a)
  then obtain a1 where a1: "append_value tbe v a = Inr a1" "append_elements tbe vs a1 = Inr a'"
    by (auto split: sum.splits)
  with 16 obtain m1 m2 where "asm_buffer a1 = asm_buffer a @ m1" "asm_buffer a' = asm_buffer a1 @ m2"
    by blast
  then show ?case by simp
qed (auto simp: write_i8_def write_i16_be_def write_u16_be_def dest: write_packed_value_keeps)

text \<open>The shape of the answer to a request.\<close>

definition is_answer_to :: "ParsedUartBusPacket \<Rightarrow> bytes \<Rightarrow> bytes \<Rightarrow> bool" where
  "is_answer_to request path raw \<longleftrightarrow>
     (\<exists>p vals. from_raw_packet_with_crc raw = Inr p \<and> fst (is_valid p)
        \<and> pkt_from p = pkt_to request \<and> pkt_to p = pkt_from request \<and> pkt_payload p = 0 # path @ vals)"

lemma packet_bytes_append: "packet_bytes tbe from to [] @ payload = packet_bytes tbe from to payload"
  by (simp add: packet_bytes_def)

lemma response_packet_answers:
  assumes tbe: "be_bytes tbe" and raw: "Response raw \<in> set (response_packet tbe request path_end vals)"
  shows "is_answer_to request (take path_end (pkt_payload request)) raw"
proof -
  let ?path = "take path_end (pkt_payload request)"
  from raw obtain a where a: "append_elements tbe vals
      (write_blob ?path (write_u8 0 \<lparr>asm_buffer = packet_bytes tbe (pkt_to request) (pkt_from request) []\<rparr>)) = Inr a"
    and r: "raw = asm_buffer a @ [crc8 (asm_buffer a)]"
    by (auto simp: response_packet_def write_addressing_new [OF tbe] split: sum.splits)
  obtain more where "asm_buffer a = packet_bytes tbe (pkt_to request) (pkt_from request) (0 # ?path @ more)"
    using append_value_keeps(2) [OF a] by (auto simp: packet_bytes_def)
  then obtain p where p: "packet_new (asm_buffer a) = Inr p" "pkt_from p = pkt_to request"
    "pkt_to p = pkt_from request" "pkt_payload p = 0 # ?path @ more"
    using packet_new_packet_bytes [OF tbe] by simp
  then show ?thesis
    unfolding is_answer_to_def r from_raw_packet_with_crc_snoc
    by (intro exI [of _ "p\<lparr>pkt_crc8 := Some (crc8 (asm_buffer a))\<rparr>"] exI [of _ more]) (simp add: is_valid_new)
qed

lemma response_packet_single: "length (response_packet tbe request path_end vals) = 1"
  by (simp add: response_packet_def split: sum.splits)

lemma serve_loop_answers:
  "serve_loop tbe request service ep w = (es, w') \<Longrightarrow> be_bytes tbe \<Longrightarrow>
    length es \<le> 1 \<and> (\<forall>raw. Response raw \<in> set es \<longrightarrow>
      (\<exists>k>ep. k \<le> length (pkt_payload request) \<and> is_answer_to request (take k (pkt_payload request)) raw))"
proof (induction tbe request service ep w rule: serve_loop.induct)
  case (1 tbe request service ep w)
  show ?case
  proof (cases "length (pkt_payload request) \<le> ep")
    case True
    then show ?thesis using 1(2) by (auto simp: serve_loop.simps [of _ request service ep w] bridge_warn_def)
  next
    case False
    have resp: "length rs \<le> 1 \<and> (\<forall>raw. Response raw \<in> set rs \<longrightarrow>
      (\<exists>k>ep. k \<le> length (pkt_payload request) \<and> is_answer_to request (take k (pkt_payload request)) raw))"
      if "rs = response_packet tbe request (Suc ep) vals" for rs vals
      using that False response_packet_answers [OF 1(3), of _ request "Suc ep" vals]
        response_packet_single [of tbe request "Suc ep" vals] by (auto intro!: exI [of _ "Suc ep"])
    let ?reader = "reader_new (drop (Suc ep) (pkt_payload request))"
    obtain called w1 where sc: "service_call service (pkt_payload request ! ep) ?reader w = (called, w1)" by force
    show ?thesis
    proof (cases called)
      case None
      then show ?thesis using 1(2) False sc by (simp add: serve_loop.simps [of _ request service ep w] Let_def)
    next
      case (Some cr)
      then obtain call reader where cr: "called = Some (call, reader)" by (cases cr) auto
      show ?thesis
      proof (cases "\<exists>sub. call_result call = Inr (Namespace sub)")
        case True
        then obtain sub where sub: "call_result call = Inr (Namespace sub)" by blast
        have loop: "serve_loop tbe request sub (Suc ep + get_parse_state_index reader) w1 = (es, w')"
          using 1(2) False sc cr sub by (simp add: serve_loop.simps [of _ request service ep w] Let_def)
        have "(called, w1) = service_call service (pkt_payload request ! ep) (reader_new (drop (ep + 1) (pkt_payload request))) w"
          using sc by simp
        from 1(1) [OF False refl refl refl refl this cr refl refl sub refl] loop 1(3)
        have ih: "length es \<le> 1" "Response raw \<in> set es \<Longrightarrow> \<exists>k>Suc ep + get_parse_state_index reader.
            k \<le> length (pkt_payload request) \<and> is_answer_to request (take k (pkt_payload request)) raw" for raw
          by simp_all
        then show ?thesis by (meson Suc_lessD add_lessD1 less_or_eq_imp_le)
      next
        case False2: False
        then show ?thesis using 1(2) False sc cr resp
          by (auto simp: serve_loop.simps [of _ request service ep w] Let_def bridge_warn_def
              split: sum.splits ServiceReply.splits ServiceError.splits if_splits)
      qed
    qed
  qed
qed


lemma get_string_part_eq: "get_string_part s from len = take len (drop from (ubs_bytes s))"
  by (cases "from \<le> length (ubs_bytes s)") (auto simp: get_string_part_def Let_def min_def)

subsection \<open>Properties\<close>

text \<open>
  C17: A request is answered at most once; an answer is a valid packet sent back from the
  requested address to the requester, and its payload is a 0 byte followed by the path of the
  request up to the selected function index, as the waiting side expects it.  A bridge with a target
  address answers only packets to that address, and a packet to another address, one that does not
  start with the path of the bridge or one that can't be parsed has no effect: nothing is sent or
  logged and the service is not called.
\<close>

theorem bridge_answers_the_requester:
  assumes "be_bytes to_bytes_be" and "feed_packet to_bytes_be bridge raw w = (es, w')"
  shows "length es \<le> 1 \<and> (\<forall>answer. Response answer \<in> set es \<longrightarrow>
      (\<exists>request p k vals. packet_new raw = Inr request \<and> from_raw_packet_with_crc answer = Inr p \<and> fst (is_valid p)
         \<and> target_address bridge \<in> {None, Some (pkt_to request)}
         \<and> pkt_from p = pkt_to request \<and> pkt_to p = pkt_from request
         \<and> length (bridge_path bridge) < k \<and> k \<le> length (pkt_payload request)
         \<and> take (length (bridge_path bridge)) (pkt_payload request) = bridge_path bridge
         \<and> pkt_payload p = 0 # take k (pkt_payload request) @ vals))
    \<and> (\<forall>request. packet_new raw = Inr request \<longrightarrow> target_address bridge \<notin> {None, Some (pkt_to request)} \<longrightarrow>
         es = [] \<and> w' = w)
    \<and> (\<forall>request. packet_new raw = Inr request \<longrightarrow>
         take (length (bridge_path bridge)) (pkt_payload request) \<noteq> bridge_path bridge \<longrightarrow> es = [] \<and> w' = w)
    \<and> (isl (packet_new raw) \<longrightarrow> es = [] \<and> w' = w)"
proof (cases "packet_new raw")
  case (Inl e)
  then show ?thesis using assms(2) by (auto simp: feed_packet_def)
next
  case (Inr request)
  show ?thesis
  proof (cases "target_address bridge \<in> {None, Some (pkt_to request)}
      \<and> take (length (bridge_path bridge)) (pkt_payload request) = bridge_path bridge")
    case True
    then have "serve_loop to_bytes_be request (bridge_service bridge) (length (bridge_path bridge)) w = (es, w')"
      using assms(2) Inr by (auto simp: feed_packet_def split: if_splits option.splits)
    note answers = serve_loop_answers [OF this assms(1), unfolded is_answer_to_def]
    then have "\<forall>answer. Response answer \<in> set es \<longrightarrow>
        (\<exists>p k vals. from_raw_packet_with_crc answer = Inr p \<and> fst (is_valid p)
           \<and> pkt_from p = pkt_to request \<and> pkt_to p = pkt_from request
           \<and> length (bridge_path bridge) < k \<and> k \<le> length (pkt_payload request)
           \<and> pkt_payload p = 0 # take k (pkt_payload request) @ vals)"
      by blast
    then show ?thesis using answers Inr True by auto
  next
    case False
    then have "es = [] \<and> w' = w"
      using assms(2) Inr by (auto simp: feed_packet_def split: if_splits option.splits)
    then show ?thesis by simp
  qed
qed

theorem bridge_answers_the_requester_witness:
  "let bridge = \<lparr>bridge_service = UbString_service \<lparr>ubs_bytes = [97, 98]\<rparr>, target_address = Some 5, bridge_path = []\<rparr>
   in feed_packet be_digits bridge [6, 63, 1] () = ([], ())
    \<and> (\<exists>answer p vals. fst (feed_packet be_digits bridge [5, 63, 1] ()) = [Response answer]
         \<and> from_raw_packet_with_crc answer = Inr p \<and> pkt_from p = 5 \<and> pkt_to p = 63 \<and> pkt_payload p = 0 # 1 # vals)"
proof -
  let ?bridge = "\<lparr>bridge_service = UbString_service \<lparr>ubs_bytes = [97, 98]\<rparr> :: unit UbService,
      target_address = Some 5, bridge_path = []\<rparr>"
  obtain es :: "BridgeEvent list" where other: "feed_packet be_digits ?bridge [6, 63, 1] () = (es, ())"
    by (metis surj_pair unit.exhaust)
  have "packet_new [6, 63, 1] = Inr \<lparr>raw_packet = [6, 63, 1], pkt_from = 63, pkt_to = 6, pkt_payload = [1],
      pkt_crc8 = None, pkt_valid_crc8 = None\<rparr>" by code_simp
  with bridge_answers_the_requester [OF be_bytes_be_digits other] have "es = []" by simp
  let ?answer = "[63, 5, 0, 1, 2, 18]"
  have sent: "feed_packet be_digits ?bridge [5, 63, 1] () = ([Response ?answer], ())" by code_simp
  have "packet_new [5, 63, 1] = Inr \<lparr>raw_packet = [5, 63, 1], pkt_from = 63, pkt_to = 5, pkt_payload = [1],
      pkt_crc8 = None, pkt_valid_crc8 = None\<rparr>" by code_simp
  with bridge_answers_the_requester [OF be_bytes_be_digits sent]
  obtain p k vals where "from_raw_packet_with_crc ?answer = Inr p" "pkt_from p = 5" "pkt_to p = 63"
    "0 < k" "k \<le> 1" "pkt_payload p = 0 # take k [1] @ vals" by auto
  then show ?thesis unfolding Let_def using other sent \<open>es = []\<close> by auto
qed

text \<open>
  The parts of a served string put together are the string: consecutive parts of any length
  that cover it give exactly its bytes, and parts behind its end are empty.
\<close>

lemma string_parts_cover_the_string:
  assumes "length (ubs_bytes s) \<le> n * k"
  shows "concat (map (\<lambda>i. get_string_part s (i * k) k) [0..<n]) = ubs_bytes s"
proof -
  have "concat (map (\<lambda>i. take k (drop (i * k) xs)) [0..<m]) = take (m * k) xs" for m and xs :: bytes
  proof (induction m)
    case (Suc m)
    then show ?case using take_add [of "m * k" k xs] by (simp add: add.commute)
  qed simp
  then show ?thesis using assms by (simp add: get_string_part_eq)
qed

end
