(* ===== verification/Remote_Call.thy ===== *)
theory Remote_Call
  imports Device Service
begin

text \<open>
  The two ends of a remote call put together: a device call on the one side, the service bridge on
  the other side of the bus.
\<close>

definition bridge_values :: "bool \<Rightarrow> RpcValue \<Rightarrow> RpcValue list" where
  "bridge_values is_posix v = (if is_posix then [RvU8 0, v] else [v])"

lemma enc_bridge_values:
  "concat (map (enc_value tbe) (bridge_values is_posix v)) = (if is_posix then [0] else []) @ enc_value tbe v"
  by (simp add: bridge_values_def)

text \<open>The answer of the bridge, as bytes.\<close>

lemma response_packet_eq:
  assumes tbe: "be_bytes tbe" and fits: "list_all (fits_value tbe) vals"
    and mem: "\<not> exceeds_usize (19 + path_end + length (concat (map (enc_value tbe) vals)))"
  shows "response_packet tbe request path_end vals =
    (let data = packet_bytes tbe (pkt_to request) (pkt_from request)
           (0 # take path_end (pkt_payload request) @ concat (map (enc_value tbe) vals))
     in [Response (data @ [crc8 data])])"
proof -
  let ?path = "take path_end (pkt_payload request)" and ?vals = "concat (map (enc_value tbe) vals)"
  let ?addr = "packet_bytes tbe (pkt_to request) (pkt_from request) []"
  define a where "a = write_blob ?path (write_u8 0 \<lparr>asm_buffer = ?addr\<rparr>)"
  have "length ?addr \<le> 18"
    using length_varint_i32 [OF tbe, of True "pkt_to request"] length_varint_i32 [OF tbe, of True "pkt_from request"]
    by (simp add: packet_bytes_def)
  then have "length (asm_buffer a) \<le> 19 + path_end" by (simp add: a_def)
  then have "\<not> exceeds_usize (length (asm_buffer a) + length ?vals)"
    using mem by (simp add: exceeds_usize_def)
  from append_value_eq(2) [OF tbe fits this] show ?thesis
    by (simp add: response_packet_def write_addressing_new [OF tbe] a_def [symmetric])
      (simp add: a_def packet_bytes_def Let_def)
qed

lemma serve_value:
  assumes "packet_new raw = Inr request" and "target_address bridge \<in> {None, Some (pkt_to request)}"
    and "pkt_payload request = bridge_path bridge @ index # params"
    and "service_call (bridge_service bridge) index (reader_new params) w =
      (Some (ServiceCall is_posix (Inr (ReplyValue v)), reader), w')"
  shows "feed_packet tbe bridge raw w =
    (response_packet tbe request (Suc (length (bridge_path bridge))) (bridge_values is_posix v), w')"
  using assms by (auto simp: feed_packet_def serve_loop.simps Let_def bridge_values_def)

lemma extract_written_value:
  assumes tbe: "be_bytes tbe" and "fn_ret f = RetValue ty" and "has_type tbe v ty" and "readable ty"
    and n: "Suc (length (enc_value tbe v)) < n" and mem: "\<not> exceeds_usize (Suc (length (enc_value tbe v)))"
  shows "extract_or_throw_result n f (concat (map (enc_value tbe) (bridge_values (fn_posix f) v))) = Some (Ret (Some v))"
proof -
  have rt: "read_type n (reader_at pre (enc_value tbe v)) ty = Some (Ret (v, reader_at (pre @ enc_value tbe v) []))"
    if "length pre \<le> 1" for pre
    using reads_backD [OF reads_back_readable [OF tbe assms(4)] assms(3), of "[]" pre n] that n mem
    by (simp add: exceeds_usize_def)
  show ?thesis
    using rt [of "[]"] rt [of "[0]"] assms(2)
    unfolding enc_bridge_values extract_or_throw_result_def Let_def reader_new_at
    by (simp add: read_return_def read_ubyte_at)
qed

text \<open>A pending request of an otherwise idle bus gets the answer.\<close>

lemma process_answer:
  assumes "pending_requests b = [t]" and "t < length (bus_transactions b)"
    and "packet_new data = Inr p" and "answers p (bus_transactions b ! t)"
    and "process_packet (data @ [crc8 data]) b = (b', es)"
  shows "ts_response (bus_transactions b' ! t) = Some (pkt_payload p)"
proof -
  have valid: "get_valid_packet (data @ [crc8 data]) = Some data"
    by (simp add: get_valid_packet_def crc8_def crc8_prefix_def)
  from assms(5) show ?thesis
    by (cases rule: process_packet_cases) (use assms(1-4) valid in auto)
qed

lemma first_attempt_returns:
  assumes "0 < left" and "env k = \<lparr>att_send = None, att_meanwhile = [], att_arrivals = [answer @ [crc8 answer]]\<rparr>"
    and "to_packet tbe (dev_address dev) (bus_from_address b) [RvBytes data] = Inr request"
    and "pending_requests b = []" and "fn_ret f \<noteq> RetNoReturn"
    and "packet_new answer = Inr p" "pkt_to p = bus_from_address b" "pkt_from p = dev_address dev"
    and "pkt_payload p = 0 # path @ vals" and "extract_or_throw_result n f vals = r"
  shows "\<exists>b' es. call_loop tbe n dev f path data left k env b last_error = (r, [request], b', es)"
proof -
  define t where "t = length (bus_transactions b)"
  obtain b1 where reg: "register (bus_from_address b) (dev_address dev) path True b = (t, b1)"
    by (simp add: register_def Let_def t_def)
  have nt: "new_transaction tbe None [] (dev_address dev) path data True b = (Inr t, [request], b1, [])"
    using reg assms(3) by (simp add: new_transaction_def)
  have b1: "pending_requests b1 = [t]" "t < length (bus_transactions b1)"
    "ts_response (bus_transactions b1 ! t) = None" "answers p (bus_transactions b1 ! t)"
    using reg assms(4,7-9) by (auto simp: register_def Let_def t_def answers_def)
  obtain b2 es2 where pp: "process_packet (answer @ [crc8 answer]) b1 = (b2, es2)" by force
  have "ensure_response [answer @ [crc8 answer]] (dev_timeout_ms dev) None t b1 = (Inr (0 # path @ vals), b2, es2)"
    using process_answer [OF b1(1,2) assms(6) b1(4) pp] b1(3) pp assms(9)
    by (simp add: ensure_response_def wait_response_def)
  then show ?thesis
    using assms(1,2,5,10) nt by (cases left) auto
qed

text \<open>
  C19: A remote call returns the value the service computes: the request the call sends is
  dispatched by the bridge to the function with the packed parameters, and when the answer of the
  bridge arrives the call returns exactly the value, through the posix error byte or without it.
\<close>

theorem remote_call_returns_the_value:
  assumes "be_bytes to_bytes_be" and "pending_requests b = []" and "0 < dev_retry_count dev"
    and "fn_ret f = RetValue ty" and "has_type to_bytes_be v ty" and "readable ty"
    and "list_all (fits_value to_bytes_be) params"
    and "target_address bridge \<in> {None, Some (dev_address dev)}"
    and "service_call (bridge_service bridge) (fn_index f)
        (reader_new (concat (map (enc_value to_bytes_be) params))) w =
      (Some (ServiceCall (fn_posix f) (Inr (ReplyValue v)), reader), w')"
    and "\<not> exceeds_usize (22 + length (bridge_path bridge) + length (concat (map (enc_value to_bytes_be) params))
        + length (enc_value to_bytes_be v))"
    and "Suc (length (enc_value to_bytes_be v)) < n"
  shows "\<exists>request answer. feed_packet to_bytes_be bridge request w = ([Response answer], w') \<and>
    (\<forall>env. env 0 = \<lparr>att_send = None, att_meanwhile = [], att_arrivals = [answer]\<rparr> \<longrightarrow>
      (\<exists>b' es. device_call to_bytes_be n dev (bridge_path bridge) f params env b =
         (Some (Ret (Some v)), [request @ [crc8 request]], b', es)))"
proof -
  define params' where "params' = concat (map (enc_value to_bytes_be) params)"
  define path where "path = bridge_path bridge @ [fn_index f]"
  define request where "request = packet_bytes to_bytes_be (bus_from_address b) (dev_address dev) (path @ params')"
  define vals where "vals = concat (map (enc_value to_bytes_be) (bridge_values (fn_posix f) v))"
  define answer where "answer = packet_bytes to_bytes_be (dev_address dev) (bus_from_address b) (0 # path @ vals)"
  note tbe = assms(1) and mem = assms(10)
  obtain rq where rq: "packet_new request = Inr rq" "pkt_to rq = dev_address dev" "pkt_from rq = bus_from_address b"
    "pkt_payload rq = bridge_path bridge @ fn_index f # params'"
    using packet_new_packet_bytes [OF tbe] by (simp add: request_def path_def)
  have fits: "list_all (fits_value to_bytes_be) (bridge_values (fn_posix f) v)"
    using has_type_fits(1) [OF tbe assms(5)] by (simp add: bridge_values_def)
  have "feed_packet to_bytes_be bridge request w =
      (response_packet to_bytes_be rq (Suc (length (bridge_path bridge))) (bridge_values (fn_posix f) v), w')"
    using rq assms(8,9) by (intro serve_value) (simp_all add: params'_def)
  moreover have "response_packet to_bytes_be rq (Suc (length (bridge_path bridge))) (bridge_values (fn_posix f) v) =
      [Response (answer @ [crc8 answer])]"
    using mem rq by (subst response_packet_eq [OF tbe fits])
      (simp_all add: enc_bridge_values exceeds_usize_def answer_def path_def vals_def Let_def)
  moreover have "\<exists>b' es. device_call to_bytes_be n dev (bridge_path bridge) f params env b =
      (Some (Ret (Some v)), [request @ [crc8 request]], b', es)"
    if env: "env 0 = \<lparr>att_send = None, att_meanwhile = [], att_arrivals = [answer @ [crc8 answer]]\<rparr>" for env
  proof -
    have "append_elements to_bytes_be params (write_blob path asm_new) = Inr \<lparr>asm_buffer = path @ params'\<rparr>"
      using append_value_eq(2) [OF tbe assms(7), of "write_blob path asm_new"] mem
      by (simp add: params'_def path_def exceeds_usize_def)
    moreover have "to_packet to_bytes_be (dev_address dev) (bus_from_address b) [RvBytes (path @ params')] =
        Inr (request @ [crc8 request])"
      using mem by (subst to_packet_eq [OF tbe])
        (simp_all add: exceeds_usize_def request_def path_def params'_def Let_def)
    moreover have "extract_or_throw_result n f vals = Some (Ret (Some v))"
      unfolding vals_def using mem assms(11)
      by (intro extract_written_value [OF tbe assms(4-6)]) (simp_all add: exceeds_usize_def)
    moreover obtain ap where "packet_new answer = Inr ap" "pkt_to ap = bus_from_address b"
      "pkt_from ap = dev_address dev" "pkt_payload ap = 0 # path @ vals"
      using packet_new_packet_bytes [OF tbe] by (simp add: answer_def)
    ultimately show ?thesis
      using first_attempt_returns [of "dev_retry_count dev" env 0 answer to_bytes_be dev b "path @ params'"
          "request @ [crc8 request]" f ap path vals n "Some (Ret (Some v))" None]
        assms(2-4) env by (simp add: device_call_def path_def)
  qed
  ultimately show ?thesis by auto
qed

theorem remote_call_returns_the_value_witness:
  "\<exists>request answer. feed_packet be_digits
      \<lparr>bridge_service = UbString_service (UbString_new ''hello''), target_address = Some 5, bridge_path = [32]\<rparr>
      request () = ([Response answer], ()) \<and>
    (\<forall>env. env 0 = \<lparr>att_send = None, att_meanwhile = [], att_arrivals = [answer]\<rparr> \<longrightarrow>
      (\<exists>b' es. device_call be_digits 10 (device_new 5) [32] (UbFunction_new 1 (RetValue RtVSigned)) [] env (bus_new 63) =
         (Some (Ret (Some (RvVSigned 5))), [request @ [crc8 request]], b', es)))"
proof -
  let ?bridge = "\<lparr>bridge_service = UbString_service (UbString_new ''hello''), target_address = Some 5, bridge_path = [32]\<rparr>"
  let ?f = "UbFunction_new 1 (RetValue RtVSigned)"
  have call: "service_call (bridge_service ?bridge) (fn_index ?f) (reader_new (concat (map (enc_value be_digits) []))) () =
      (Some (ServiceCall (fn_posix ?f) (Inr (ReplyValue (RvVSigned 5))), reader_new []), ())"
    by (simp add: UbString_service_def UbString_call_def UbFunction_new_def ServiceCall_plain_def UbString_new_def)
  have fits: "varint_fits be_digits 5" by code_simp
  have len: "length (enc_value be_digits (RvVSigned 5)) = 1" by code_simp
  show ?thesis
    using remote_call_returns_the_value [OF be_bytes_be_digits, of "bus_new 63" "device_new 5" ?f RtVSigned
        "RvVSigned 5" "[]" ?bridge "()" "reader_new []" "()" 10] call fits len
    by (simp add: bus_new_def device_new_def UbFunction_new_def exceeds_usize_def)
qed

end
