(* ===== verification/Ihex.thy ===== *)
theory Ihex
  imports Interfaces Text
begin

text \<open>
  Intel HEX files, \<^verbatim>\<open>ihex.rs\<close>: lines, files, code segments and their concatenation.  A file on disk is
  the list of its text lines.  Addresses of segments (\<^verbatim>\<open>u64\<close>) are natural numbers: lines start below
  \<open>2 ^ 16\<close>, so they do not come near the bound.  The sum of the checksum is a \<^verbatim>\<open>u16\<close> that wraps.
\<close>

subsection \<open>Lines\<close>

datatype IntelHexError =
    InvalidLine string
  | ChecksumMismatch string u8 u8
  | IntersectingData string
  | IhexIo string
  | IhexUtf8 string

fun ihex_error_text :: "IntelHexError \<Rightarrow> string" where
  "ihex_error_text (InvalidLine line) = ''invalid Intel HEX line: '' @ line"
| "ihex_error_text (ChecksumMismatch line actual expected) =
     ''checksum mismatch for '' @ line @ '': actual 0x'' @ hex2_lower actual @ '', expected 0x'' @ hex2_lower expected"
| "ihex_error_text (IntersectingData line) = ''intersecting data: '' @ line"
| "ihex_error_text (IhexIo err) = ''I/O error: '' @ err"
| "ihex_error_text (IhexUtf8 err) = ''UTF-8 error: '' @ err"
datatype RecordType =
    Data | EndOfFile | ExtendedSegmentAddress | ExtendedLinearAddress | StartLinearAddress | Unknown u8

definition record_type_from_u8 :: "u8 \<Rightarrow> RecordType" where
  "record_type_from_u8 value =
     (if value = 0 then Data else if value = 1 then EndOfFile else if value = 2 then ExtendedSegmentAddress
      else if value = 3 then ExtendedLinearAddress else if value = 4 then StartLinearAddress
      else Unknown value)"

fun record_type_as_u8 :: "RecordType \<Rightarrow> u8" where
  "record_type_as_u8 Data = 0"
| "record_type_as_u8 EndOfFile = 1"
| "record_type_as_u8 ExtendedSegmentAddress = 2"
| "record_type_as_u8 ExtendedLinearAddress = 3"
| "record_type_as_u8 StartLinearAddress = 4"
| "record_type_as_u8 (Unknown value) = value"

record IntelHexLine =
  line_raw :: bytes
  line_length :: nat
  line_address :: u32
  line_type :: RecordType
  line_data :: bytes
  line_checksum :: u8

definition sum_u16 :: "bytes \<Rightarrow> u16" where
  "sum_u16 bs = foldl (\<lambda>sum b. sum + ucast b) 0 bs"

definition checksum :: "bytes \<Rightarrow> nat \<Rightarrow> nat \<Rightarrow> u8" where
  "checksum data from to =
     (let sum = sum_u16 (take (to - from) (drop from data)) in ucast ((NOT sum AND 0xff) + 1))"

fun hex_pairs :: "string \<Rightarrow> string \<Rightarrow> IntelHexError + bytes" where
  "hex_pairs hex (h # l # rest) =
     (case to_digit 16 h of
        None \<Rightarrow> Inl (InvalidLine hex)
      | Some high \<Rightarrow>
          (case to_digit 16 l of
             None \<Rightarrow> Inl (InvalidLine hex)
           | Some low \<Rightarrow>
               (case hex_pairs hex rest of
                  Inl e \<Rightarrow> Inl e
                | Inr bs \<Rightarrow> Inr ((push_bit 4 (word_of_nat high) OR word_of_nat low) # bs))))"
| "hex_pairs hex _ = Inr []"

definition from_hex :: "string \<Rightarrow> IntelHexError + bytes" where
  "from_hex hex = (if length hex mod 2 \<noteq> 0 then Inl (InvalidLine hex) else hex_pairs hex hex)"

definition to_hex :: "bytes \<Rightarrow> string" where
  "to_hex data = concat (map hex2_upper data)"

definition IntelHexLine_new :: "string \<Rightarrow> IntelHexError + IntelHexLine" where
  "IntelHexLine_new line =
     (let trimmed = trim line
      in if trimmed = [] \<or> hd trimmed \<noteq> CHR '':'' then Inl (InvalidLine trimmed)
         else
           let hex = tl trimmed
           in if length hex < 10 \<or> list_ex (\<lambda>c. to_digit 16 c = None) hex then Inl (InvalidLine trimmed)
              else (case from_hex hex of
                      Inl e \<Rightarrow> Inl e
                    | Inr raw \<Rightarrow>
                        Inr \<lparr>line_raw = raw, line_length = unat (raw ! 0),
                             line_address = push_bit 8 (ucast (raw ! 1)) OR ucast (raw ! 2),
                             line_type = record_type_from_u8 (raw ! 3),
                             line_data = drop 4 (take (length raw - 1) raw),
                             line_checksum = last raw\<rparr>))"

definition calc_checksum :: "IntelHexLine \<Rightarrow> u8" where
  "calc_checksum line = checksum (line_raw line) 0 (length (line_raw line) - 1)"

text \<open>The hex digits of \<^verbatim>\<open>to_hex\<close> are upper case already.\<close>

definition to_line_string :: "IntelHexLine \<Rightarrow> string" where
  "to_line_string line = '':'' @ to_hex (line_raw line)"

definition to_raw_by_data :: "IntelHexLine \<Rightarrow> bytes" where
  "to_raw_by_data line =
     [word_of_nat (length (line_data line)), ucast (drop_bit 8 (line_address line) AND 0xff),
      ucast (line_address line AND 0xff), record_type_as_u8 (line_type line)]
     @ line_data line @ [line_checksum line]"

subsection \<open>Files\<close>

record IntelHexFile =
  file_lines :: "IntelHexLine list"

fun parse_lines :: "string list \<Rightarrow> IntelHexLine list \<Rightarrow> IntelHexError + IntelHexLine list" where
  "parse_lines [] acc = Inr acc"
| "parse_lines (line # lines) acc =
     (case IntelHexLine_new line of Inl e \<Rightarrow> Inl e | Inr l \<Rightarrow> parse_lines lines (acc @ [l]))"

definition from_lines :: "string list \<Rightarrow> IntelHexError + IntelHexFile" where
  "from_lines lines = (case parse_lines lines [] of Inl e \<Rightarrow> Inl e | Inr ls \<Rightarrow> Inr \<lparr>file_lines = ls\<rparr>)"

fun check_lines :: "IntelHexLine list \<Rightarrow> IntelHexError + unit" where
  "check_lines [] = Inr ()"
| "check_lines (line # lines) =
     (if line_checksum line \<noteq> calc_checksum line
      then Inl (ChecksumMismatch (to_line_string line) (line_checksum line) (calc_checksum line))
      else check_lines lines)"

definition assert_valid :: "IntelHexFile \<Rightarrow> IntelHexError + unit" where
  "assert_valid file = check_lines (file_lines file)"

text \<open>The lines of the file, or the error of opening or reading it.\<close>

definition load_file :: "string + string list \<Rightarrow> IntelHexError + IntelHexFile" where
  "load_file content =
     (case content of
        Inl e \<Rightarrow> Inl (IhexIo e)
      | Inr lines \<Rightarrow>
          (case from_lines (filter (\<lambda>line. trim line \<noteq> []) lines) of
             Inl e \<Rightarrow> Inl e
           | Inr file \<Rightarrow> (case assert_valid file of Inl e \<Rightarrow> Inl e | Inr _ \<Rightarrow> Inr file)))"

definition create_eof_line :: IntelHexLine where
  "create_eof_line = (case IntelHexLine_new '':00000001FF'' of Inr line \<Rightarrow> line)"

definition create_data_line :: "u32 \<Rightarrow> bytes \<Rightarrow> IntelHexLine" where
  "create_data_line address data =
     (let line = \<lparr>line_raw = [], line_length = length data, line_address = address, line_type = Data,
                  line_data = data, line_checksum = 0\<rparr>;
          line = line\<lparr>line_raw := to_raw_by_data line\<rparr>;
          line = line\<lparr>line_checksum := checksum (line_raw line) 0 (length (line_raw line) - 1)\<rparr>
      in line\<lparr>line_raw := to_raw_by_data line\<rparr>)"

definition push_line :: "IntelHexLine \<Rightarrow> IntelHexFile \<Rightarrow> IntelHexFile" where
  "push_line line file = file\<lparr>file_lines := file_lines file @ [line]\<rparr>"

definition get_data_size :: "IntelHexFile \<Rightarrow> nat" where
  "get_data_size file = sum_list (map (\<lambda>line. length (line_data line)) (file_lines file))"

definition write_to_file :: "IntelHexFile \<Rightarrow> string list" where
  "write_to_file file = map to_line_string (file_lines file)"

subsection \<open>Code segments\<close>

record CodeSegment =
  seg_start :: nat
  seg_end :: nat
  seg_data :: bytes
  seg_building :: bool

definition segment_new :: "nat \<Rightarrow> CodeSegment" where
  "segment_new start_address =
     \<lparr>seg_start = start_address, seg_end = start_address, seg_data = [], seg_building = True\<rparr>"

definition append_code :: "bytes \<Rightarrow> CodeSegment \<Rightarrow> CodeSegment" where
  "append_code data s = s\<lparr>seg_data := seg_data s @ data, seg_end := seg_end s + length data\<rparr>"

definition is_middle_of :: "nat \<Rightarrow> CodeSegment \<Rightarrow> bool" where
  "is_middle_of address s \<longleftrightarrow> seg_start s < address \<and> address < seg_end s"

definition end_code_write :: "CodeSegment \<Rightarrow> CodeSegment" where
  "end_code_write s = s\<lparr>seg_building := False\<rparr>"

text \<open>\<^verbatim>\<open>self.data[offset..end]\<close> panics when the offset is behind the end.\<close>

definition get_code_piece :: "nat \<Rightarrow> nat \<Rightarrow> CodeSegment \<Rightarrow> (IntelHexError, bytes) outcome" where
  "get_code_piece offset len s =
     (let end_index = min (length (seg_data s)) (offset + len)
      in if end_index < offset then Panic else Ret (take (end_index - offset) (drop offset (seg_data s))))"

text \<open>Changes the first segment that satisfies the condition.\<close>

fun update_first :: "('a \<Rightarrow> bool) \<Rightarrow> ('a \<Rightarrow> 'a) \<Rightarrow> 'a list \<Rightarrow> 'a list option" where
  "update_first P f [] = None"
| "update_first P f (x # xs) = (if P x then Some (f x # xs) else map_option ((#) x) (update_first P f xs))"

fun get_code_loop :: "IntelHexLine list \<Rightarrow> CodeSegment list \<Rightarrow> IntelHexError + CodeSegment list" where
  "get_code_loop [] segments = Inr segments"
| "get_code_loop (line # lines) segments =
     (if line_type line = EndOfFile then Inr segments
      else if line_type line \<noteq> Data then get_code_loop lines segments
      else
        let start = unat (line_address line)
        in if list_ex (is_middle_of start) segments then Inl (IntersectingData (to_line_string line))
           else (case update_first (\<lambda>s. start = seg_end s) (append_code (line_data line)) segments of
                   Some segments' \<Rightarrow> get_code_loop lines segments'
                 | None \<Rightarrow>
                     get_code_loop lines (segments @ [append_code (line_data line) (segment_new start)])))"

definition get_code :: "IntelHexFile \<Rightarrow> IntelHexError + CodeSegment list" where
  "get_code file =
     (case get_code_loop (file_lines file) [] of
        Inl e \<Rightarrow> Inl e
      | Inr segments \<Rightarrow> Inr (map end_code_write segments))"

definition saturating_add :: "nat \<Rightarrow> nat \<Rightarrow> nat" where
  "saturating_add a b = (if exceeds_usize (a + b) then nat 18446744073709551615 else a + b)"

definition hex_nibbles :: "nat \<Rightarrow> string" where
  "hex_nibbles n = (let ds = dropWhile (\<lambda>d. d = 0) (map (\<lambda>k. n div 16 ^ k mod 16) (rev [0..<16]))
     in map lower_digit_char (if ds = [] then [0] else ds))"

fun concat_loop :: "CodeSegment list \<Rightarrow> nat \<Rightarrow> u8 \<Rightarrow> CodeSegment list \<Rightarrow> IntelHexError + CodeSegment list" where
  "concat_loop [] max_gap padding_byte ret = Inr ret"
| "concat_loop (code # codes) max_gap padding_byte ret =
     (case find (is_middle_of (seg_start code)) ret of
        Some segment \<Rightarrow> Inl (IntersectingData (''0x'' @ hex_nibbles (seg_start segment)))
      | None \<Rightarrow>
          let add = (\<lambda>segment.
                let diff = seg_start code - seg_end segment
                in append_code (seg_data code)
                     (segment\<lparr>seg_data := seg_data segment @ replicate diff padding_byte\<rparr>))
          in (case update_first (\<lambda>segment. saturating_add (seg_start code) max_gap > seg_end segment) add ret of
                Some ret' \<Rightarrow> concat_loop codes max_gap padding_byte ret'
              | None \<Rightarrow>
                  concat_loop codes max_gap padding_byte (ret @ [add (segment_new (seg_start code))])))"

definition concat_segments :: "CodeSegment list \<Rightarrow> nat \<Rightarrow> u8 \<Rightarrow> IntelHexError + CodeSegment list" where
  "concat_segments codes max_gap padding_byte =
     (if length codes < 2 then Inr codes
      else (case concat_loop (sort_key seg_start codes) max_gap padding_byte [] of
              Inl e \<Rightarrow> Inl e
            | Inr ret \<Rightarrow> Inr (map end_code_write ret)))"

text \<open>The data lines of one segment, from an offset on.\<close>

function segment_lines :: "bytes \<Rightarrow> nat \<Rightarrow> nat \<Rightarrow> IntelHexLine list" where
  "segment_lines data addr offset =
     (if offset < length data
      then let to = min (offset + 16) (length data)
           in create_data_line (word_of_nat addr) (take (to - offset) (drop offset data))
              # segment_lines data (addr + (to - offset)) to
      else [])"
  by pat_completeness auto
termination by (relation "measure (\<lambda>(data, addr, offset). length data - offset)") auto

declare segment_lines.simps [simp del]

definition from_segments :: "CodeSegment list \<Rightarrow> IntelHexError + IntelHexFile" where
  "from_segments codes =
     (let file = \<lparr>file_lines = concat (map (\<lambda>code. segment_lines (seg_data code) (seg_start code) 0) codes)\<rparr>;
          file = push_line create_eof_line file
      in (case assert_valid file of Inl e \<Rightarrow> Inl e | Inr _ \<Rightarrow> Inr file))"

subsection \<open>Hex digits\<close>

lemma word_of_digits: "push_bit 4 (word_of_nat (unat b div 16)) OR word_of_nat (unat b mod 16) = (b :: u8)"
proof -
  have d: "unat b div 16 = drop_bit 4 (unat b)" "unat b mod 16 = take_bit 4 (unat b)"
    by (simp_all add: drop_bit_eq_div take_bit_eq_mod)
  show ?thesis unfolding d
    by (rule bit_word_eqI)
      (auto simp: bit_or_iff bit_push_bit_iff bit_of_nat_iff bit_drop_bit_eq bit_take_bit_iff bit_unsigned_iff)
qed

lemma hex_pairs_to_hex: "hex_pairs h (to_hex bs) = Inr bs"
proof (induction bs)
  case (Cons b bs)
  have "unat b < 16 * 16" using unsigned_less [of b] by simp
  then have "unat b div 16 < 16" "unat b mod 16 < 16" by (simp_all add: less_mult_imp_div_less)
  with Cons show ?case by (simp add: to_hex_def hex2_upper_def to_digit_digit_char word_of_digits)
qed (simp add: to_hex_def)

lemma length_to_hex [simp]: "length (to_hex bs) = 2 * length bs"
  by (induction bs) (simp_all add: to_hex_def hex2_upper_def)

definition hex_digit :: "char \<Rightarrow> bool" where
  "hex_digit c \<longleftrightarrow> (\<exists>d<16. c = digit_char d)"

lemma hex_digit_to_hex: "c \<in> set (to_hex bs) \<Longrightarrow> hex_digit c"
proof (induction bs)
  case (Cons b bs)
  have "unat b < 16 * 16" using unsigned_less [of b] by simp
  then have "unat b div 16 < 16" by (rule less_mult_imp_div_less)
  moreover have "unat b mod 16 < 16" by simp
  ultimately have "hex_digit (digit_char (unat b div 16))" "hex_digit (digit_char (unat b mod 16))"
    unfolding hex_digit_def by blast+
  with Cons show ?case by (auto simp: to_hex_def hex2_upper_def)
qed (simp add: to_hex_def)

lemma hex_digit_to_digit: "hex_digit c \<Longrightarrow> to_digit 16 c \<noteq> None"
  by (auto simp: hex_digit_def to_digit_digit_char)

lemma hex_digit_code: "hex_digit c \<Longrightarrow> 48 \<le> (of_char c :: nat) \<and> (of_char c :: nat) < 71"
  by (auto simp: hex_digit_def of_char_digit_char)

text \<open>What a line with the given bytes is parsed to.\<close>

definition line_of_raw :: "bytes \<Rightarrow> IntelHexLine" where
  "line_of_raw raw =
     \<lparr>line_raw = raw, line_length = unat (raw ! 0),
      line_address = push_bit 8 (ucast (raw ! 1)) OR ucast (raw ! 2),
      line_type = record_type_from_u8 (raw ! 3),
      line_data = drop 4 (take (length raw - 1) raw), line_checksum = last raw\<rparr>"

lemma IntelHexLine_new_to_hex:
  assumes "5 \<le> length raw"
  shows "IntelHexLine_new ('':'' @ to_hex raw) = Inr (line_of_raw raw)"
proof -
  have ne: "to_hex raw \<noteq> []" using assms length_to_hex [of raw] by (cases "to_hex raw") auto
  then have "hex_digit (last (to_hex raw))" using hex_digit_to_hex last_in_set by blast
  then have "trim ('':'' @ to_hex raw) = '':'' @ to_hex raw"
    using ne hex_digit_code [of "last (to_hex raw)"] by (intro trim_id) auto
  moreover have "\<not> list_ex (\<lambda>c. to_digit 16 c = None) (to_hex raw)"
    using hex_digit_to_hex hex_digit_to_digit by (auto simp: list_ex_iff)
  ultimately show ?thesis
    using assms by (simp add: IntelHexLine_new_def from_hex_def hex_pairs_to_hex line_of_raw_def)
qed

subsection \<open>Checksums\<close>

lemma sum_u16_append: "sum_u16 (xs @ ys) = sum_u16 xs + sum_u16 ys"
proof -
  have "foldl (\<lambda>s b. s + ucast b) (a + c) ys = a + foldl (\<lambda>s b. s + ucast b) (c :: u16) (ys :: bytes)" for a c ys
    by (induction ys arbitrary: c) (simp_all add: add.assoc)
  from this [of "sum_u16 xs" 0 ys] show ?thesis by (simp add: sum_u16_def)
qed

lemma ucast_add: "(ucast (a + b :: u16) :: u8) = ucast a + ucast b"
  by (simp add: word_uint_eq_iff uint_word_ariths unsigned_ucast_eq take_bit_eq_mod mod_simps mod_mod_cancel)

lemma complement_of_sum: "(ucast ((NOT s AND 0xff) + 1 :: u16) :: u8) = - ucast s"
proof -
  have "(0xff :: int) = mask 8" by (simp add: mask_eq_exp_minus_1)
  then have m: "bit (0xff :: int) n \<longleftrightarrow> n < 8" for n
    by (simp only: bit_mask_iff possible_bit_int simp_thms)
  have "(ucast (NOT s AND 0xff) :: u8) = NOT (ucast s)"
    by (rule bit_word_eqI) (auto simp: bit_ucast_iff bit_and_iff bit_not_iff m)
  then show ?thesis by (simp add: ucast_add minus_eq_not_plus_1)
qed

definition line_check :: "bytes \<Rightarrow> u8" where
  "line_check bs = checksum bs 0 (length bs)"

lemma checksum_eq: "checksum data 0 n = - ucast (sum_u16 (take n data))"
  by (simp add: checksum_def Let_def complement_of_sum)

interpretation ihex_sum: byte_checksum line_check
proof
  fix xs ys and a b :: u8
  assume "line_check (xs @ a # ys) = line_check (xs @ b # ys)"
  then have "(ucast (sum_u16 (xs @ [a] @ ys)) :: u8) = ucast (sum_u16 (xs @ [b] @ ys))"
    by (simp add: line_check_def checksum_eq)
  then have "(ucast (sum_u16 [a]) :: u8) = ucast (sum_u16 [b])"
    unfolding sum_u16_append ucast_add by simp
  moreover have "(ucast (ucast c :: u16) :: u8) = c" for c
    by (rule bit_word_eqI) (auto simp: bit_ucast_iff)
  ultimately show "a = b" by (simp add: sum_u16_def)
qed

lemma create_data_line_raw:
  "line_raw (create_data_line a data) =
     (let head = [word_of_nat (length data), ucast (drop_bit 8 a AND 0xff), ucast (a AND 0xff), 0] @ data
      in head @ [line_check head])"
  by (simp add: create_data_line_def to_raw_by_data_def Let_def line_check_def checksum_eq)

lemma create_data_line_valid: "calc_checksum (create_data_line a data) = line_checksum (create_data_line a data)"
  by (simp add: create_data_line_def to_raw_by_data_def Let_def calc_checksum_def checksum_eq)

lemma create_data_line_of_raw:
  assumes "length data < 256" and "unat a < 65536"
  shows "create_data_line a data = line_of_raw (line_raw (create_data_line a data))"
proof -
  have "(0xff :: int) = mask 8" by (simp add: mask_eq_exp_minus_1)
  then have m: "bit (0xff :: int) n \<longleftrightarrow> n < 8" for n
    by (simp only: bit_mask_iff possible_bit_int simp_thms)
  have "take_bit 16 (unat a) = unat a" using assms(2) by (simp add: take_bit_nat_eq_self)
  then have high: "bit a n \<Longrightarrow> n < 16" for n
    by (metis bit_take_bit_iff bit_unsigned_iff bit_imp_le_length possible_bit_nat)
  have "push_bit 8 (ucast (ucast (drop_bit 8 a AND 0xff) :: u8)) OR ucast (ucast (a AND 0xff) :: u8) = a"
    by (rule bit_word_eqI)
      (auto simp: bit_or_iff bit_push_bit_iff bit_ucast_iff bit_and_iff bit_drop_bit_eq m dest: high)
  moreover have "unat (word_of_nat (length data) :: u8) = length data"
    using assms(1) by (rule unat_of_nat_u8)
  ultimately show ?thesis
    by (simp add: line_of_raw_def create_data_line_def to_raw_by_data_def Let_def record_type_from_u8_def)
qed

subsection \<open>Writing and reading segments\<close>

text \<open>The text of a line, and parsing it.\<close>

definition well_formed_line :: "IntelHexLine \<Rightarrow> bool" where
  "well_formed_line l \<longleftrightarrow> 5 \<le> length (line_raw l) \<and> l = line_of_raw (line_raw l) \<and> line_checksum l = calc_checksum l"

lemma well_formed_line_parsed: "well_formed_line l \<Longrightarrow> IntelHexLine_new (to_line_string l) = Inr l"
  by (simp add: well_formed_line_def to_line_string_def IntelHexLine_new_to_hex del: append_Cons append_Nil)

lemma parse_well_formed_lines:
  "list_all well_formed_line ls \<Longrightarrow> parse_lines (map to_line_string ls) acc = Inr (acc @ ls)"
  by (induction ls arbitrary: acc) (simp_all add: well_formed_line_parsed)

lemma check_well_formed_lines: "list_all well_formed_line ls \<Longrightarrow> check_lines ls = Inr ()"
  by (induction ls) (simp_all add: well_formed_line_def)

lemma create_data_line_well_formed:
  "length data < 256 \<Longrightarrow> unat a < 65536 \<Longrightarrow> well_formed_line (create_data_line a data)"
proof -
  assume d: "length data < 256" "unat a < 65536"
  have "5 \<le> length (line_raw (create_data_line a data))" by (simp add: create_data_line_raw Let_def)
  with create_data_line_of_raw [OF d] create_data_line_valid [of a data] show ?thesis
    unfolding well_formed_line_def by simp
qed

lemma create_eof_line_eq: "create_eof_line = line_of_raw [0, 0, 0, 1, 255]"
proof -
  have "'':'' @ to_hex [0, 0, 0, 1, 255] = '':00000001FF''" by code_simp
  then show ?thesis
    using IntelHexLine_new_to_hex [of "[0, 0, 0, 1, 255]"] by (simp add: create_eof_line_def)
qed

lemma create_eof_line_well_formed: "well_formed_line create_eof_line" "line_type create_eof_line = EndOfFile"
  by (simp_all add: create_eof_line_eq well_formed_line_def line_of_raw_def record_type_from_u8_def
      calc_checksum_def checksum_eq sum_u16_def)

lemma load_well_formed:
  assumes "list_all well_formed_line ls"
  shows "load_file (Inr (map to_line_string ls)) = Inr \<lparr>file_lines = ls\<rparr>"
proof -
  have "trim (to_line_string l) \<noteq> []" if "well_formed_line l" for l
    using well_formed_line_parsed [OF that] by (auto simp: IntelHexLine_new_def Let_def)
  with assms have "filter (\<lambda>line. trim line \<noteq> []) (map to_line_string ls) = map to_line_string ls"
    by (auto simp: list_all_iff filter_id_conv)
  then show ?thesis
    using assms by (simp add: load_file_def from_lines_def parse_well_formed_lines assert_valid_def check_well_formed_lines)
qed

lemma segment_lines_well_formed:
  "addr + (length data - offset) \<le> 65536 \<Longrightarrow> list_all well_formed_line (segment_lines data addr offset)"
proof (induction data addr offset rule: segment_lines.induct)
  case (1 data addr offset)
  show ?case
  proof (cases "offset < length data")
    case True
    define to where "to = min (offset + 16) (length data)"
    have "unat (word_of_nat addr :: u32) = addr"
      using "1.prems" True by (simp add: unat_of_nat take_bit_nat_eq_self)
    then have "well_formed_line (create_data_line (word_of_nat addr) (take (to - offset) (drop offset data)))"
      using "1.prems" True by (intro create_data_line_well_formed) (auto simp: to_def)
    moreover have "list_all well_formed_line (segment_lines data (addr + (to - offset)) to)"
      using "1.prems" True by (intro "1.IH") (auto simp: to_def)
    ultimately show ?thesis
      using True by (subst segment_lines.simps) (simp add: to_def Let_def)
  qed (simp add: segment_lines.simps)
qed

text \<open>Addresses that no segment ends at or goes over.\<close>

definition free_range :: "CodeSegment list \<Rightarrow> nat \<Rightarrow> nat \<Rightarrow> bool" where
  "free_range segs lo hi \<longleftrightarrow> (\<forall>s\<in>set segs. \<forall>a. lo \<le> a \<and> a < hi \<longrightarrow> \<not> is_middle_of a s \<and> seg_end s \<noteq> a)"

lemma update_first_last:
  "\<forall>x\<in>set xs. \<not> P x \<Longrightarrow> update_first P f (xs @ [y]) = (if P y then Some (xs @ [f y]) else None)"
  by (induction xs) auto

lemma update_first_None: "update_first P f xs = None \<longleftrightarrow> (\<forall>x\<in>set xs. \<not> P x)"
  by (induction xs) auto

lemma line_of_data: 
  "line_type (create_data_line a data) = Data" "line_address (create_data_line a data) = a"
  "line_data (create_data_line a data) = data"
  by (simp_all add: create_data_line_def Let_def)

lemma get_code_segment_lines:
  assumes "free_range pre s0 (s0 + length data)" and "s0 + length data \<le> 65536"
    and "0 < offset" and "offset \<le> length data"
  shows "get_code_loop (segment_lines data (s0 + offset) offset @ rest)
      (pre @ [\<lparr>seg_start = s0, seg_end = s0 + offset, seg_data = take offset data, seg_building = True\<rparr>]) =
    get_code_loop rest
      (pre @ [\<lparr>seg_start = s0, seg_end = s0 + length data, seg_data = data, seg_building = True\<rparr>])"
  using assms(3,4)
proof (induction "length data - offset" arbitrary: offset rule: less_induct)
  case less
  show ?case
  proof (cases "offset < length data")
    case True
    define to where "to = min (offset + 16) (length data)"
    define chunk where "chunk = take (to - offset) (drop offset data)"
    have to: "offset < to" "to \<le> length data" using True by (auto simp: to_def)
    have len: "length chunk = to - offset" using to by (simp add: chunk_def)
    have cat: "take offset data @ chunk = take to data"
      using to by (simp add: chunk_def take_add [symmetric])
    have addr: "unat (word_of_nat (s0 + offset) :: u32) = s0 + offset"
      using assms(2) True by (simp add: unat_of_nat take_bit_nat_eq_self del: of_nat_add)
    let ?cur = "\<lparr>seg_start = s0, seg_end = s0 + offset, seg_data = take offset data, seg_building = True\<rparr>"
    have free: "\<not> is_middle_of (s0 + offset) s" "s0 + offset \<noteq> seg_end s" if "s \<in> set pre" for s
      using that assms(1) True le_add1 [of s0 offset] unfolding free_range_def by (metis add_less_cancel_left)+
    have no_middle: "\<not> list_ex (is_middle_of (s0 + offset)) (pre @ [?cur])"
      using free by (auto simp: list_ex_iff is_middle_of_def)
    have upd: "update_first (\<lambda>s. s0 + offset = seg_end s) (append_code chunk) (pre @ [?cur]) =
        Some (pre @ [append_code chunk ?cur])"
      using free by (subst update_first_last) auto
    have "segment_lines data (s0 + offset) offset =
        create_data_line (word_of_nat (s0 + offset)) chunk # segment_lines data (s0 + to) to"
      using True to by (subst segment_lines.simps) (simp add: to_def [symmetric] chunk_def Let_def)
    moreover have "append_code chunk ?cur =
        \<lparr>seg_start = s0, seg_end = s0 + to, seg_data = take to data, seg_building = True\<rparr>"
      using to len cat by (simp add: append_code_def)
    ultimately show ?thesis
      using less.hyps [of to] to no_middle upd by (simp add: line_of_data addr del: of_nat_add)
  next
    case False
    then show ?thesis using less.prems by (simp add: segment_lines.simps)
  qed
qed

lemma get_code_new_segment:
  assumes "free_range pre s0 (s0 + length data)" and "s0 + length data \<le> 65536" and "data \<noteq> []"
  shows "get_code_loop (segment_lines data s0 0 @ rest) pre =
    get_code_loop rest
      (pre @ [\<lparr>seg_start = s0, seg_end = s0 + length data, seg_data = data, seg_building = True\<rparr>])"
proof -
  define to where "to = min 16 (length data)"
  have to: "0 < to" "to \<le> length data" using assms(3) by (auto simp: to_def)
  have addr: "unat (word_of_nat s0 :: u32) = s0"
    using assms(2,3) by (simp add: unat_of_nat take_bit_nat_eq_self)
  have free: "\<not> is_middle_of s0 s" "s0 \<noteq> seg_end s" if "s \<in> set pre" for s
    using that assms(1,3) unfolding free_range_def by (metis add_less_cancel_left add_0_right le_refl length_greater_0_conv)+
  have "\<not> list_ex (is_middle_of s0) pre" using free by (auto simp: list_ex_iff)
  moreover have "update_first (\<lambda>s. s0 = seg_end s) (append_code (take to data)) pre = None"
    using free by (auto simp: update_first_None)
  moreover have "segment_lines data s0 0 =
      create_data_line (word_of_nat s0) (take to data) # segment_lines data (s0 + to) to"
    using to assms(3) by (subst segment_lines.simps) (simp add: to_def [symmetric] Let_def)
  moreover have "append_code (take to data) (segment_new s0) =
      \<lparr>seg_start = s0, seg_end = s0 + to, seg_data = take to data, seg_building = True\<rparr>"
    using to by (simp add: append_code_def segment_new_def)
  ultimately show ?thesis
    using get_code_segment_lines [OF assms(1,2) to, of rest] by (simp add: line_of_data addr)
qed

text \<open>A segment as it is read from a file, and segments with gaps between them.\<close>

definition loaded_segment :: "CodeSegment \<Rightarrow> bool" where
  "loaded_segment s \<longleftrightarrow> seg_data s \<noteq> [] \<and> seg_end s = seg_start s + length (seg_data s)
     \<and> seg_end s \<le> 65536 \<and> \<not> seg_building s"

definition separate :: "CodeSegment \<Rightarrow> CodeSegment \<Rightarrow> bool" where
  "separate a b \<longleftrightarrow> seg_end a < seg_start b \<or> seg_end b < seg_start a"

lemma get_code_segments:
  assumes "list_all loaded_segment codes" and "sorted_wrt separate (pre @ codes)" and "list_all loaded_segment pre"
    and "line_type eof = EndOfFile"
  shows "get_code_loop (concat (map (\<lambda>code. segment_lines (seg_data code) (seg_start code) 0) codes) @ [eof])
      (map (\<lambda>s. s\<lparr>seg_building := True\<rparr>) pre) = Inr (map (\<lambda>s. s\<lparr>seg_building := True\<rparr>) (pre @ codes))"
  using assms(1-3)
proof (induction codes arbitrary: pre)
  case Nil
  then show ?case using assms(4) by simp
next
  case (Cons c codes)
  let ?b = "\<lambda>s. s\<lparr>seg_building := True\<rparr>"
  have c: "seg_data c \<noteq> []" "seg_end c = seg_start c + length (seg_data c)" "seg_end c \<le> 65536"
    using Cons.prems(1) by (simp_all add: loaded_segment_def)
  have free: "free_range (map ?b pre) (seg_start c) (seg_start c + length (seg_data c))"
    unfolding free_range_def
  proof (intro ballI allI impI)
    fix s a
    assume "s \<in> set (map ?b pre)" and a: "seg_start c \<le> a \<and> a < seg_start c + length (seg_data c)"
    then obtain s' where s': "s' \<in> set pre" and s: "s = ?b s'" by auto
    have "separate s' c" using Cons.prems(2) s' by (simp add: sorted_wrt_append)
    moreover have "seg_start s' \<le> seg_end s'" using Cons.prems(3) s' by (auto simp: list_all_iff loaded_segment_def)
    ultimately show "\<not> is_middle_of a s \<and> seg_end s \<noteq> a"
      using a c(2) by (auto simp: s is_middle_of_def separate_def)
  qed
  have b: "\<lparr>seg_start = seg_start c, seg_end = seg_start c + length (seg_data c), seg_data = seg_data c,
      seg_building = True\<rparr> = ?b c"
    using c(2) by (cases c) simp
  have rest: "get_code_loop (concat (map (\<lambda>code. segment_lines (seg_data code) (seg_start code) 0) codes) @ [eof])
      (map ?b (pre @ [c])) = Inr (map ?b ((pre @ [c]) @ codes))"
    using Cons.prems by (intro Cons.IH) auto
  show ?case
    using get_code_new_segment [of "map ?b pre" "seg_start c" "seg_data c"] c free rest unfolding b by simp
qed

lemma segments_in_file:
  assumes "list_all loaded_segment codes" and "sorted_wrt separate codes"
  shows "\<exists>file. from_segments codes = Inr file \<and> load_file (Inr (write_to_file file)) = Inr file
    \<and> get_code file = Inr codes"
proof -
  define ls where "ls = concat (map (\<lambda>code. segment_lines (seg_data code) (seg_start code) 0) codes) @ [create_eof_line]"
  have "list_all well_formed_line (segment_lines (seg_data c) (seg_start c) 0)" if "c \<in> set codes" for c
    using that assms(1) by (intro segment_lines_well_formed) (auto simp: list_all_iff loaded_segment_def)
  then have wf: "list_all well_formed_line ls"
    using create_eof_line_well_formed(1) by (auto simp: ls_def list_all_iff)
  have "from_segments codes = Inr \<lparr>file_lines = ls\<rparr>"
    using check_well_formed_lines [OF wf]
    by (simp add: from_segments_def push_line_def assert_valid_def ls_def)
  moreover have "load_file (Inr (write_to_file \<lparr>file_lines = ls\<rparr>)) = Inr \<lparr>file_lines = ls\<rparr>"
    using load_well_formed [OF wf] by (simp add: write_to_file_def)
  moreover have "get_code_loop ls [] = Inr (map (\<lambda>s. s\<lparr>seg_building := True\<rparr>) codes)"
    using get_code_segments [OF assms(1), of "[]" create_eof_line] assms(2) create_eof_line_well_formed(2)
    by (simp add: ls_def)
  moreover have "map (end_code_write \<circ> (\<lambda>s. s\<lparr>seg_building := True\<rparr>)) codes = codes"
    using assms(1) by (intro map_idI) (auto simp: list_all_iff loaded_segment_def end_code_write_def)
  ultimately show ?thesis by (auto simp: get_code_def)
qed

subsection \<open>Properties\<close>

text \<open>
  C20: Code segments with gaps between them survive writing to an Intel HEX file and loading it:
  the file is written, its text is loaded back to the same lines with valid checksums, and the
  code read from it is exactly the segments.
\<close>

theorem segments_survive_the_file:
  assumes "list_all loaded_segment codes" and "sorted_wrt separate codes"
  shows "\<exists>file. from_segments codes = Inr file \<and> load_file (Inr (write_to_file file)) = Inr file
    \<and> get_code file = Inr codes"
  using assms by (rule segments_in_file)

theorem segments_survive_the_file_witness:
  "\<exists>file. from_segments
      [\<lparr>seg_start = 4, seg_end = 7, seg_data = [1, 2, 3], seg_building = False\<rparr>,
       \<lparr>seg_start = 0, seg_end = 1, seg_data = [9], seg_building = False\<rparr>] = Inr file
    \<and> load_file (Inr (write_to_file file)) = Inr file
    \<and> get_code file = Inr
      [\<lparr>seg_start = 4, seg_end = 7, seg_data = [1, 2, 3], seg_building = False\<rparr>,
       \<lparr>seg_start = 0, seg_end = 1, seg_data = [9], seg_building = False\<rparr>]"
  by (rule segments_survive_the_file) (simp_all add: loaded_segment_def separate_def)

text \<open>
  A file in which one byte of one record was changed (the hex digits stay digits) is rejected
  when it is loaded.
\<close>

lemma corrupted_record_is_rejected:
  assumes "well_formed_line l" and "i < length (line_raw l)" and "b \<noteq> line_raw l ! i"
    and "l' = line_of_raw ((line_raw l)[i := b])"
  shows "assert_valid \<lparr>file_lines = ls @ [l'] @ ls'\<rparr> \<noteq> Inr ()"
proof -
  let ?raw = "line_raw l" and ?raw' = "(line_raw l)[i := b]"
  have "take (length xs - 1) xs = butlast xs" for xs :: bytes by (simp add: butlast_conv_take)
  then have check: "calc_checksum (line_of_raw xs) = line_check (butlast xs)" for xs
    by (simp add: calc_checksum_def line_of_raw_def line_check_def checksum_eq)
  have raw: "?raw \<noteq> []" using assms(2) by auto
  have "line_checksum l = last ?raw" using assms(1) by (metis line_of_raw_def well_formed_line_def IntelHexLine.select_convs(6))
  then have "last ?raw = line_check (butlast ?raw)"
    using assms(1) check [of ?raw] by (simp add: well_formed_line_def)
  then have "?raw = butlast ?raw @ [line_check (butlast ?raw)]" using raw by (metis append_butlast_last_id)
  then have "last ?raw' \<noteq> line_check (butlast ?raw')"
    using assms(2,3) by (rule ihex_sum.corrupted_byte_detected)
  then have "line_checksum l' \<noteq> calc_checksum l'"
    unfolding assms(4) check by (simp add: line_of_raw_def)
  then have "check_lines (ls @ [l'] @ ls') \<noteq> Inr ()" by (induction ls) simp_all
  then show ?thesis by (simp add: assert_valid_def)
qed

text \<open>
  C21: Concatenating three segments puts the last one to a wrong place: the padding before the
  second segment is not counted in the end address, so it is added once more before the third one.
  This happens for every maximal gap, even if the gaps are longer.
\<close>

theorem third_segment_is_displaced:
  assumes "seg_end a = seg_start a + length (seg_data a)" and "0 < max_gap" and "\<not> exceeds_usize (seg_start c + max_gap)"
    and "seg_end a \<le> seg_start b" and "seg_start b + length (seg_data b) \<le> seg_start c"
  shows "concat_segments [a, b, c] max_gap padding_byte =
    Inr [\<lparr>seg_start = seg_start a, seg_end = seg_start a + length (seg_data a) + length (seg_data b) + length (seg_data c),
          seg_data = seg_data a @ replicate (seg_start b - seg_end a) padding_byte @ seg_data b
            @ replicate ((seg_start b - seg_end a) + (seg_start c - (seg_start b + length (seg_data b)))) padding_byte
            @ seg_data c,
          seg_building = False\<rparr>]"
proof -
  have sorted: "sort_key seg_start [a, b, c] = [a, b, c]"
    using assms(1,4,5) by (intro sort_key_id_if_sorted) auto
  have mem: "\<not> exceeds_usize (seg_start a + max_gap)" "\<not> exceeds_usize (seg_start b + max_gap)"
    using assms by (auto simp: exceeds_usize_def)
  show ?thesis
    using assms mem unfolding concat_segments_def sorted
    by (simp add: is_middle_of_def saturating_add_def append_code_def segment_new_def end_code_write_def Let_def
        not_less)
qed

theorem third_segment_is_displaced_witness:
  "concat_segments
     [\<lparr>seg_start = 0, seg_end = 1, seg_data = [1], seg_building = False\<rparr>,
      \<lparr>seg_start = 3, seg_end = 4, seg_data = [2], seg_building = False\<rparr>,
      \<lparr>seg_start = 5, seg_end = 6, seg_data = [3], seg_building = False\<rparr>] 1 255 =
   Inr [\<lparr>seg_start = 0, seg_end = 3, seg_data = [1, 255, 255, 2, 255, 255, 255, 3], seg_building = False\<rparr>]"
  by (subst third_segment_is_displaced) (simp_all add: exceeds_usize_def numeral_2_eq_2 numeral_3_eq_3)

end
