(* ===== verification/Cli.thy ===== *)
theory Cli
  imports Packet "HOL-Library.RBT" "HOL-Library.Char_ord" "HOL-Library.List_Lexorder"
begin

text \<open>
  Command line options, \<^verbatim>\<open>cli.rs\<close>, and what the subcommands share, \<^verbatim>\<open>apps/mod.rs\<close> and \<^verbatim>\<open>main.rs\<close>.
  \<^verbatim>\<open>BTreeMap\<close> is the red black tree of the library, whose entries are ordered by their keys as well;
  Rust orders strings by their bytes, which is the lexicographic order of the character lists.
  What a program prints and its exit code are values: \<open>('a) run\<close> is either the exit of the process
  with the text on its error output or the value the code goes on with.
\<close>

subsection \<open>Options\<close>

type_synonym CliArgs = "(string, string list) rbt"

type_synonym 'a run = "(int \<times> string) + 'a"

record CliEntry =
  names :: "string list"
  description :: string

definition newline :: string where
  "newline = [CHR 0x0A]"

definition tab :: string where
  "tab = [CHR 0x09]"

definition is_ascii_digit :: "char \<Rightarrow> bool" where
  "is_ascii_digit c = (let n = of_char c :: nat in 48 \<le> n \<and> n \<le> 57)"

definition is_option :: "string \<Rightarrow> bool" where
  "is_option arg =
     (case strip_prefix ''-'' arg of
        Some rest \<Rightarrow> rest = [] \<or> \<not> list_all is_ascii_digit rest
      | None \<Rightarrow> False)"

fun parse_opts_loop :: "string list \<Rightarrow> CliArgs \<Rightarrow> string option \<Rightarrow> string + CliArgs" where
  "parse_opts_loop [] params current = Inr params"
| "parse_opts_loop (arg # args) params current =
     (if is_option arg
      then if length arg < 2 then Inl (''Error at argument '' @ arg)
           else parse_opts_loop args (RBT.insert (drop 1 arg) [] params) (Some (drop 1 arg))
      else (case current of
              Some name \<Rightarrow> parse_opts_loop args (RBT.map_entry name (\<lambda>vs. vs @ [arg]) params) current
            | None \<Rightarrow> Inl (''Illegal parameter usage: '' @ arg)))"

definition parse_cli_opts :: "string list \<Rightarrow> string + CliArgs" where
  "parse_cli_opts args = parse_opts_loop args RBT.empty None"

definition has_option :: "CliEntry \<Rightarrow> CliArgs \<Rightarrow> bool" where
  "has_option self args = list_ex (\<lambda>name. RBT.lookup args name \<noteq> None) (names self)"

definition get_simple :: "CliEntry \<Rightarrow> CliArgs \<Rightarrow> string option" where
  "get_simple self args =
     (case concat (List.map_filter (RBT.lookup args) (names self)) of [] \<Rightarrow> None | v # _ \<Rightarrow> Some v)"

definition render :: "CliEntry \<Rightarrow> string" where
  "render self = tab @ join_with '', '' (map (\<lambda>name. ''-'' @ name) (names self)) @ tab @ tab @ description self"

definition cli_parse :: "(string \<Rightarrow> 't option) \<Rightarrow> CliEntry \<Rightarrow> CliArgs \<Rightarrow> string + 't option" where
  "cli_parse from_str self args =
     (case get_simple self args of
        Some v \<Rightarrow>
          (case from_str v of
             Some x \<Rightarrow> Inr (Some x)
           | None \<Rightarrow> Inl (''Error on parsing CliEntry: '' @ trim (render self) @ '' (value: `'' @ v @ ''`)''))
      | None \<Rightarrow> Inr None)"

definition parse_or :: "(string \<Rightarrow> 't option) \<Rightarrow> CliEntry \<Rightarrow> CliArgs \<Rightarrow> 't \<Rightarrow> string + 't" where
  "parse_or from_str self args dflt =
     (case cli_parse from_str self args of
        Inl e \<Rightarrow> Inl e
      | Inr v \<Rightarrow> Inr (case v of Some x \<Rightarrow> x | None \<Rightarrow> dflt))"

definition render_list_all_option :: "CliEntry list \<Rightarrow> string" where
  "render_list_all_option entries = concat (map (\<lambda>entry. render entry @ newline) entries)"

definition first_unknown_param :: "CliArgs \<Rightarrow> CliEntry list \<Rightarrow> string option" where
  "first_unknown_param args entries =
     find (\<lambda>name. \<not> list_ex (\<lambda>e. name \<in> set (names e)) entries) (RBT.keys args)"

definition print_help_and_exit :: "string \<Rightarrow> int \<Rightarrow> CliEntry list \<Rightarrow> 'a run" where
  "print_help_and_exit program exit_code entries =
     Inl (exit_code, ''Usage of '' @ program @ '':'' @ newline @ newline
       @ render_list_all_option entries @ newline)"

definition eprintln :: "string \<Rightarrow> 'a run \<Rightarrow> 'a run" where
  "eprintln message r = (case r of Inl (code, err) \<Rightarrow> Inl (code, message @ newline @ err) | Inr x \<Rightarrow> Inr x)"

definition parse_or_help :: "string \<Rightarrow> string list \<Rightarrow> CliEntry list \<Rightarrow> CliArgs run" where
  "parse_or_help program args entries =
     (case parse_cli_opts args of
        Inl err \<Rightarrow> eprintln err (print_help_and_exit program 1 entries)
      | Inr parsed \<Rightarrow>
          if first_unknown_param parsed entries \<noteq> None then print_help_and_exit program 1 entries
          else Inr parsed)"

subsection \<open>The shared options\<close>

definition SERIAL_BAUD :: CliEntry where
  "SERIAL_BAUD = \<lparr>names = [''b'', ''-baud''], description = ''Serial baud rate''\<rparr>"

definition RPC_HOST :: CliEntry where
  "RPC_HOST = \<lparr>names = [''h'', ''-host''], description = ''Rpc server IP''\<rparr>"

definition RPC_PORT :: CliEntry where
  "RPC_PORT = \<lparr>names = [''p'', ''-port''], description = ''Rpc port''\<rparr>"

definition FROM :: CliEntry where
  "FROM = \<lparr>names = [''f'', ''-from''], description = ''Uartbus from address''\<rparr>"

definition TO :: CliEntry where
  "TO = \<lparr>names = [''t'', ''-to''], description = ''Uartbus to address''\<rparr>"

definition LOOPBACK :: CliEntry where
  "LOOPBACK = \<lparr>names = [''x'', ''-loopback-sent''], description = ''Show sent packet''\<rparr>"

definition WORK_DIR :: CliEntry where
  "WORK_DIR = \<lparr>names = [''d'', ''-working-directory''], description = ''Working directory''\<rparr>"

definition LOG_TIME :: CliEntry where
  "LOG_TIME = \<lparr>names = [''l'', ''-log-times''], description = ''Log times''\<rparr>"

definition RECONNECT :: CliEntry where
  "RECONNECT = \<lparr>names = [''r'', ''-reconnect''], description = ''Reconnect''\<rparr>"

definition DECODE_PACKET :: CliEntry where
  "DECODE_PACKET = \<lparr>names = [''D'', ''-decode-packet''], description = ''Decode packet''\<rparr>"

definition DEFAULT_FROM_ADDRESS :: i32 where
  "DEFAULT_FROM_ADDRESS = 63"

definition DEFAULT_RPC_HOST :: string where
  "DEFAULT_RPC_HOST = ''127.0.0.1''"

definition DEFAULT_RPC_PORT :: u16 where
  "DEFAULT_RPC_PORT = 2112"

definition parse_u16 :: "string \<Rightarrow> u16 option" where
  "parse_u16 s = map_option word_of_int (parse_int 10 False 0 65535 s)"

definition parse_from :: "CliArgs \<Rightarrow> string + i32" where
  "parse_from args = parse_or parse_i32 FROM args DEFAULT_FROM_ADDRESS"

definition parse_host :: "CliArgs \<Rightarrow> string" where
  "parse_host args = (case get_simple RPC_HOST args of Some h \<Rightarrow> h | None \<Rightarrow> DEFAULT_RPC_HOST)"

definition parse_port :: "CliArgs \<Rightarrow> string + u16" where
  "parse_port args = parse_or parse_u16 RPC_PORT args DEFAULT_RPC_PORT"

subsection \<open>What the subcommands share\<close>

text \<open>
  The result of a subcommand: what it printed and how it ended.  \<^verbatim>\<open>AppError\<close> is the text of the boxed
  error; the entry points of the subcommands are an argument of \<open>ub_main\<close>.
\<close>

datatype AppEnd = AppOk | AppErr string | AppExit int

record AppRun =
  app_out :: string
  app_err :: string
  app_end :: AppEnd

definition COMMANDS :: "(string \<times> string) list" where
  "COMMANDS =
     [(''rpcServer'', ''Connects the bus gateway and serves the bus to the other commands on TCP''),
      (''console'', ''Shows the packets of the bus and sends the ones typed in''),
      (''ping'', ''Sends ping packets to a device''),
      (''packetloss'', ''Measures the packet loss between the gateway and a device''),
      (''collisionPacketloss'', ''Measures loss and duplication when every device answers a broadcast''),
      (''upload'', ''Uploads application code (Intel HEX) into a device''),
      (''ihex'', ''Intel HEX utilities: validate, size, replace_interrupts''),
      (''blink'', ''Toggles the user led of a device periodically''),
      (''logSql'', ''Saves the packets of the bus into an SQL table''),
      (''logFile'', ''Saves the packets of the bus into rotated log files''),
      (''attachProcess'', ''Connects the stdin/stdout of a program to the bus''),
      (''grab'', ''Restarts a device and keeps it in the host program (application not started)''),
      (''reboot'', ''Restarts a device''),
      (''version'', ''Prints the version''),
      (''service'', ''Services provided on the bus by this machine: ftp'')]"

text \<open>The version of the package is a constant of the build.\<close>

definition version_main :: "string \<Rightarrow> string list \<Rightarrow> AppRun" where
  "version_main version args =
     \<lparr>app_out = ''Uartbus Cli version: '' @ newline @ version @ newline, app_err = '''', app_end = AppOk\<rparr>"

definition render_command_list :: string where
  "render_command_list =
     ''Usage: ub <command> [options]'' @ newline @ newline @ ''Commands:'' @ newline
     @ concat (map (\<lambda>(name, desc). tab @ name @ tab @ tab @ desc @ newline) COMMANDS)"

definition print_packet_stdout :: "bytes \<Rightarrow> string" where
  "print_packet_stdout data =
     (if data = [] then ''''
      else (if is_packet_crc8_valid data then '''' else ''!'') @ format_colon_data data @ newline)"

text \<open>\<^verbatim>\<open>format_double\<close> from the text with two fraction digits on, which the standard library makes.\<close>

definition format_double :: "string \<Rightarrow> string" where
  "format_double two_digits =
     (let txt = trim_end_matches (CHR ''.'') (trim_end_matches (CHR ''0'') two_digits)
      in if txt = '''' \<or> txt = ''-'' \<or> txt = ''-0'' then ''0'' else txt)"

definition apps_to_hex :: "bytes \<Rightarrow> string" where
  "apps_to_hex data = concat (map hex2_lower data)"

text \<open>
  Sleeping in steps: \<open>interrupted n\<close> tells whether the interrupt flag is set at its \<open>n\<close>-th reading.
  The result is the steps that were slept and whether the sleep was undisturbed.
\<close>

function sleep_loop :: "(nat \<Rightarrow> bool) \<Rightarrow> nat \<Rightarrow> nat \<Rightarrow> nat list \<times> nat" where
  "sleep_loop interrupted n left =
     (if left = 0 then ([], n)
      else if interrupted n then ([], n + 1)
      else let step = min left 50; (steps, n') = sleep_loop interrupted (n + 1) (left - step)
           in (step # steps, n'))"
  by pat_completeness auto
termination by (relation "measure (\<lambda>(interrupted, n, left). left)") auto

definition sleep_interruptible :: "(nat \<Rightarrow> bool) \<Rightarrow> nat \<Rightarrow> nat list \<times> bool" where
  "sleep_interruptible interrupted ms =
     (let (steps, n) = sleep_loop interrupted 0 ms in (steps, \<not> interrupted n))"

declare sleep_loop.simps [simp del]

definition ub_main :: "(string \<Rightarrow> string list \<Rightarrow> AppRun) \<Rightarrow> string list \<Rightarrow> AppRun" where
  "ub_main command args =
     (case args of
        [] \<Rightarrow> \<lparr>app_out = '''', app_err = render_command_list, app_end = AppExit 1\<rparr>
      | name # rest \<Rightarrow>
          (case find (\<lambda>(command, _). command = name) COMMANDS of
             None \<Rightarrow>
               \<lparr>app_out = '''',
                app_err = ''Method not found: '' @ name @ newline @ newline @ render_command_list,
                app_end = AppExit 1\<rparr>
           | Some _ \<Rightarrow>
               (let r = command name rest
                in case app_end r of
                     AppErr err \<Rightarrow> r\<lparr>app_err := app_err r @ err @ newline, app_end := AppExit 1\<rparr>
                   | _ \<Rightarrow> r)))"

subsection \<open>Lemmas\<close>

lemma parse_opts_values:
  assumes "list_all (\<lambda>v. \<not> is_option v) vs" and "RBT.lookup params name = Some ws"
  shows "\<exists>params'. parse_opts_loop (vs @ args) params (Some name) = parse_opts_loop args params' (Some name)
    \<and> RBT.lookup params' = (RBT.lookup params)(name \<mapsto> ws @ vs)"
  using assms
proof (induction vs arbitrary: params ws)
  case Nil
  then show ?case by (intro exI [of _ params]) (simp add: fun_upd_idem)
next
  case (Cons v vs)
  let ?p = "RBT.map_entry name (\<lambda>vs. vs @ [v]) params"
  have look: "RBT.lookup ?p = (RBT.lookup params)(name \<mapsto> ws @ [v])" using Cons.prems(2) by simp
  then have "RBT.lookup ?p name = Some (ws @ [v])" by simp
  then obtain params' where "parse_opts_loop (vs @ args) ?p (Some name) = parse_opts_loop args params' (Some name)"
    and "RBT.lookup params' = (RBT.lookup ?p)(name \<mapsto> (ws @ [v]) @ vs)"
    using Cons.IH [of ?p "ws @ [v]"] Cons.prems(1) unfolding list.pred_inject by blast
  then show ?case using Cons.prems(1) look by (intro exI [of _ params']) (simp del: RBT.lookup_map_entry)
qed

text \<open>A command line written as options with their values, and what makes it well formed.\<close>

definition option_args :: "(string \<times> string list) list \<Rightarrow> string list" where
  "option_args opts = concat (map (\<lambda>(name, vs). (''-'' @ name) # vs) opts)"

definition option_group :: "string \<times> string list \<Rightarrow> bool" where
  "option_group opt \<longleftrightarrow> fst opt \<noteq> [] \<and> is_option (''-'' @ fst opt) \<and> list_all (\<lambda>v. \<not> is_option v) (snd opt)"

lemma parse_option_groups:
  assumes "list_all option_group opts"
  shows "\<exists>params'. parse_opts_loop (option_args opts) params current = Inr params'
    \<and> RBT.lookup params' = RBT.lookup params ++ map_of (rev opts)"
  using assms
proof (induction opts arbitrary: params current)
  case Nil
  then show ?case by (simp add: option_args_def)
next
  case (Cons opt opts)
  obtain name vs where opt: "opt = (name, vs)" by (cases opt)
  let ?p = "RBT.insert name [] params"
  obtain p where p: "parse_opts_loop (vs @ option_args opts) ?p (Some name) = parse_opts_loop (option_args opts) p (Some name)"
    "RBT.lookup p = (RBT.lookup ?p)(name \<mapsto> [] @ vs)"
    using parse_opts_values [of vs ?p name "[]" "option_args opts"] Cons.prems by (auto simp: opt option_group_def)
  obtain q where q: "parse_opts_loop (option_args opts) p (Some name) = Inr q"
    "RBT.lookup q = RBT.lookup p ++ map_of (rev opts)"
    using Cons.IH Cons.prems by fastforce
  have "option_args (opt # opts) = (''-'' @ name) # vs @ option_args opts" by (simp add: option_args_def opt)
  moreover have "is_option (''-'' @ name)" "name \<noteq> []" using Cons.prems by (simp_all add: opt option_group_def)
  ultimately show ?case using p q by (intro exI [of _ q]) (simp add: opt map_add_assoc Suc_le_eq not_less)
qed

lemma option_groups_of_accepted:
  "parse_opts_loop args params current = Inr p \<Longrightarrow>
   \<exists>vs opts. args = vs @ option_args opts \<and> list_all (\<lambda>v. \<not> is_option v) vs \<and> list_all option_group opts
     \<and> (current = None \<longrightarrow> vs = [])"
proof (induction args params current rule: parse_opts_loop.induct)
  case (1 params current)
  then show ?case by (intro exI [of _ "[]"]) (simp add: option_args_def)
next
  case (2 arg args params current)
  show ?case
  proof (cases "is_option arg")
    case True
    then obtain vs opts where "args = vs @ option_args opts" "list_all (\<lambda>v. \<not> is_option v) vs" "list_all option_group opts"
      using 2 by (fastforce split: if_splits)
    moreover obtain name where "arg = ''-'' @ name" "name \<noteq> []"
      using True "2.prems" by (cases arg; auto simp: is_option_def strip_prefix_def split: if_splits)
    ultimately show ?thesis
      using True by (intro exI [of _ "[] :: string list"] exI [of _ "(name, vs) # opts"])
        (auto simp: option_args_def option_group_def [of "(name, vs)"])
  next
    case False
    with 2 obtain name where current: "current = Some name" by (auto split: option.splits)
    with False 2 obtain vs opts where "args = vs @ option_args opts" "list_all (\<lambda>v. \<not> is_option v) vs" "list_all option_group opts"
      by auto
    then show ?thesis using False current by (intro exI [of _ "arg # vs"] exI [of _ opts]) simp
  qed
qed

subsection \<open>Properties\<close>

text \<open>
  The command lines that are accepted are exactly the sequences of options with their values,
  and the parsed options hold for every name the values of its last occurrence; a minus sign with
  digits only is a value.
\<close>

lemma parse_cli_opts_reads_options:
  "((\<exists>params. parse_cli_opts args = Inr params) \<longleftrightarrow> (\<exists>opts. list_all option_group opts \<and> args = option_args opts))
   \<and> (list_all option_group opts \<longrightarrow>
       (\<exists>params. parse_cli_opts (option_args opts) = Inr params \<and> RBT.lookup params = map_of (rev opts)))"
proof -
  have read: "\<exists>params. parse_cli_opts (option_args opts) = Inr params \<and> RBT.lookup params = map_of (rev opts)"
    if "list_all option_group opts" for opts
    using parse_option_groups [OF that, of RBT.empty None] by (simp add: parse_cli_opts_def)
  moreover have "(\<exists>params. parse_cli_opts args = Inr params) \<longleftrightarrow> (\<exists>opts. list_all option_group opts \<and> args = option_args opts)"
    using option_groups_of_accepted [of args RBT.empty None] read by (fastforce simp: parse_cli_opts_def)
  ultimately show ?thesis by blast
qed

end
