(* ===== verification/Ihex_App.thy ===== *)
theory Ihex_App
  imports Ihex Cli
begin

text \<open>
  The Intel HEX utilities, \<^verbatim>\<open>apps/ihex.rs\<close>: validate and measure a file, and redirect the interrupt
  vectors of a host program into the vector table of the application.  The file system is a
  map from paths to the text lines of the files; the text of a failed
  open, and which paths cannot be created, are arguments.
\<close>

subsection \<open>Vectors\<close>

definition FIRST_VECTOR :: nat where
  "FIRST_VECTOR = 4"

function vector_loop :: "bytes \<Rightarrow> nat \<Rightarrow> (nat \<times> u32) list" where
  "vector_loop data addr =
     (if addr + 4 \<le> length data
      then if data ! addr \<noteq> 0x0c \<or> data ! (addr + 1) \<noteq> 0x94 then []
           else let dst = (push_bit 8 (ucast (data ! (addr + 3))) OR ucast (data ! (addr + 2))) * 2
                in (addr, dst) # vector_loop data (addr + 4)
      else [])"
  by pat_completeness auto
termination by (relation "measure (\<lambda>(data, addr). length data - addr)") auto

declare vector_loop.simps [simp del]

definition vector_destinations :: "bytes \<Rightarrow> (nat \<times> u32) list" where
  "vector_destinations data = vector_loop data FIRST_VECTOR"

text \<open>The number of vectors is below \<open>2 ^ 32\<close> for every table in memory a device has; the counters do not wrap.\<close>

definition count_destination :: "u32 \<Rightarrow> (u32, nat) rbt \<Rightarrow> (u32, nat) rbt" where
  "count_destination dst counts =
     RBT.insert dst ((case RBT.lookup counts dst of None \<Rightarrow> 0 | Some n \<Rightarrow> n) + 1) counts"

definition debug_counts :: "(u32, nat) rbt \<Rightarrow> string" where
  "debug_counts counts =
     ''{'' @ join_with '', '' (map (\<lambda>(dst, n). show_nat (unat dst) @ '': '' @ show_nat n) (RBT.entries counts)) @ ''}''"

definition find_most_used_destination :: "bytes \<Rightarrow> (int \<times> string) + u32" where
  "find_most_used_destination data =
     (let counts = fold count_destination (map snd (vector_destinations data)) RBT.empty
      in case map snd (RBT.entries counts) of
           [] \<Rightarrow> Inl (3, ''No interrupt function found from the address '' @ show_nat FIRST_VECTOR)
         | n # ns \<Rightarrow>
             (let max_count = fold max ns n;
                  most_used = filter (\<lambda>(_, count). count = max_count) (RBT.entries counts)
              in if length most_used > 1
                 then Inl (4, ''Multiple interrupt addresses used for the same time so specify explicitly the right one: ''
                        @ debug_counts counts)
                 else Inr (fst (hd most_used))))"

text \<open>The vectors are collected before the first one is changed.\<close>

fun rewrite_loop :: "(nat \<times> u32) list \<Rightarrow> u32 \<Rightarrow> u32 \<Rightarrow> bytes \<Rightarrow> nat \<Rightarrow> bytes \<times> nat" where
  "rewrite_loop [] rewrite offset data changed = (data, changed)"
| "rewrite_loop ((addr, dst) # vectors) rewrite offset data changed =
     (if dst = rewrite
      then let jmp = (word_of_nat addr + offset) div 2
           in rewrite_loop vectors rewrite offset
                (data[addr + 2 := ucast (jmp AND 0xff), addr + 3 := ucast (drop_bit 8 jmp AND 0xff)])
                (changed + 1)
      else rewrite_loop vectors rewrite offset data changed)"

definition rewrite_vectors :: "bytes \<Rightarrow> u32 \<Rightarrow> u32 \<Rightarrow> bytes \<times> nat" where
  "rewrite_vectors data rewrite offset = rewrite_loop (vector_destinations data) rewrite offset data 0"

subsection \<open>The subcommand\<close>

definition ihex_IN :: CliEntry where
  "ihex_IN = \<lparr>names = [''i'', ''-input-file''], description = ''Input ihex format file''\<rparr>"

definition ihex_OUT :: CliEntry where
  "ihex_OUT = \<lparr>names = [''o'', ''-output-file''], description = ''Output ihex format file''\<rparr>"

definition ihex_OFF :: CliEntry where
  "ihex_OFF = \<lparr>names = [''p'', ''-program-offset''], description = ''Program code offset''\<rparr>"

definition ihex_ADDR :: CliEntry where
  "ihex_ADDR = \<lparr>names = [''a'', ''-address-to-replace''], description = ''Address to replace (optional)''\<rparr>"

definition REPLACE_ENTRIES :: "CliEntry list" where
  "REPLACE_ENTRIES = [ihex_IN, ihex_OUT, ihex_OFF, ihex_ADDR]"

definition ihex_USAGE :: string where
  "ihex_USAGE =
     ''Usage: ub ihex <function>'' @ newline @ newline @ ''Functions:'' @ newline
     @ tab @ ''validate $file'' @ tab @ tab @ ''Checks the format and the checksums of the file'' @ newline
     @ tab @ ''size $file'' @ tab @ tab @ ''Prints the number of the data bytes in the file'' @ newline
     @ tab @ ''replace_interrupts -i $in [-o $out] -p $offset [-a $address]'' @ tab @ tab
     @ ''Redirects the interrupt vectors that jump to $address (default: the most used one) into the vector table of the application at $offset''
     @ newline"

type_synonym files = "string \<rightharpoonup> string list"

definition app_run :: "string \<Rightarrow> string \<Rightarrow> AppEnd \<Rightarrow> AppRun" where
  "app_run out err e = \<lparr>app_out = out, app_err = err, app_end = e\<rparr>"

definition read_file :: "(string \<Rightarrow> string) \<Rightarrow> files \<Rightarrow> string \<Rightarrow> string + string list" where
  "read_file io_text fs path = (case fs path of None \<Rightarrow> Inl (io_text path) | Some ls \<Rightarrow> Inr ls)"

definition ihex_validate :: "(string \<Rightarrow> string) \<Rightarrow> files \<Rightarrow> string \<Rightarrow> AppRun" where
  "ihex_validate io_text fs file =
     (case load_file (read_file io_text fs file) of
        Inr _ \<Rightarrow> app_run (''Valid.'' @ newline) '''' (AppExit 0)
      | Inl _ \<Rightarrow> app_run (''Not valid.'' @ newline) '''' (AppExit 1))"

definition ihex_size :: "(string \<Rightarrow> string) \<Rightarrow> files \<Rightarrow> string \<Rightarrow> AppRun" where
  "ihex_size io_text fs file =
     (case load_file (read_file io_text fs file) of
        Inl e \<Rightarrow> app_run '''' '''' (AppErr (ihex_error_text e))
      | Inr file \<Rightarrow> app_run (show_nat (get_data_size file) @ '' bytes'' @ newline) '''' AppOk)"

definition replace_input_errors :: "files \<Rightarrow> string option \<Rightarrow> int option \<Rightarrow> string list" where
  "replace_input_errors fs from_path offset =
     (case from_path of
        None \<Rightarrow> [''Ihex file not specified, use the -i cli switch to do that.'']
      | Some path \<Rightarrow> if fs path = None then [''Ihex file `'' @ path @ ''` not exist!''] else [])
     @ (case offset of
          None \<Rightarrow> [''Program relay offset not specified, use the -p cli switch to do that.'']
        | Some off \<Rightarrow>
            if 0 \<le> off \<and> off < 0x10000 then []
            else [''Specified program relay offset `'' @ show_int off @ ''` is outside of the memory region (0-65536).''])"

definition update_start :: "(bytes \<Rightarrow> bytes) \<Rightarrow> CodeSegment list \<Rightarrow> CodeSegment list" where
  "update_start f codes =
     (case update_first (\<lambda>code. seg_start code = 0) (\<lambda>code. code\<lparr>seg_data := f (seg_data code)\<rparr>) codes of
        None \<Rightarrow> codes
      | Some codes' \<Rightarrow> codes')"

text \<open>From the loaded code on: the destination to rewrite, and the changed segments.\<close>

definition replace_in_codes :: "u32 option \<Rightarrow> u32 \<Rightarrow> CodeSegment list \<Rightarrow> (int \<times> string) + u32 \<times> CodeSegment list" where
  "replace_in_codes address offset codes =
     (case find (\<lambda>code. seg_start code = 0) codes of
        None \<Rightarrow> Inl (3, ''Ihex doesn't contains code segment starts from 0 address.'')
      | Some start \<Rightarrow>
          (case (case address of Some address \<Rightarrow> Inr address | None \<Rightarrow> find_most_used_destination (seg_data start)) of
             Inl e \<Rightarrow> Inl e
           | Inr rewrite \<Rightarrow>
               Inr (rewrite, update_start (\<lambda>data. fst (rewrite_vectors data rewrite offset)) codes)))"

definition replace_in_file ::
    "(string \<Rightarrow> string) \<Rightarrow> (string \<Rightarrow> string option) \<Rightarrow> files \<Rightarrow> string \<Rightarrow> string \<Rightarrow> u32 option \<Rightarrow> u32 \<Rightarrow> AppRun \<times> files" where
  "replace_in_file io_text wr fs from_path to address offset =
     (case load_file (read_file io_text fs from_path) of
        Inl e \<Rightarrow> (app_run '''' '''' (AppErr (ihex_error_text e)), fs)
      | Inr file \<Rightarrow>
          (case get_code file of
             Inl e \<Rightarrow> (app_run '''' '''' (AppErr (ihex_error_text e)), fs)
           | Inr codes \<Rightarrow>
               (case replace_in_codes address offset codes of
                  Inl (code, message) \<Rightarrow> (app_run '''' (message @ newline) (AppExit code), fs)
                | Inr (rewrite, codes) \<Rightarrow>
                    (let out = ''Rewriting: '' @ show_nat (unat rewrite) @ newline
                     in case from_segments codes of
                          Inl e \<Rightarrow> (app_run out '''' (AppErr (ihex_error_text e)), fs)
                        | Inr file \<Rightarrow>
                            (case wr to of
                               Some err \<Rightarrow> (app_run out '''' (AppErr (ihex_error_text (IhexIo err))), fs)
                             | None \<Rightarrow> (app_run out '''' AppOk, fs(to \<mapsto> write_to_file file)))))))"

definition replace_interrupts :: "(string \<Rightarrow> string) \<Rightarrow> (string \<Rightarrow> string option) \<Rightarrow> files \<Rightarrow> string list \<Rightarrow> AppRun \<times> files" where
  "replace_interrupts io_text wr fs args =
     (let exit_run = (\<lambda>r. case r of Inl (code, err) \<Rightarrow> (app_run '''' err (AppExit code), fs) | Inr () \<Rightarrow> (app_run '''' '''' AppOk, fs))
      in case parse_cli_opts args of
        Inl err \<Rightarrow> exit_run (eprintln err (print_help_and_exit ''ihex.replace_interrupts'' 1 REPLACE_ENTRIES))
      | Inr pa \<Rightarrow>
          (case first_unknown_param pa REPLACE_ENTRIES of
             Some unknown \<Rightarrow>
               exit_run (eprintln (''Invalid Cli switch: '' @ unknown)
                 (print_help_and_exit ''ihex.replace_interrupts'' 1 REPLACE_ENTRIES))
           | None \<Rightarrow>
               (case (cli_parse parse_i64 ihex_OFF pa, cli_parse parse_u32 ihex_ADDR pa) of
                  (Inl e, _) \<Rightarrow> (app_run '''' '''' (AppErr e), fs)
                | (_, Inl e) \<Rightarrow> (app_run '''' '''' (AppErr e), fs)
                | (Inr offset, Inr address) \<Rightarrow>
                    (case (get_simple ihex_IN pa, offset, replace_input_errors fs (get_simple ihex_IN pa) offset) of
                       (Some from_path, Some offset, []) \<Rightarrow>
                         replace_in_file io_text wr fs from_path
                           (case get_simple ihex_OUT pa of Some to \<Rightarrow> to | None \<Rightarrow> from_path) address (word_of_int offset)
                     | (_, _, errors) \<Rightarrow> (app_run '''' (concat (map (\<lambda>e. e @ newline) errors)) (AppExit 2), fs)))))"

definition ihex_main :: "(string \<Rightarrow> string) \<Rightarrow> (string \<Rightarrow> string option) \<Rightarrow> files \<Rightarrow> string list \<Rightarrow> AppRun \<times> files" where
  "ihex_main io_text wr fs args =
     (case args of
        [] \<Rightarrow> (app_run '''' ihex_USAGE (AppExit 1), fs)
      | function_name # rest \<Rightarrow>
          if function_name = ''validate'' \<and> length rest = 1 then (ihex_validate io_text fs (hd rest), fs)
          else if function_name = ''size'' \<and> length rest = 1 then (ihex_size io_text fs (hd rest), fs)
          else if function_name = ''replace_interrupts'' then replace_interrupts io_text wr fs rest
          else (app_run '''' ihex_USAGE (AppExit 1), fs))"

text \<open>
  The vector table as the device reads it: four byte jump instructions one after another from address 4
  on, each with the word address it jumps to, least significant byte first.
\<close>

definition vector_at :: "bytes \<Rightarrow> nat \<Rightarrow> nat \<Rightarrow> bool" where
  "vector_at data addr dst \<longleftrightarrow> 4 \<le> addr \<and> 4 dvd addr \<and> addr + 4 \<le> length data
     \<and> (\<forall>a\<in>{4..addr}. 4 dvd a \<longrightarrow> data ! a = 0x0c \<and> data ! (a + 1) = 0x94)
     \<and> dst = 2 * (256 * unat (data ! (addr + 3)) + unat (data ! (addr + 2)))"

subsection \<open>The most used destination\<close>

lemma lookup_count_destinations:
  "RBT.lookup (fold count_destination ds t) d =
     (if d \<in> set ds
      then Some ((case RBT.lookup t d of None \<Rightarrow> 0 | Some n \<Rightarrow> n) + count_list ds d) else RBT.lookup t d)"
proof (induction ds arbitrary: t)
  case (Cons x ds)
  then show ?case by (auto simp: count_destination_def count_notin split: option.splits)
qed simp

lemma counted_entries:
  "set (RBT.entries (fold count_destination ds RBT.empty)) = (\<lambda>d. (d, count_list ds d)) ` set ds"
  by (auto simp: lookup_count_destinations image_iff simp flip: RBT.lookup_in_tree split: if_splits)

lemma fold_max_greatest: "x \<in> set (n # ns) \<Longrightarrow> x \<le> fold max ns (n :: nat)" "fold max ns n \<in> set (n # ns)"
  by (metis List.finite_set Max.set_eq_fold Max_ge, metis List.finite_set Max.set_eq_fold Max_in list.distinct(1) set_empty)

lemma unique_maximum:
  fixes dst :: u32
  assumes E: "set E = (\<lambda>d. (d, count_list ds d)) ` set ds" and "distinct E"
    and M: "\<And>x. x \<in> set E \<Longrightarrow> snd x \<le> M" and "M \<in> snd ` set E" and U_def: "U = filter (\<lambda>(_, n). n = M) E"
  shows "\<not> 1 < length U \<and> fst (hd U) = dst \<longleftrightarrow> (\<forall>d. d \<noteq> dst \<longrightarrow> count_list ds d < count_list ds dst)"
proof -
  have U: "U \<noteq> []" using assms(4) by (force simp: U_def filter_empty_conv)
  have "distinct U" unfolding U_def using assms(2) by (rule distinct_filter)
  then have one: "\<not> 1 < length U \<longleftrightarrow> (\<forall>x\<in>set U. x = hd U)"
    using U by (cases U; cases "tl U") auto
  have count: "count_list ds d = 0 \<longleftrightarrow> d \<notin> set ds" for d by (simp add: count_list_0_iff)
  show ?thesis unfolding one
  proof
    assume L: "(\<forall>x\<in>set U. x = hd U) \<and> fst (hd U) = dst"
    have "hd U \<in> set E \<and> snd (hd U) = M" using hd_in_set [OF U] unfolding U_def by auto
    with L have "(dst, M) \<in> set E" by (cases "hd U") simp
    then have dst: "M = count_list ds dst" "dst \<in> set ds" using E by auto
    show "\<forall>d. d \<noteq> dst \<longrightarrow> count_list ds d < count_list ds dst"
    proof (intro allI impI)
      fix d assume d: "d \<noteq> dst"
      have "(d, M) \<notin> set U" using L d by (metis fst_conv)
      then have "count_list ds d \<noteq> M" if "d \<in> set ds" using that E by (auto simp: U_def)
      then show "count_list ds d < count_list ds dst"
        using M [of "(d, count_list ds d)"] E dst count [of d] count [of dst] by (cases "d \<in> set ds") auto
    qed
  next
    assume R: "\<forall>d. d \<noteq> dst \<longrightarrow> count_list ds d < count_list ds dst"
    have "\<exists>d. d \<noteq> dst" by (metis add.right_neutral add_left_cancel zero_neq_one)
    with R have "dst \<in> set ds" using count [of dst] by auto
    then have dst: "(dst, count_list ds dst) \<in> set E" using E by auto
    have "x = (dst, count_list ds dst)" if "x \<in> set U" for x
    proof -
      from that obtain d where d: "x = (d, count_list ds d)" "count_list ds d = M" unfolding U_def using E by auto
      then show ?thesis using M [OF dst] R by (metis not_less snd_conv)
    qed
    then show "(\<forall>x\<in>set U. x = hd U) \<and> fst (hd U) = dst" using U by (metis fst_conv list.set_sel(1))
  qed
qed

subsection \<open>Rewriting\<close>

lemma jump_address_bytes:
  assumes "unat jmp < 65536"
  shows "push_bit 8 (ucast (ucast (drop_bit 8 jmp AND 0xff) :: u8)) OR ucast (ucast (jmp AND 0xff) :: u8) = (jmp :: u32)"
proof -
  have "take_bit 16 jmp = jmp"
    using assms by (intro word_unat_eq_iff [THEN iffD2]) (simp add: unsigned_take_bit_eq take_bit_nat_eq_self_iff)
  then have "n < 16" if "bit jmp n" for n using that by (metis bit_take_bit_iff)
  then have high: "n - 8 < 8" if "bit jmp n" for n using that by fastforce
  have m: "(0xff :: u32) = mask 8" by (simp add: mask_eq_exp_minus_1)
  show ?thesis unfolding m
    by (rule bit_word_eqI)
      (auto simp: bit_or_iff bit_push_bit_iff bit_ucast_iff bit_and_iff bit_mask_iff bit_drop_bit_eq not_less dest: high)
qed

lemma even_jump:
  assumes "even (unat (w :: u32))"
  shows "w div 2 * 2 = w"
proof -
  have "unat (w div 2) = unat w div 2" by (simp add: unat_div)
  then have "unat (w div 2 * 2) = unat w mod 2 ^ 32" using assms by (simp add: unat_word_ariths)
  moreover have "unat w < 2 ^ 32" using unsigned_less [of w, where ?'a = nat] by simp
  ultimately show ?thesis by (intro word_unat_eq_iff [THEN iffD2]) simp
qed

lemma jump_target:
  assumes "even addr" and "addr \<le> 65536" and "unat offset < 65536" and "even (unat offset)"
  shows "(push_bit 8 (ucast (ucast (drop_bit 8 ((word_of_nat addr + offset) div 2) AND 0xff) :: u8))
      OR ucast (ucast ((word_of_nat addr + offset) div 2 AND 0xff) :: u8)) * 2 = (word_of_nat addr + offset :: u32)"
proof -
  let ?w = "word_of_nat addr + offset :: u32"
  have u: "unat ?w = addr + unat offset" using assms by (simp add: unat_word_ariths unat_of_nat)
  then have "unat (?w div 2) < 65536" using assms by (simp add: unat_div)
  from jump_address_bytes [OF this] even_jump [of ?w] u assms show ?thesis by simp
qed

lemma vector_loop_addresses:
  "(a, d) \<in> set (vector_loop data addr) \<Longrightarrow> addr \<le> a \<and> a + 4 \<le> length data \<and> (even addr \<longrightarrow> even a)"
proof (induction data addr rule: vector_loop.induct)
  case (1 data addr)
  show ?case
    using "1.prems" "1.IH" by (subst (asm) vector_loop.simps) (fastforce simp: Let_def split: if_splits)
qed

lemma unat_jump_destination:
  fixes hi lo :: u8
  shows "unat ((push_bit 8 (ucast hi) OR ucast lo) * 2 :: u32) = 2 * (256 * unat hi + unat lo)"
proof -
  let ?w = "push_bit 8 (ucast hi) OR ucast lo :: u32"
  have range: "unat hi < 256" "unat lo < 256"
    using unsigned_less [of hi, where ?'a = nat] unsigned_less [of lo, where ?'a = nat] by simp_all
  have "?w = push_bit 8 (ucast hi) + ucast lo"
    by (rule disjunctive_add [symmetric]) (auto simp: bit_simps dest: bit_imp_le_length)
  then have "unat ?w = 256 * unat hi + unat lo"
    using range by (simp add: unat_word_ariths push_bit_eq_mult unsigned_ucast_eq take_bit_nat_eq_self)
  moreover have "unat (?w * 2) = unat ?w * 2 mod 2 ^ 32" by (simp add: unat_word_ariths)
  ultimately show ?thesis using range by simp
qed

lemma vector_loop_at:
  assumes "4 dvd addr"
  shows "(a, d) \<in> set (vector_loop data addr) \<longleftrightarrow> addr \<le> a \<and> 4 dvd a \<and> a + 4 \<le> length data
     \<and> (\<forall>i\<in>{addr..a}. 4 dvd i \<longrightarrow> data ! i = 0x0c \<and> data ! (i + 1) = 0x94)
     \<and> unat d = 2 * (256 * unat (data ! (a + 3)) + unat (data ! (a + 2)))"
  using assms
proof (induction data addr rule: vector_loop.induct)
  case (1 data addr)
  let ?dst = "(push_bit 8 (ucast (data ! (addr + 3))) OR ucast (data ! (addr + 2))) * 2 :: u32"
  have jump: "data ! addr = 0x0c \<and> data ! (addr + 1) = 0x94"
    if "addr \<le> a" "\<forall>i\<in>{addr..a}. 4 dvd i \<longrightarrow> data ! i = 0x0c \<and> data ! (i + 1) = 0x94"
    using bspec [OF that(2), of addr] that(1) "1.prems" by simp
  show ?case
  proof (cases "addr + 4 \<le> length data \<and> data ! addr = 0x0c \<and> data ! (addr + 1) = 0x94")
    case False
    then have "vector_loop data addr = []" by (subst vector_loop.simps) auto
    then have "(a, d) \<notin> set (vector_loop data addr)" by simp
    moreover have "\<not> (addr \<le> a \<and> a + 4 \<le> length data
        \<and> (\<forall>i\<in>{addr..a}. 4 dvd i \<longrightarrow> data ! i = 0x0c \<and> data ! (i + 1) = 0x94))"
    proof
      assume *: "addr \<le> a \<and> a + 4 \<le> length data
        \<and> (\<forall>i\<in>{addr..a}. 4 dvd i \<longrightarrow> data ! i = 0x0c \<and> data ! (i + 1) = 0x94)"
      then have "data ! addr = 0x0c \<and> data ! (addr + 1) = 0x94" using jump by blast
      then show False using False * by linarith
    qed
    ultimately show ?thesis by blast
  next
    case True
    then have vs: "vector_loop data addr = (addr, ?dst) # vector_loop data (addr + 4)"
      by (subst vector_loop.simps) (simp add: Let_def)
    have four: "i = addr \<or> addr + 4 \<le> i" if "addr \<le> i" "4 dvd i" for i
      using that "1.prems" by presburger
    have ih: "(a, d) \<in> set (vector_loop data (addr + 4)) \<longleftrightarrow> addr + 4 \<le> a \<and> 4 dvd a \<and> a + 4 \<le> length data
     \<and> (\<forall>i\<in>{addr + 4..a}. 4 dvd i \<longrightarrow> data ! i = 0x0c \<and> data ! (i + 1) = 0x94)
     \<and> unat d = 2 * (256 * unat (data ! (a + 3)) + unat (data ! (a + 2)))"
      using "1.IH" True "1.prems" by simp
    show ?thesis
    proof (cases "a = addr")
      case eq: True
      have "(a, d) \<notin> set (vector_loop data (addr + 4))" using eq ih by simp
      then have "(a, d) \<in> set (vector_loop data addr) \<longleftrightarrow> d = ?dst" using vs eq by simp
      also have "\<dots> \<longleftrightarrow> unat d = 2 * (256 * unat (data ! (a + 3)) + unat (data ! (a + 2)))"
        unfolding word_unat_eq_iff unat_jump_destination eq ..
      finally show ?thesis using True eq "1.prems" by simp
    next
      case False
      have "(\<forall>i\<in>{addr + 4..a}. 4 dvd i \<longrightarrow> data ! i = 0x0c \<and> data ! (i + 1) = 0x94) \<longleftrightarrow>
          (\<forall>i\<in>{addr..a}. 4 dvd i \<longrightarrow> data ! i = 0x0c \<and> data ! (i + 1) = 0x94)"
        using four True by (metis add_leD1 atLeastAtMost_iff)
      moreover have "(a, d) \<in> set (vector_loop data addr) \<longleftrightarrow> (a, d) \<in> set (vector_loop data (addr + 4))"
        using False vs by simp
      moreover have "4 dvd a \<Longrightarrow> addr + 4 \<le> a \<longleftrightarrow> addr \<le> a"
        using four [of a] False by (meson add_leD1)
      ultimately show ?thesis using ih by blast
    qed
  qed
qed

lemma vector_destinations_at: "(a, d) \<in> set (vector_destinations data) \<longleftrightarrow> vector_at data a (unat d)"
  using vector_loop_at [of 4 a d data] by (simp add: vector_destinations_def FIRST_VECTOR_def vector_at_def)

lemma vector_at_range: "vector_at data a d \<Longrightarrow> d < 131072"
  using unsigned_less [of "data ! (a + 3)", where ?'a = nat] unsigned_less [of "data ! (a + 2)", where ?'a = nat]
  by (simp add: vector_at_def)

lemma vector_at_word: "vector_at data a d \<longleftrightarrow> d < 131072 \<and> (a, word_of_nat d) \<in> set (vector_destinations data)"
proof (cases "d < 131072")
  case True
  then have "unat (word_of_nat d :: u32) = d" by (simp add: unat_of_nat)
  then show ?thesis using True by (simp add: vector_destinations_at)
qed (auto dest: vector_at_range)

lemma distinct_vector_addresses: "distinct (map fst (vector_loop data addr))"
proof (induction data addr rule: vector_loop.induct)
  case (1 data addr)
  then show ?case
    by (subst vector_loop.simps) (fastforce simp: Let_def dest: vector_loop_addresses)
qed

lemma vector_destinations_count:
  "count_list (map snd (vector_destinations data)) d = card {a. vector_at data a (unat d)}"
proof -
  let ?vs = "vector_destinations data"
  have "distinct (map fst ?vs)" unfolding vector_destinations_def by (rule distinct_vector_addresses)
  then have dist: "distinct (map fst (filter (\<lambda>(_, e). e = d) ?vs))"
    by (rule distinct_map_filter)
  have "count_list (map snd ?vs) d = length (filter (\<lambda>(_, e). e = d) ?vs)"
    by (induction ?vs rule: list.induct) (auto simp: count_list_eq_length_filter filter_map comp_def case_prod_beta eq_commute)
  also have "\<dots> = card (set (map fst (filter (\<lambda>(_, e). e = d) ?vs)))"
    using distinct_card [OF dist] by simp
  also have "set (map fst (filter (\<lambda>(_, e). e = d) ?vs)) = {a. vector_at data a (unat d)}"
    by (force simp: vector_destinations_at [symmetric])
  finally show ?thesis .
qed

text \<open>The vectors after the rewriting.\<close>

definition redirected :: "u32 \<Rightarrow> u32 \<Rightarrow> (nat \<times> u32) list \<Rightarrow> (nat \<times> u32) list" where
  "redirected rewrite offset vectors =
     map (\<lambda>(addr, dst). (addr, if dst = rewrite then word_of_nat addr + offset else dst)) vectors"

lemma rewrite_loop_count:
  "snd (rewrite_loop vectors rewrite offset data n) = n + length (filter (\<lambda>(_, dst). dst = rewrite) vectors)"
  by (induction vectors rewrite offset data n rule: rewrite_loop.induct) (simp_all add: Let_def)

lemma rewrite_loop_length [simp]: "length (fst (rewrite_loop vectors rewrite offset data n)) = length data"
  by (induction vectors rewrite offset data n rule: rewrite_loop.induct) (simp_all add: Let_def)

lemma rewrite_loop_other_bytes:
  "\<forall>(addr, dst) \<in> set vectors. dst = rewrite \<longrightarrow> i \<noteq> addr + 2 \<and> i \<noteq> addr + 3 \<Longrightarrow>
   fst (rewrite_loop vectors rewrite offset data n) ! i = data ! i"
  by (induction vectors rewrite offset data n rule: rewrite_loop.induct) (auto simp: Let_def)

lemma rewrite_loop_before:
  "\<forall>(a, d) \<in> set vectors. addr \<le> a \<Longrightarrow> i < addr + 2 \<Longrightarrow>
   fst (rewrite_loop vectors rewrite offset data n) ! i = data ! i"
  by (rule rewrite_loop_other_bytes) auto

lemma vector_loop_cong:
  assumes "length data' = length data" and "\<And>i. addr \<le> i \<Longrightarrow> data' ! i = data ! i"
  shows "vector_loop data' addr = vector_loop data addr"
  using assms
proof (induction data addr rule: vector_loop.induct)
  case (1 data addr)
  have "data' ! addr = data ! addr" "data' ! (addr + 1) = data ! (addr + 1)"
    "data' ! (addr + 2) = data ! (addr + 2)" "data' ! (addr + 3) = data ! (addr + 3)"
    by (simp_all add: "1.prems")
  with 1 show ?case by (subst (1 2) vector_loop.simps) (simp add: Let_def)
qed

lemma vector_loop_rewritten:
  assumes "length data \<le> 65536" and "unat offset < 65536" and "even (unat offset)" and "even addr"
    and "length data' = length data" and "\<And>i. addr \<le> i \<Longrightarrow> data' ! i = data ! i"
  shows "vector_loop (fst (rewrite_loop (vector_loop data addr) rewrite offset data' n)) addr
    = redirected rewrite offset (vector_loop data addr)"
  using assms
proof (induction data addr arbitrary: data' n rule: vector_loop.induct)
  case (1 data addr)
  let ?dst = "(push_bit 8 (ucast (data ! (addr + 3))) OR ucast (data ! (addr + 2))) * 2 :: u32"
  let ?jmp = "(word_of_nat addr + offset) div 2 :: u32"
  show ?case
  proof (cases "addr + 4 \<le> length data \<and> data ! addr = 0x0c \<and> data ! (addr + 1) = 0x94")
    case False
    then have "vector_loop data addr = []" by (subst vector_loop.simps) auto
    moreover have "vector_loop data' addr = vector_loop data addr"
      using "1.prems"(5,6) by (rule vector_loop_cong)
    ultimately show ?thesis by (simp add: redirected_def)
  next
    case True
    then have vs: "vector_loop data addr = (addr, ?dst) # vector_loop data (addr + 4)"
      by (subst vector_loop.simps) (simp add: Let_def)
    define new where "new = (if ?dst = rewrite
      then data'[addr + 2 := ucast (?jmp AND 0xff), addr + 3 := ucast (drop_bit 8 ?jmp AND 0xff)] else data')"
    define n' where "n' = (if ?dst = rewrite then n + 1 else n)"
    define res where "res = fst (rewrite_loop (vector_loop data (addr + 4)) rewrite offset new n')"
    have res: "fst (rewrite_loop (vector_loop data addr) rewrite offset data' n) = res"
      by (simp add: vs res_def new_def n'_def Let_def)
    have new: "length new = length data" "\<And>i. addr + 4 \<le> i \<Longrightarrow> new ! i = data ! i"
      using "1.prems"(5,6) by (simp_all add: new_def)
    have tail: "vector_loop res (addr + 4) = redirected rewrite offset (vector_loop data (addr + 4))"
      unfolding res_def using True "1.prems"(1-4) new by (intro "1.IH") (simp_all add: Let_def)
    have same: "res ! i = new ! i" if "i < addr + 4" for i
      unfolding res_def using that by (intro rewrite_loop_before [of _ "addr + 4"]) (auto dest: vector_loop_addresses)
    have "length res = length data" unfolding res_def by (simp add: new)
    moreover have "res ! addr = 0x0c" "res ! (addr + 1) = 0x94"
      using True "1.prems"(6) by (simp_all add: same new_def)
    moreover have "(push_bit 8 (ucast (res ! (addr + 3))) OR ucast (res ! (addr + 2))) * 2
      = (if ?dst = rewrite then word_of_nat addr + offset else ?dst)"
      using jump_target [of addr offset] "1.prems" True by (simp add: same new_def)
    ultimately have "vector_loop res addr
      = (addr, if ?dst = rewrite then word_of_nat addr + offset else ?dst) # vector_loop res (addr + 4)"
      using True by (subst vector_loop.simps) (simp add: Let_def)
    then show ?thesis unfolding res by (simp add: vs tail) (simp add: redirected_def)
  qed
qed

subsection \<open>The command\<close>

lemma update_first_props:
  "update_first P f xs = Some ys \<Longrightarrow> length ys = length xs
    \<and> (\<forall>i<length xs. ys ! i = xs ! i \<or> ys ! i = f (xs ! i))"
proof (induction xs arbitrary: ys)
  case (Cons x xs)
  show ?case
  proof (cases "P x")
    case True
    then have "ys = f x # xs" using Cons.prems by simp
    then show ?thesis by (auto simp: nth_Cons split: nat.splits)
  next
    case False
    then obtain zs where "update_first P f xs = Some zs" "ys = x # zs" using Cons.prems by auto
    with Cons.IH show ?thesis by (auto simp: nth_Cons split: nat.splits)
  qed
qed simp

lemma update_start_segments:
  assumes "\<And>data. length (f data) = length data"
  shows "length (update_start f codes) = length codes"
    and "i < length codes \<Longrightarrow> update_start f codes ! i = codes ! i
      \<or> update_start f codes ! i = (codes ! i)\<lparr>seg_data := f (seg_data (codes ! i))\<rparr>"
  using update_first_props [of "\<lambda>code. seg_start code = 0" "\<lambda>code. code\<lparr>seg_data := f (seg_data code)\<rparr>" codes]
  by (auto simp: update_start_def split: option.splits)

lemma update_start_keeps_layout:
  assumes len: "\<And>data. length (f data) = length data" and "list_all loaded_segment codes" and "sorted_wrt separate codes"
  shows "list_all loaded_segment (update_start f codes) \<and> sorted_wrt separate (update_start f codes)"
proof -
  let ?new = "update_start f codes"
  have same: "seg_start (?new ! i) = seg_start (codes ! i) \<and> seg_end (?new ! i) = seg_end (codes ! i)
      \<and> length (seg_data (?new ! i)) = length (seg_data (codes ! i)) \<and> seg_building (?new ! i) = seg_building (codes ! i)"
    if "i < length codes" for i
    using update_start_segments(2) [OF len that] by (auto simp: len)
  have "loaded_segment (?new ! i)" if "i < length codes" for i
    using same [OF that] assms(2) that unfolding list_all_length loaded_segment_def
    by (metis length_0_conv)
  then show ?thesis
    using assms(3) same by (simp add: list_all_length sorted_wrt_iff_nth_less update_start_segments(1) [OF len] separate_def)
qed

lemma show_nat_is_value: "\<not> is_option (show_nat n)"
  using show_nat_no_sign(2) [of n] by (cases "show_nat n") (auto simp: is_option_def strip_prefix_def)

lemma parse_i64_show_nat: "n < 65536 \<Longrightarrow> parse_i64 (show_nat n) = Some (int n)"
  by (simp add: parse_i64_def parse_int_show_nat)

lemma known_params:
  assumes "set (RBT.keys pa) \<subseteq> {''i'', ''o'', ''p''}"
  shows "first_unknown_param pa REPLACE_ENTRIES = None"
  using assms by (fastforce simp: first_unknown_param_def find_None_iff REPLACE_ENTRIES_def ihex_IN_def ihex_OUT_def ihex_OFF_def)

lemma replace_interrupts_args:
  assumes "\<not> is_option a" and "\<not> is_option b" and "off < 65536" and "fs a \<noteq> None"
  shows "replace_interrupts io_text wr fs [''-i'', a, ''-o'', b, ''-p'', show_nat off] =
    replace_in_file io_text wr fs a b None (word_of_nat off)"
proof -
  let ?opts = "[(''i'', [a]), (''o'', [b]), (''p'', [show_nat off])]"
  have "list_all option_group ?opts"
    using assms(1,2) by (simp add: option_group_def show_nat_is_value)
      (simp add: is_option_def strip_prefix_def is_ascii_digit_def)
  from parse_option_groups [OF this, of RBT.empty None] obtain pa
    where pa: "parse_cli_opts (option_args ?opts) = Inr pa" and look: "RBT.lookup pa = map_of (rev ?opts)"
    by (auto simp: parse_cli_opts_def)
  have "set (RBT.keys pa) = dom (map_of (rev ?opts))" unfolding RBT.lookup_keys [symmetric] look ..
  then have known: "first_unknown_param pa REPLACE_ENTRIES = None" by (intro known_params) auto
  have "get_simple ihex_IN pa = Some a" "get_simple ihex_OUT pa = Some b"
    "cli_parse parse_i64 ihex_OFF pa = Inr (Some (int off))" "cli_parse parse_u32 ihex_ADDR pa = Inr None"
    using assms(3) by (simp_all add: get_simple_def cli_parse_def look ihex_IN_def ihex_OUT_def ihex_OFF_def ihex_ADDR_def
        map_filter_def parse_i64_show_nat)
  moreover have "parse_cli_opts [''-i'', a, ''-o'', b, ''-p'', show_nat off] = Inr pa"
    using pa by (simp add: option_args_def)
  ultimately show ?thesis
    using known assms(3,4) by (auto simp: replace_interrupts_def replace_input_errors_def)
qed

subsection \<open>Properties\<close>

text \<open>
  The default destination is found exactly if one destination is used by more vectors than
  every other one, and it is that one.
\<close>

lemma find_most_used_destination_is_the_maximum:
  "find_most_used_destination data = Inr dst \<longleftrightarrow>
   (\<forall>d. d \<noteq> dst \<longrightarrow> count_list (map snd (vector_destinations data)) d < count_list (map snd (vector_destinations data)) dst)"
proof -
  define ds where "ds = map snd (vector_destinations data)"
  define E where "E = RBT.entries (fold count_destination ds RBT.empty)"
  have E: "set E = (\<lambda>d. (d, count_list ds d)) ` set ds" unfolding E_def by (rule counted_entries)
  have d: "distinct E" unfolding E_def using RBT.distinct_entries distinct_map by blast
  show ?thesis
  proof (cases E)
    case Nil
    moreover have "\<exists>d. d \<noteq> dst" by (metis add.right_neutral add_left_cancel zero_neq_one)
    ultimately show ?thesis using E by (auto simp: find_most_used_destination_def E_def ds_def)
  next
    case (Cons e es)
    let ?M = "fold max (map snd es) (snd e)"
    have "snd x \<le> ?M" if "x \<in> set E" for x
      using fold_max_greatest(1) [of "snd x" "snd e" "map snd es"] that Cons by auto
    moreover have "?M \<in> snd ` set E" using fold_max_greatest(2) [of "map snd es" "snd e"] Cons by auto
    ultimately have "\<not> 1 < length (filter (\<lambda>(_, n). n = ?M) E) \<and> fst (hd (filter (\<lambda>(_, n). n = ?M) E)) = dst
      \<longleftrightarrow> (\<forall>d. d \<noteq> dst \<longrightarrow> count_list ds d < count_list ds dst)"
      by (rule unique_maximum [OF E d _ _ refl])
    moreover have "map snd E = snd e # map snd es" using Cons by simp
    ultimately show ?thesis
      unfolding find_most_used_destination_def Let_def ds_def [symmetric] E_def [symmetric] by (simp, blast)
  qed
qed

text \<open>
  Rewriting redirects exactly the vectors that jump to the given destination to the same vector
  of the table at the offset, counts them, and changes no byte but their addresses.
\<close>

lemma rewrite_vectors_redirects:
  assumes "length data \<le> 65536" and "unat offset < 65536" and "even (unat offset)"
    and "rewrite_vectors data rewrite offset = (data', changed)"
  shows "vector_destinations data' = redirected rewrite offset (vector_destinations data)
    \<and> changed = length (filter (\<lambda>(_, dst). dst = rewrite) (vector_destinations data))
    \<and> length data' = length data
    \<and> (\<forall>i. (\<forall>(addr, dst) \<in> set (vector_destinations data). dst = rewrite \<longrightarrow> i \<noteq> addr + 2 \<and> i \<noteq> addr + 3)
         \<longrightarrow> data' ! i = data ! i)"
proof -
  have r: "fst (rewrite_loop (vector_destinations data) rewrite offset data 0) = data'"
    "snd (rewrite_loop (vector_destinations data) rewrite offset data 0) = changed"
    using assms(4) by (simp_all add: rewrite_vectors_def)
  show ?thesis
    using vector_loop_rewritten [OF assms(1-3), of FIRST_VECTOR data rewrite 0]
      rewrite_loop_count [of "vector_destinations data" rewrite offset data 0]
      rewrite_loop_length [of "vector_destinations data" rewrite offset data 0]
      rewrite_loop_other_bytes [of "vector_destinations data" rewrite _ offset data 0]
    unfolding r unfolding vector_destinations_def r [unfolded vector_destinations_def]
    by (simp add: FIRST_VECTOR_def)
qed

lemma most_used_vector:
  assumes "\<And>d. d \<noteq> rewrite \<Longrightarrow> card {a. vector_at data a d} < card {a. vector_at data a rewrite}"
  shows "find_most_used_destination data = Inr (word_of_nat rewrite) \<and> rewrite < 131072"
proof -
  have "card {a. vector_at data a rewrite} \<noteq> 0" using assms [of "Suc rewrite"] by simp
  then obtain a where "vector_at data a rewrite" by (metis card.empty empty_Collect_eq)
  then have r: "rewrite < 131072" by (rule vector_at_range)
  then have u: "unat (word_of_nat rewrite :: u32) = rewrite" by (simp add: unat_of_nat)
  have "unat d \<noteq> rewrite" if "d \<noteq> word_of_nat rewrite" for d :: u32
    using that by auto
  then show ?thesis
    unfolding find_most_used_destination_is_the_maximum vector_destinations_count u using assms r by blast
qed

lemma rewritten_vectors:
  assumes "length data \<le> 65536" and "off < 65536" and "even off" and "rewrite < 131072"
    and "rewrite_vectors data (word_of_nat rewrite) (word_of_nat off) = (data', changed)"
  shows "length data' = length data"
    and "vector_at data' addr dst' \<longleftrightarrow>
      (\<exists>dst. vector_at data addr dst \<and> dst' = (if dst = rewrite then addr + off else dst))"
    and "\<not> (\<exists>addr. vector_at data addr rewrite \<and> (i = addr + 2 \<or> i = addr + 3)) \<Longrightarrow> data' ! i = data ! i"
proof -
  have o: "unat (word_of_nat off :: u32) = off" using assms(2) by (simp add: unat_of_nat)
  have r: "unat (word_of_nat rewrite :: u32) = rewrite" using assms(4) by (simp add: unat_of_nat)
  note redirects = rewrite_vectors_redirects [OF assms(1) _ _ assms(5), unfolded o, OF assms(2,3)]
  show "length data' = length data" using redirects by simp
  show "data' ! i = data ! i" if "\<not> (\<exists>addr. vector_at data addr rewrite \<and> (i = addr + 2 \<or> i = addr + 3))"
  proof -
    have "\<forall>(addr, dst) \<in> set (vector_destinations data).
        dst = word_of_nat rewrite \<longrightarrow> i \<noteq> addr + 2 \<and> i \<noteq> addr + 3"
      using that by (auto simp: vector_destinations_at r)
    then show ?thesis using redirects by blast
  qed
  have eq: "unat d = rewrite \<longleftrightarrow> d = word_of_nat rewrite" for d :: u32 using r by auto
  have target: "unat (word_of_nat addr + word_of_nat off :: u32) = addr + off"
    if "(addr, d) \<in> set (vector_destinations data)" for addr d
    using that assms(1,2) by (auto simp: vector_destinations_at vector_at_def unat_word_ariths unat_of_nat)
  show "vector_at data' addr dst' \<longleftrightarrow>
      (\<exists>dst. vector_at data addr dst \<and> dst' = (if dst = rewrite then addr + off else dst))" (is "?l = ?r")
  proof
    assume ?l
    then have "(addr, word_of_nat dst') \<in> set (redirected (word_of_nat rewrite) (word_of_nat off) (vector_destinations data))"
      and d': "unat (word_of_nat dst' :: u32) = dst'"
      using vector_at_word [of data' addr dst'] redirects by (auto simp: unat_of_nat)
    then obtain d where d: "(addr, d) \<in> set (vector_destinations data)"
      "word_of_nat dst' = (if d = word_of_nat rewrite then word_of_nat addr + word_of_nat off else d)"
      by (auto simp: redirected_def)
    then have "dst' = (if unat d = rewrite then addr + off else unat d)"
      using d' target [OF d(1)] unfolding eq by (metis (full_types))
    then show ?r using d(1) vector_destinations_at by blast
  next
    assume ?r
    then obtain dst where dst: "vector_at data addr dst" "dst' = (if dst = rewrite then addr + off else dst)" by blast
    let ?d = "word_of_nat dst :: u32"
    have d: "(addr, ?d) \<in> set (vector_destinations data)" "unat ?d = dst"
      using dst(1) vector_at_word [of data addr dst] by (simp_all add: unat_of_nat)
    then have "(addr, if ?d = word_of_nat rewrite then word_of_nat addr + word_of_nat off else ?d) \<in> set (vector_destinations data')"
      using redirects unfolding redirected_def by force
    moreover have "unat (if ?d = word_of_nat rewrite then word_of_nat addr + word_of_nat off else ?d :: u32) = dst'"
      using target [OF d(1)] d(2) dst(2) eq [of ?d] by auto
    ultimately show ?l using vector_destinations_at by metis
  qed
qed

lemma update_first_split:
  "\<forall>x\<in>set xs. \<not> P x \<Longrightarrow> P y \<Longrightarrow> update_first P f (xs @ y # ys) = Some (xs @ f y # ys)"
  by (induction xs) simp_all

lemma find_split: "\<forall>x\<in>set xs. \<not> P x \<Longrightarrow> P y \<Longrightarrow> find P (xs @ y # ys) = Some y"
  by (induction xs) simp_all

lemma replaced_in_the_file:
  assumes "list_all loaded_segment codes" and "sorted_wrt separate codes" and "from_segments codes = Inr file"
    and "find (\<lambda>code. seg_start code = 0) codes = Some start"
    and "find_most_used_destination (seg_data start) = Inr rewrite"
    and "\<not> is_option a" and "\<not> is_option b" and "off < 65536"
    and "fs a = Some (write_to_file file)" and "wr b = None"
  shows "\<exists>file'. ihex_main io_text wr fs [''replace_interrupts'', ''-i'', a, ''-o'', b, ''-p'', show_nat off] =
      (app_run (''Rewriting: '' @ show_nat (unat rewrite) @ newline) '''' AppOk, fs(b \<mapsto> write_to_file file'))
    \<and> load_file (Inr (write_to_file file')) = Inr file'
    \<and> get_code file' = Inr (update_start (\<lambda>data. fst (rewrite_vectors data rewrite (word_of_nat off))) codes)"
proof -
  let ?f = "\<lambda>data. fst (rewrite_vectors data rewrite (word_of_nat off))"
  have "length (?f data) = length data" for data by (simp add: rewrite_vectors_def)
  then have "list_all loaded_segment (update_start ?f codes) \<and> sorted_wrt separate (update_start ?f codes)"
    using assms(1,2) by (rule update_start_keeps_layout)
  then obtain file' where file': "from_segments (update_start ?f codes) = Inr file'"
    "load_file (Inr (write_to_file file')) = Inr file'" "get_code file' = Inr (update_start ?f codes)"
    using segments_in_file by blast
  have "load_file (Inr (write_to_file file)) = Inr file" "get_code file = Inr codes"
    using segments_in_file [OF assms(1,2)] assms(3) by auto
  then have "replace_in_file io_text wr fs a b None (word_of_nat off) =
      (app_run (''Rewriting: '' @ show_nat (unat rewrite) @ newline) '''' AppOk, fs(b \<mapsto> write_to_file file'))"
    using assms file' by (simp add: replace_in_file_def read_file_def replace_in_codes_def)
  then show ?thesis
    using replace_interrupts_args [OF assms(6-8), of fs io_text wr] assms(9) file'
    by (intro exI [of _ file']) (simp add: ihex_main_def)
qed

text \<open>
  C22: Replacing the interrupts of a host program in an Intel HEX file writes a valid file whose code
  is the code of the input except for the segment at address 0.  There the jumps of the vector table to
  the most used destination jump to the same vector of the table at the offset, all other jumps are what
  they were, and no byte but the addresses of the redirected jumps has changed.  The command succeeds,
  reports the destination and touches no other file.
\<close>

theorem replace_interrupts_rewrites_the_file:
  assumes "codes = before @ start # after" and "\<forall>code\<in>set before. seg_start code \<noteq> 0" and "seg_start start = 0"
    and "list_all loaded_segment codes" and "sorted_wrt separate codes" and "from_segments codes = Inr file"
    and "\<forall>d. d \<noteq> rewrite \<longrightarrow>
      card {addr. vector_at (seg_data start) addr d} < card {addr. vector_at (seg_data start) addr rewrite}"
    and "\<not> is_option a" and "\<not> is_option b" and "off < 65536" and "even off"
    and "fs a = Some (write_to_file file)" and "wr b = None"
  shows "\<exists>file' data'. ihex_main io_text wr fs [''replace_interrupts'', ''-i'', a, ''-o'', b, ''-p'', show_nat off] =
      (app_run (''Rewriting: '' @ show_nat rewrite @ newline) '''' AppOk, fs(b \<mapsto> write_to_file file'))
    \<and> load_file (Inr (write_to_file file')) = Inr file'
    \<and> get_code file' = Inr (before @ start\<lparr>seg_data := data'\<rparr> # after)
    \<and> length data' = length (seg_data start)
    \<and> (\<forall>addr dst'. vector_at data' addr dst' \<longleftrightarrow>
         (\<exists>dst. vector_at (seg_data start) addr dst \<and> dst' = (if dst = rewrite then addr + off else dst)))
    \<and> (\<forall>i. \<not> (\<exists>addr. vector_at (seg_data start) addr rewrite \<and> (i = addr + 2 \<or> i = addr + 3)) \<longrightarrow>
         data' ! i = seg_data start ! i)"
proof -
  obtain data' changed where rw:
    "rewrite_vectors (seg_data start) (word_of_nat rewrite) (word_of_nat off) = (data', changed)" by force
  have most: "find_most_used_destination (seg_data start) = Inr (word_of_nat rewrite)" "rewrite < 131072"
    using most_used_vector [of rewrite "seg_data start"] assms(7) by blast+
  have len: "length (seg_data start) \<le> 65536" using assms(1,3,4) by (simp add: loaded_segment_def)
  note rewritten = rewritten_vectors [OF len assms(10,11) most(2) rw]
  have found: "find (\<lambda>code. seg_start code = 0) codes = Some start"
    using assms(1-3) by (simp add: find_split)
  have updated: "update_start (\<lambda>data. fst (rewrite_vectors data (word_of_nat rewrite) (word_of_nat off))) codes =
      before @ start\<lparr>seg_data := data'\<rparr> # after"
    using assms(1-3) rw by (simp add: update_start_def update_first_split)
  have u: "unat (word_of_nat rewrite :: u32) = rewrite" using most(2) by (simp add: unat_of_nat)
  show ?thesis
    using replaced_in_the_file [OF assms(4-6) found most(1) assms(8-10), where fs = fs and wr = wr and io_text = io_text,
        OF assms(12,13)] rewritten
    unfolding updated u by blast
qed

theorem replace_interrupts_rewrites_the_file_witness:
  "\<exists>file file' data'. from_segments [\<lparr>seg_start = 0, seg_end = 8, seg_data = [0, 0, 0, 0, 0x0c, 0x94, 1, 0], seg_building = False\<rparr>] = Inr file
    \<and> ihex_main (\<lambda>_. '''') (\<lambda>_. None) [''in'' \<mapsto> write_to_file file]
        [''replace_interrupts'', ''-i'', ''in'', ''-o'', ''out'', ''-p'', show_nat 8192] =
      (app_run (''Rewriting: '' @ show_nat 2 @ newline) '''' AppOk, [''in'' \<mapsto> write_to_file file, ''out'' \<mapsto> write_to_file file'])
    \<and> get_code file' = Inr [\<lparr>seg_start = 0, seg_end = 8, seg_data = data', seg_building = False\<rparr>]
    \<and> vector_at [0, 0, 0, 0, 0x0c, 0x94, 1, 0] 4 2 \<and> vector_at data' 4 8196"
proof -
  let ?data = "[0, 0, 0, 0, 0x0c, 0x94, 1, 0] :: bytes"
  let ?c = "\<lparr>seg_start = 0, seg_end = 8, seg_data = ?data, seg_building = False\<rparr>"
  have wf: "list_all loaded_segment [?c]" "sorted_wrt separate [?c]" by (simp_all add: loaded_segment_def)
  obtain ihex where ihex: "from_segments [?c] = Inr ihex" using segments_in_file [OF wf] by blast
  have vec: "vector_at ?data addr dst \<longleftrightarrow> addr = 4 \<and> dst = 2" for addr dst
    by (cases "addr = 4") (auto simp: vector_at_def)
  have "card {addr. vector_at ?data addr d} < card {addr. vector_at ?data addr 2}" if "d \<noteq> 2" for d
    using that by (simp add: vec)
  moreover have "\<not> is_option ''in''" "\<not> is_option ''out''" by (simp_all add: is_option_def strip_prefix_def)
  ultimately obtain file' data' where
    "ihex_main (\<lambda>_. '''') (\<lambda>_. None) [''in'' \<mapsto> write_to_file ihex]
       [''replace_interrupts'', ''-i'', ''in'', ''-o'', ''out'', ''-p'', show_nat 8192] =
     (app_run (''Rewriting: '' @ show_nat 2 @ newline) '''' AppOk, [''in'' \<mapsto> write_to_file ihex, ''out'' \<mapsto> write_to_file file'])"
    "get_code file' = Inr ([] @ ?c\<lparr>seg_data := data'\<rparr> # [])"
    "vector_at data' 4 8196 \<longleftrightarrow> (\<exists>dst. vector_at ?data 4 dst \<and> 8196 = (if dst = 2 then 4 + 8192 else dst))"
    using replace_interrupts_rewrites_the_file [of "[?c]" "[]" ?c "[]" ihex 2 "''in''" "''out''" 8192
        "[''in'' \<mapsto> write_to_file ihex]" "\<lambda>_. None" "\<lambda>_. ''''"] wf ihex by force
  with ihex vec show ?thesis by auto
qed

end
