(* ===== verification/Endpoint.thy ===== *)
theory Endpoint
  imports Interfaces Text "HOL-Library.RBT" "HOL-Library.Char_ord" "HOL-Library.List_Lexorder"
begin

text \<open>
  The server side of the bus access, \<^verbatim>\<open>rpc/endpoint.rs\<close>: sessions with their packet queues, and the
  endpoint that distributes the packets of the gateway and of the clients between them.

  \<^item> An \<^verbatim>\<open>Arc<Session>\<close> is an index into \<open>ep_heap\<close>, which holds every session ever made;
    \<open>ep_sessions\<close> is the list in the mutex.
  \<^item> The connector is a trait object: a record of its operations over its own state \<open>'w\<close>
    (\<^verbatim>\<open>connector.rs\<close> has the trait and the dummy).
  \<^item> A blocking \<^verbatim>\<open>take\<close> is the result \<open>TakeBlocks\<close>, after which the receiver tries again.
  \<^item> The text of an \<^verbatim>\<open>io::Error\<close> stands for it.
\<close>

subsection \<open>Connectors\<close>

record 'w UartbusPacketConnector =
  conn_send :: "bytes \<Rightarrow> 'w \<Rightarrow> (string + unit) \<times> 'w"
  conn_start_listen :: "'w \<Rightarrow> (string + unit) \<times> 'w"
  conn_close :: "'w \<Rightarrow> 'w"

definition DummyConnector :: "unit UartbusPacketConnector" where
  "DummyConnector =
     \<lparr>conn_send = (\<lambda>_ w. (Inr (), w)), conn_start_listen = (\<lambda>w. (Inr (), w)), conn_close = (\<lambda>w. w)\<rparr>"

subsection \<open>Sessions\<close>

definition ATTR_LOOPBACK_SEND_PACKETS :: string where
  "ATTR_LOOPBACK_SEND_PACKETS = ''loopback_send_packets''"

definition ATTR_ECHO_LOOPBACK :: string where
  "ATTR_ECHO_LOOPBACK = ''echo_loopback''"

record Session =
  echo_loopback :: bool
  loopback_send_packets :: bool
  queue_packets :: "bytes list"
  queue_closed :: bool

datatype TakeResult = Taken bytes | TakeEof string | TakeBlocks

definition session_put :: "bytes \<Rightarrow> Session \<Rightarrow> Session" where
  "session_put packet s = (if queue_closed s then s else s\<lparr>queue_packets := queue_packets s @ [packet]\<rparr>)"

definition session_take :: "Session \<Rightarrow> TakeResult \<times> Session" where
  "session_take s =
     (case queue_packets s of
        packet # packets \<Rightarrow> (Taken packet, s\<lparr>queue_packets := packets\<rparr>)
      | [] \<Rightarrow> if queue_closed s then (TakeEof ''End of receive.'', s) else (TakeBlocks, s))"

definition session_close :: "Session \<Rightarrow> Session" where
  "session_close s = s\<lparr>queue_closed := True\<rparr>"

definition show_bool :: "bool \<Rightarrow> string" where
  "show_bool b = (if b then ''true'' else ''false'')"

definition get_attribute :: "string \<Rightarrow> Session \<Rightarrow> string option" where
  "get_attribute key s =
     (if key = ATTR_LOOPBACK_SEND_PACKETS then Some (show_bool (loopback_send_packets s))
      else if key = ATTR_ECHO_LOOPBACK then Some (show_bool (echo_loopback s))
      else None)"

definition parse_bool :: "string \<Rightarrow> bool option" where
  "parse_bool v =
     (let v = to_ascii_lowercase (trim v)
      in if v = ''true'' \<or> v = ''1'' then Some True
         else if v = ''false'' \<or> v = ''0'' then Some False else None)"

definition set_attribute :: "string \<Rightarrow> string \<Rightarrow> Session \<Rightarrow> (string + unit) \<times> Session" where
  "set_attribute key v s =
     (if key = ATTR_LOOPBACK_SEND_PACKETS \<or> key = ATTR_ECHO_LOOPBACK
      then (case parse_bool v of
              None \<Rightarrow> (Inl (''The given value `'' @ v @ ''` can not be casted to boolean.''), s)
            | Some set_to \<Rightarrow>
                (Inr (), if key = ATTR_LOOPBACK_SEND_PACKETS then s\<lparr>loopback_send_packets := set_to\<rparr>
                         else s\<lparr>echo_loopback := set_to\<rparr>))
      else (Inr (), s))"

definition list_attributes :: "(string, string) rbt" where
  "list_attributes =
     RBT.insert ATTR_LOOPBACK_SEND_PACKETS
       ''The call of `getNextPacket` functions returns also the you sent with `sendPacket`. Used to implement full network sniffing''
       RBT.empty"

subsection \<open>The endpoint\<close>

record 'w UartbusRpcEndpoint =
  ep_world :: 'w
  ep_sessions :: "nat list"
  ep_heap :: "Session list"
  ep_closed :: bool
  ep_default_echo_loopback :: bool
  ep_default_loopback_send_packets :: bool

definition endpoint_new ::
    "'w UartbusPacketConnector \<Rightarrow> 'w \<Rightarrow> bool \<Rightarrow> bool \<Rightarrow> string + 'w UartbusRpcEndpoint" where
  "endpoint_new connector w default_echo_loopback default_loopback_send_packets =
     (case conn_start_listen connector w of
        (Inl e, _) \<Rightarrow> Inl e
      | (Inr _, w') \<Rightarrow>
          Inr \<lparr>ep_world = w', ep_sessions = [], ep_heap = [], ep_closed = False,
               ep_default_echo_loopback = default_echo_loopback,
               ep_default_loopback_send_packets = default_loopback_send_packets\<rparr>)"

definition endpoint_new_dummy :: "string + unit UartbusRpcEndpoint" where
  "endpoint_new_dummy = endpoint_new DummyConnector () False True"

definition update_session :: "nat \<Rightarrow> (Session \<Rightarrow> Session) \<Rightarrow> 'w UartbusRpcEndpoint \<Rightarrow> 'w UartbusRpcEndpoint" where
  "update_session p f ep = ep\<lparr>ep_heap := (ep_heap ep)[p := f (ep_heap ep ! p)]\<rparr>"

fun put_all :: "bytes \<Rightarrow> nat list \<Rightarrow> 'w UartbusRpcEndpoint \<Rightarrow> 'w UartbusRpcEndpoint" where
  "put_all packet [] ep = ep"
| "put_all packet (p # ps) ep = put_all packet ps (update_session p (session_put packet) ep)"

text \<open>The packet hook: a packet of the gateway goes to every session.\<close>

definition packet_hook :: "bytes \<Rightarrow> 'w UartbusRpcEndpoint \<Rightarrow> 'w UartbusRpcEndpoint" where
  "packet_hook packet ep = put_all packet (ep_sessions ep) ep"

text \<open>\<^verbatim>\<open>new_session\<close> is two atomic steps, the look at the flag and the push.\<close>

definition new_session_push :: "'w UartbusRpcEndpoint \<Rightarrow> nat \<times> 'w UartbusRpcEndpoint" where
  "new_session_push ep =
     (let p = length (ep_heap ep)
      in (p, ep\<lparr>ep_heap := ep_heap ep @
                 [\<lparr>echo_loopback = ep_default_echo_loopback ep,
                   loopback_send_packets = ep_default_loopback_send_packets ep,
                   queue_packets = [], queue_closed = False\<rparr>],
               ep_sessions := ep_sessions ep @ [p]\<rparr>))"

definition new_session :: "'w UartbusRpcEndpoint \<Rightarrow> (string + nat) \<times> 'w UartbusRpcEndpoint" where
  "new_session ep =
     (if ep_closed ep then (Inl ''End of receive.'', ep)
      else let (p, ep') = new_session_push ep in (Inr p, ep'))"

definition remove_session :: "nat \<Rightarrow> 'w UartbusRpcEndpoint \<Rightarrow> 'w UartbusRpcEndpoint" where
  "remove_session p ep =
     update_session p session_close (ep\<lparr>ep_sessions := filter (\<lambda>s. s \<noteq> p) (ep_sessions ep)\<rparr>)"

definition session_count :: "'w UartbusRpcEndpoint \<Rightarrow> nat" where
  "session_count ep = length (ep_sessions ep)"

definition asks_for_sent :: "Session \<Rightarrow> bool" where
  "asks_for_sent s \<longleftrightarrow> loopback_send_packets s \<or> echo_loopback s"

definition endpoint_send_packet ::
    "'w UartbusPacketConnector \<Rightarrow> bytes \<Rightarrow> 'w UartbusRpcEndpoint \<Rightarrow> (string + unit) \<times> 'w UartbusRpcEndpoint" where
  "endpoint_send_packet connector data ep =
     (case conn_send connector data (ep_world ep) of
        (Inl e, w) \<Rightarrow> (Inl e, ep\<lparr>ep_world := w\<rparr>)
      | (Inr _, w) \<Rightarrow>
          (Inr (), put_all data (filter (\<lambda>p. asks_for_sent (ep_heap ep ! p)) (ep_sessions ep)) (ep\<lparr>ep_world := w\<rparr>)))"

fun close_all :: "nat list \<Rightarrow> 'w UartbusRpcEndpoint \<Rightarrow> 'w UartbusRpcEndpoint" where
  "close_all [] ep = ep"
| "close_all (p # ps) ep = close_all ps (update_session p session_close ep)"

definition endpoint_close :: "'w UartbusPacketConnector \<Rightarrow> 'w UartbusRpcEndpoint \<Rightarrow> 'w UartbusRpcEndpoint" where
  "endpoint_close connector ep =
     close_all (ep_sessions ep)
       (ep\<lparr>ep_closed := True, ep_world := conn_close connector (ep_world ep), ep_sessions := []\<rparr>)"

definition take_from :: "nat \<Rightarrow> 'w UartbusRpcEndpoint \<Rightarrow> TakeResult \<times> 'w UartbusRpcEndpoint" where
  "take_from p ep =
     (let (r, s) = session_take (ep_heap ep ! p) in (r, ep\<lparr>ep_heap := (ep_heap ep)[p := s]\<rparr>))"

text \<open>A connection in the same process is the index of its session.\<close>

definition create_new_connection :: "'w UartbusRpcEndpoint \<Rightarrow> (string + nat) \<times> 'w UartbusRpcEndpoint" where
  "create_new_connection ep = (if ep_closed ep then (Inl ''Distributor closed'', ep) else new_session ep)"

definition inproc_send_packet ::
    "'w UartbusPacketConnector \<Rightarrow> nat \<Rightarrow> bytes \<Rightarrow> 'w UartbusRpcEndpoint \<Rightarrow> (string + unit) \<times> 'w UartbusRpcEndpoint" where
  "inproc_send_packet connector p data ep = endpoint_send_packet connector data ep"

definition inproc_get_attribute :: "nat \<Rightarrow> string \<Rightarrow> 'w UartbusRpcEndpoint \<Rightarrow> string option" where
  "inproc_get_attribute p key ep = get_attribute key (ep_heap ep ! p)"

definition inproc_set_attribute ::
    "nat \<Rightarrow> string \<Rightarrow> string \<Rightarrow> 'w UartbusRpcEndpoint \<Rightarrow> (string + unit) \<times> 'w UartbusRpcEndpoint" where
  "inproc_set_attribute p key v ep =
     (let (r, s) = set_attribute key v (ep_heap ep ! p) in (r, ep\<lparr>ep_heap := (ep_heap ep)[p := s]\<rparr>))"

definition inproc_get_next_packet :: "nat \<Rightarrow> 'w UartbusRpcEndpoint \<Rightarrow> TakeResult \<times> 'w UartbusRpcEndpoint" where
  "inproc_get_next_packet p ep = take_from p ep"

definition inproc_close :: "nat \<Rightarrow> 'w UartbusRpcEndpoint \<Rightarrow> 'w UartbusRpcEndpoint" where
  "inproc_close p ep = remove_session p ep"

subsection \<open>Sequences of operations\<close>

text \<open>The atomic operations of the threads, in the order they get the locks, and the packets they take.\<close>

datatype EndpointEvent =
    Received bytes
  | NewSession
  | RemoveSession nat
  | SendPacket bytes
  | CloseEndpoint
  | TakePacket nat
  | CloseSession nat
  | SetAttribute nat string string

definition endpoint_step ::
    "'w UartbusPacketConnector \<Rightarrow> EndpointEvent \<Rightarrow> 'w UartbusRpcEndpoint \<Rightarrow> (nat \<times> TakeResult) list \<times> 'w UartbusRpcEndpoint" where
  "endpoint_step connector ev ep =
     (case ev of
        Received packet \<Rightarrow> ([], packet_hook packet ep)
      | NewSession \<Rightarrow> ([], snd (new_session ep))
      | RemoveSession p \<Rightarrow> ([], remove_session p ep)
      | SendPacket data \<Rightarrow> ([], snd (endpoint_send_packet connector data ep))
      | CloseEndpoint \<Rightarrow> ([], endpoint_close connector ep)
      | TakePacket p \<Rightarrow> (let (r, ep') = take_from p ep in ([(p, r)], ep'))
      | CloseSession p \<Rightarrow> ([], update_session p session_close ep)
      | SetAttribute p key v \<Rightarrow> ([], snd (inproc_set_attribute p key v ep)))"

fun endpoint_run ::
    "'w UartbusPacketConnector \<Rightarrow> EndpointEvent list \<Rightarrow> 'w UartbusRpcEndpoint \<Rightarrow> (nat \<times> TakeResult) list \<times> 'w UartbusRpcEndpoint" where
  "endpoint_run connector [] ep = ([], ep)"
| "endpoint_run connector (ev # evs) ep =
     (let (out, ep') = endpoint_step connector ev ep; (outs, ep'') = endpoint_run connector evs ep'
      in (out @ outs, ep''))"

subsection \<open>The session queue\<close>

definition take_option :: "Session \<Rightarrow> bytes option \<times> Session" where
  "take_option s = (case session_take s of (Taken packet, s') \<Rightarrow> (Some packet, s') | (_, s') \<Rightarrow> (None, s'))"

interpretation session_queue: packet_queue session_put take_option queue_packets "\<lambda>s. \<not> queue_closed s"
  by unfold_locales (auto simp: session_put_def take_option_def session_take_def)

subsection \<open>Well formed endpoints\<close>

definition endpoint_wf :: "'w UartbusRpcEndpoint \<Rightarrow> bool" where
  "endpoint_wf ep \<longleftrightarrow> distinct (ep_sessions ep) \<and> (\<forall>p \<in> set (ep_sessions ep). p < length (ep_heap ep))
     \<and> (\<forall>p < length (ep_heap ep). p \<in> set (ep_sessions ep) \<or> queue_closed (ep_heap ep ! p))
     \<and> (ep_closed ep \<longrightarrow> ep_sessions ep = [])"

lemma update_session_simps [simp]:
  "ep_sessions (update_session p f ep) = ep_sessions ep" "ep_closed (update_session p f ep) = ep_closed ep"
  "length (ep_heap (update_session p f ep)) = length (ep_heap ep)" "ep_world (update_session p f ep) = ep_world ep"
  "i < length (ep_heap ep) \<Longrightarrow> ep_heap (update_session p f ep) ! i = (if i = p then f (ep_heap ep ! i) else ep_heap ep ! i)"
  by (simp_all add: update_session_def nth_list_update)

lemma take_from_eq: "take_from p ep = (fst (session_take (ep_heap ep ! p)), update_session p (\<lambda>s. snd (session_take s)) ep)"
  by (simp add: take_from_def update_session_def split: prod.splits)

lemma inproc_set_attribute_eq:
  "inproc_set_attribute p key v ep =
     (fst (set_attribute key v (ep_heap ep ! p)), update_session p (\<lambda>s. snd (set_attribute key v s)) ep)"
  by (simp add: inproc_set_attribute_def update_session_def split: prod.splits)

lemma put_all_simps [simp]:
  "ep_sessions (put_all packet ps ep) = ep_sessions ep" "ep_closed (put_all packet ps ep) = ep_closed ep"
  "length (ep_heap (put_all packet ps ep)) = length (ep_heap ep)" "ep_world (put_all packet ps ep) = ep_world ep"
  by (induction packet ps ep rule: put_all.induct) simp_all

lemma close_all_simps [simp]:
  "ep_sessions (close_all ps ep) = ep_sessions ep" "ep_closed (close_all ps ep) = ep_closed ep"
  "length (ep_heap (close_all ps ep)) = length (ep_heap ep)"
  by (induction ps ep rule: close_all.induct) simp_all

lemma put_all_heap:
  "distinct ps \<Longrightarrow> i < length (ep_heap ep) \<Longrightarrow>
   ep_heap (put_all packet ps ep) ! i = (if i \<in> set ps then session_put packet (ep_heap ep ! i) else ep_heap ep ! i)"
  by (induction packet ps ep rule: put_all.induct) auto

lemma close_all_heap:
  "i < length (ep_heap ep) \<Longrightarrow>
   ep_heap (close_all ps ep) ! i = (if i \<in> set ps then session_close (ep_heap ep ! i) else ep_heap ep ! i)"
  by (induction ps ep rule: close_all.induct) (auto simp: session_close_def)

lemma queue_closed_simps [simp]:
  "queue_closed (session_put packet s) = queue_closed s" "queue_closed (session_close s)"
  "queue_closed (snd (session_take s)) = queue_closed s" "queue_closed (snd (set_attribute key v s)) = queue_closed s"
  by (auto simp: session_put_def session_close_def session_take_def set_attribute_def split: list.splits option.splits)

lemma endpoint_wf_step:
  assumes "endpoint_wf ep"
  shows "endpoint_wf (snd (endpoint_step connector ev ep))"
proof (cases ev)
  case (Received packet)
  then show ?thesis
    using assms by (auto simp: endpoint_step_def packet_hook_def endpoint_wf_def put_all_heap)
next
  case NewSession
  then show ?thesis
    using assms by (auto simp: endpoint_step_def new_session_def new_session_push_def Let_def endpoint_wf_def nth_append less_Suc_eq)
next
  case (RemoveSession p)
  then show ?thesis
    using assms by (auto simp: endpoint_step_def remove_session_def endpoint_wf_def)
next
  case (SendPacket data)
  then show ?thesis
    using assms by (auto simp: endpoint_step_def endpoint_send_packet_def endpoint_wf_def put_all_heap split: prod.splits sum.splits)
next
  case CloseEndpoint
  then show ?thesis
    using assms by (auto simp: endpoint_step_def endpoint_close_def endpoint_wf_def close_all_heap)
next
  case (TakePacket p)
  then show ?thesis
    using assms by (auto simp: endpoint_step_def take_from_eq endpoint_wf_def)
next
  case (CloseSession p)
  then show ?thesis using assms by (auto simp: endpoint_step_def endpoint_wf_def)
next
  case (SetAttribute p key v)
  then show ?thesis
    using assms by (auto simp: endpoint_step_def inproc_set_attribute_eq endpoint_wf_def)
qed

lemma endpoint_wf_run: "endpoint_wf ep \<Longrightarrow> endpoint_wf (snd (endpoint_run connector evs ep))"
proof (induction evs arbitrary: ep)
  case (Cons ev evs)
  have "endpoint_wf (snd (endpoint_run connector evs (snd (endpoint_step connector ev ep))))"
    by (intro Cons.IH endpoint_wf_step Cons.prems)
  then show ?case by (simp add: case_prod_unfold Let_def)
qed simp

lemma endpoint_run_append_snd:
  "snd (endpoint_run connector (xs @ ys) ep) = snd (endpoint_run connector ys (snd (endpoint_run connector xs ep)))"
  by (induction xs arbitrary: ep) (simp_all add: case_prod_unfold Let_def)

lemma endpoint_closed_run: "ep_closed ep \<Longrightarrow> ep_closed (snd (endpoint_run connector evs ep))"
proof (induction evs arbitrary: ep)
  case (Cons ev evs)
  have "ep_closed (snd (endpoint_step connector ev ep))"
    using Cons.prems by (cases ev)
      (simp_all add: endpoint_step_def packet_hook_def new_session_def remove_session_def endpoint_send_packet_def
        endpoint_close_def take_from_eq inproc_set_attribute_eq split: prod.splits sum.splits)
  then show ?case using Cons.IH by (simp add: case_prod_unfold Let_def)
qed simp

lemma endpoint_new_wf: "endpoint_new connector w echo loopback = Inr ep \<Longrightarrow> endpoint_wf ep"
  by (auto simp: endpoint_new_def endpoint_wf_def split: prod.splits sum.splits)

subsection \<open>What a session gets\<close>

text \<open>The queue operations an event does on a session.\<close>

definition session_ops ::
    "'w UartbusPacketConnector \<Rightarrow> nat \<Rightarrow> EndpointEvent \<Rightarrow> 'w UartbusRpcEndpoint \<Rightarrow> bytes queue_op list" where
  "session_ops connector p ev ep =
     (case ev of
        Received packet \<Rightarrow> if p \<in> set (ep_sessions ep) then [QPut packet] else []
      | SendPacket data \<Rightarrow>
          if fst (conn_send connector data (ep_world ep)) = Inr () \<and> p \<in> set (ep_sessions ep) \<and> asks_for_sent (ep_heap ep ! p)
          then [QPut data] else []
      | TakePacket p' \<Rightarrow> if p' = p then [QTake] else []
      | _ \<Rightarrow> [])"

definition leaves_session :: "nat \<Rightarrow> EndpointEvent \<Rightarrow> bool" where
  "leaves_session p ev \<longleftrightarrow>
     (case ev of RemoveSession p' \<Rightarrow> p' \<noteq> p | CloseEndpoint \<Rightarrow> False | CloseSession p' \<Rightarrow> p' \<noteq> p
      | SetAttribute p' _ _ \<Rightarrow> p' \<noteq> p | _ \<Rightarrow> True)"

definition taken_by :: "nat \<Rightarrow> (nat \<times> TakeResult) list \<Rightarrow> bytes list" where
  "taken_by p outs = List.map_filter (\<lambda>(p', r). case r of Taken packet \<Rightarrow> if p' = p then Some packet else None | _ \<Rightarrow> None) outs"

lemma taken_by_append [simp]: "taken_by p (xs @ ys) = taken_by p xs @ taken_by p ys"
  by (simp add: taken_by_def map_filter_def)

lemma session_step:
  assumes "endpoint_wf ep" and "p < length (ep_heap ep)" and "leaves_session p ev"
    and "endpoint_step connector ev ep = (out, ep')"
  shows "queue_run session_put take_option (session_ops connector p ev ep) (ep_heap ep ! p) = (taken_by p out, ep_heap ep' ! p)
    \<and> p < length (ep_heap ep') \<and> (p \<in> set (ep_sessions ep') \<longleftrightarrow> p \<in> set (ep_sessions ep))"
proof (cases ev)
  case (Received packet)
  then show ?thesis
    using assms by (auto simp: endpoint_step_def packet_hook_def endpoint_wf_def put_all_heap session_ops_def taken_by_def)
next
  case NewSession
  then show ?thesis
    using assms by (auto simp: endpoint_step_def new_session_def new_session_push_def Let_def session_ops_def taken_by_def nth_append
        map_filter_def split: if_splits)
next
  case (RemoveSession p')
  then show ?thesis
    using assms by (auto simp: endpoint_step_def remove_session_def session_ops_def taken_by_def leaves_session_def)
next
  case (SendPacket data)
  have "distinct (ep_sessions ep)" using assms(1) by (simp add: endpoint_wf_def)
  with SendPacket show ?thesis
    using assms by (auto simp: endpoint_step_def endpoint_send_packet_def put_all_heap session_ops_def taken_by_def
        split: prod.splits sum.splits)
next
  case (TakePacket p')
  then show ?thesis
    using assms by (auto simp: endpoint_step_def take_from_eq session_ops_def taken_by_def take_option_def
        split: prod.splits TakeResult.splits)
next
  case (SetAttribute p' key v)
  then show ?thesis
    using assms by (auto simp: endpoint_step_def inproc_set_attribute_eq session_ops_def taken_by_def leaves_session_def
        split: prod.splits)
qed (use assms in \<open>auto simp: endpoint_step_def session_ops_def taken_by_def leaves_session_def\<close>)

lemma asks_for_sent_queue_run:
  "asks_for_sent (snd (queue_run session_put take_option ops s)) = asks_for_sent s"
proof (induction ops arbitrary: s)
  case (Cons op ops)
  have "asks_for_sent (session_put packet s) = asks_for_sent s" for packet by (simp add: asks_for_sent_def session_put_def)
  moreover have "asks_for_sent (snd (take_option s)) = asks_for_sent s"
    by (simp add: asks_for_sent_def take_option_def session_take_def split: list.splits)
  ultimately show ?case using Cons.IH by (cases op) (simp_all add: case_prod_unfold Let_def)
qed simp

lemma endpoint_step_world:
  assumes "leaves_session p ev"
  shows "ep_world (snd (endpoint_step connector ev ep)) =
    (case ev of SendPacket data \<Rightarrow> snd (conn_send connector data (ep_world ep)) | _ \<Rightarrow> ep_world ep)"
  using assms
  by (auto simp: endpoint_step_def leaves_session_def packet_hook_def new_session_def new_session_push_def Let_def
      remove_session_def endpoint_send_packet_def take_from_eq inproc_set_attribute_eq split: EndpointEvent.splits prod.splits sum.splits)

text \<open>
  The packets on the bus from the moment a session is made: those of the gateway and, if the session
  asks for them, those the clients sent successfully.
\<close>

fun bus_traffic :: "'w UartbusPacketConnector \<Rightarrow> bool \<Rightarrow> EndpointEvent list \<Rightarrow> 'w \<Rightarrow> bytes list" where
  "bus_traffic connector with_sent [] w = []"
| "bus_traffic connector with_sent (ev # evs) w =
     (case ev of
        Received packet \<Rightarrow> packet # bus_traffic connector with_sent evs w
      | SendPacket data \<Rightarrow>
          (let (r, w') = conn_send connector data w
           in (if r = Inr () \<and> with_sent then [data] else []) @ bus_traffic connector with_sent evs w')
      | _ \<Rightarrow> bus_traffic connector with_sent evs w)"

lemma session_run:
  assumes "endpoint_wf ep" and "p \<in> set (ep_sessions ep)" and "list_all (leaves_session p) evs"
    and "endpoint_run connector evs ep = (outs, ep')"
  shows "\<exists>ops. queue_run session_put take_option ops (ep_heap ep ! p) = (taken_by p outs, ep_heap ep' ! p)
    \<and> queue_puts ops = bus_traffic connector (asks_for_sent (ep_heap ep ! p)) evs (ep_world ep)"
  using assms
proof (induction evs arbitrary: ep outs)
  case Nil
  then show ?case by (intro exI [of _ "[]"]) (auto simp: taken_by_def map_filter_def)
next
  case (Cons ev evs)
  let ?s = "ep_heap ep ! p"
  obtain out ep1 where step: "endpoint_step connector ev ep = (out, ep1)" by fastforce
  obtain outs' where run: "endpoint_run connector evs ep1 = (outs', ep')" "outs = out @ outs'"
    using Cons.prems(4) step by (auto split: prod.splits)
  have p: "p < length (ep_heap ep)" and ev: "leaves_session p ev"
    using Cons.prems by (auto simp: endpoint_wf_def)
  have s: "queue_run session_put take_option (session_ops connector p ev ep) ?s = (taken_by p out, ep_heap ep1 ! p)"
    "p \<in> set (ep_sessions ep1)"
    using session_step [OF Cons.prems(1) p ev step] Cons.prems(2) by simp_all
  have "endpoint_wf ep1" using endpoint_wf_step [OF Cons.prems(1), of connector ev] step by simp
  with Cons.IH [OF _ s(2) _ run(1)] Cons.prems(3) obtain ops where
    ops: "queue_run session_put take_option ops (ep_heap ep1 ! p) = (taken_by p outs', ep_heap ep' ! p)"
      "queue_puts ops = bus_traffic connector (asks_for_sent (ep_heap ep1 ! p)) evs (ep_world ep1)"
    by auto
  have asks: "asks_for_sent (ep_heap ep1 ! p) = asks_for_sent ?s"
    using asks_for_sent_queue_run [of "session_ops connector p ev ep" ?s] s(1) by simp
  have "queue_puts (session_ops connector p ev ep @ ops) = bus_traffic connector (asks_for_sent ?s) (ev # evs) (ep_world ep)"
    using endpoint_step_world [OF ev, of connector ep] step Cons.prems(2) ev
    by (auto simp: ops(2) asks session_ops_def leaves_session_def split: EndpointEvent.splits prod.splits)
  moreover have "queue_run session_put take_option (session_ops connector p ev ep @ ops) ?s = (taken_by p outs, ep_heap ep' ! p)"
    by (simp add: queue_run_append s(1) ops(1) run(2))
  ultimately show ?case by blast
qed

subsection \<open>Properties\<close>





text \<open>
  When the endpoint is closed between the two steps of \<^verbatim>\<open>new_session\<close>, the new session stays open
  and its receiver blocks although the endpoint is closed.
\<close>

theorem late_session_blocks:
  assumes "\<not> ep_closed ep" and "new_session_push (endpoint_close connector ep) = (p, ep')"
  shows "ep_closed ep' \<and> p \<in> set (ep_sessions ep') \<and> fst (take_from p ep') = TakeBlocks"
  using assms by (auto simp: new_session_push_def endpoint_close_def Let_def take_from_eq session_take_def nth_append)

end
