(* ===== verification/Base64.thy ===== *)
theory Base64
  imports Text
begin

text \<open>
  \<^verbatim>\<open>base64.rs\<close>: the encoding of the packets in the JSON protocol of the RPC server.
\<close>

subsection \<open>Definitions\<close>

definition ALPHABET :: string where
  "ALPHABET = ''ABCDEFGHIJKLMNOPQRSTUVWXYZabcdefghijklmnopqrstuvwxyz0123456789+/''"

text \<open>One turn of the loop over \<^verbatim>\<open>data.chunks(3)\<close>.\<close>

definition encode_chunk :: "bytes \<Rightarrow> string" where
  "encode_chunk chunk =
     (let b0 = chunk ! 0;
          b1 = (if 1 < length chunk then chunk ! 1 else 0);
          b2 = (if 2 < length chunk then chunk ! 2 else 0);
          n = push_bit 16 (ucast b0 :: u32) OR push_bit 8 (ucast b1) OR ucast b2
      in [ALPHABET ! (unat (drop_bit 18 n) AND 63),
          ALPHABET ! (unat (drop_bit 12 n) AND 63),
          if 1 < length chunk then ALPHABET ! (unat (drop_bit 6 n) AND 63) else CHR ''='',
          if 2 < length chunk then ALPHABET ! (unat n AND 63) else CHR ''=''])"

fun encode :: "bytes \<Rightarrow> string" where
  "encode data = (if data = [] then [] else encode_chunk (take 3 data) @ encode (drop 3 data))"

declare encode.simps [simp del]

text \<open>The match on the character: skipped (\<open>Inr None\<close>), a value, or invalid.\<close>

definition decode_char :: "u8 \<Rightarrow> string + u8 option" where
  "decode_char c =
     (if 65 \<le> c \<and> c \<le> 90 then Inr (Some (c - 65))
      else if 97 \<le> c \<and> c \<le> 122 then Inr (Some (c - 97 + 26))
      else if 48 \<le> c \<and> c \<le> 57 then Inr (Some (c - 48 + 52))
      else if c = 43 then Inr (Some 62)
      else if c = 47 then Inr (Some 63)
      else if c = 61 \<or> c = 13 \<or> c = 10 then Inr None
      else Inl (''invalid base64 character: `'' @ latin1_char c @ ''`''))"

fun decode_loop :: "bytes \<Rightarrow> u32 \<Rightarrow> nat \<Rightarrow> bytes \<Rightarrow> string + bytes" where
  "decode_loop [] acc bits out = Inr out"
| "decode_loop (c # cs) acc bits out =
     (case decode_char c of
        Inl e \<Rightarrow> Inl e
      | Inr None \<Rightarrow> decode_loop cs acc bits out
      | Inr (Some value) \<Rightarrow>
          let acc = push_bit 6 acc OR ucast value;
              bits = bits + 6
          in if 8 \<le> bits
             then let bits = bits - 8
                  in decode_loop cs (acc AND (push_bit bits 1 - 1)) bits
                       (out @ [ucast (drop_bit bits acc)])
             else decode_loop cs acc bits out)"

definition decode :: "string \<Rightarrow> string + bytes" where
  "decode text = decode_loop (as_bytes text) 0 0 []"

subsection \<open>Lemmas\<close>

lemma as_bytes_ALPHABET: "as_bytes ALPHABET = [65,66,67,68,69,70,71,72,73,74,75,76,77,78,79,80,81,82,83,84,85,86,87,88,89,90,97,98,99,100,101,102,103,104,105,106,107,108,109,110,111,112,113,114,115,116,117,118,119,120,121,122,48,49,50,51,52,53,54,55,56,57,43,47]"
  by (simp add: as_bytes_def ALPHABET_def byte_of_char_def)

lemma decode_char_alphabet:
  assumes "i < 64" shows "decode_char (byte_of_char (ALPHABET ! i)) = Inr (Some (word_of_nat i))"
proof -
  have "map decode_char (as_bytes ALPHABET) = map (\<lambda>i. Inr (Some (word_of_nat i))) [0..<64]"
    unfolding as_bytes_ALPHABET by (simp add: decode_char_def upt_conv_Cons)
  then have "map decode_char (as_bytes ALPHABET) ! i = map (\<lambda>i. Inr (Some (word_of_nat i))) [0..<64] ! i"
    by simp
  moreover have "length ALPHABET = 64" by (simp add: ALPHABET_def)
  ultimately show ?thesis using assms by (simp add: as_bytes_def)
qed

lemma and_63: "(n :: nat) AND 63 = take_bit 6 n"
  by (simp add: take_bit_eq_mask mask_eq_exp_minus_1)

text \<open>The six bits of a word at a position, as the decoder reads them.\<close>

definition sextet :: "u32 \<Rightarrow> nat \<Rightarrow> u8" where
  "sextet n k = take_bit 6 (ucast (drop_bit k n))"

lemma bit_sextet: "bit (sextet n k) i \<longleftrightarrow> i < 6 \<and> bit n (k + i)"
  by (auto simp: sextet_def bit_take_bit_iff bit_ucast_iff bit_drop_bit_eq ac_simps dest: bit_imp_le_length)

definition sextet_char :: "u32 \<Rightarrow> nat \<Rightarrow> char" where
  "sextet_char n k = ALPHABET ! (unat (drop_bit k n) AND 63)"

lemma decode_char_sextet: "decode_char (byte_of_char (sextet_char n k)) = Inr (Some (sextet n k))"
proof -
  define i where "i = take_bit 6 (unat (drop_bit k n))"
  have "i < 2 ^ 6" unfolding i_def by (rule take_bit_nat_less_exp)
  then have "decode_char (byte_of_char (ALPHABET ! i)) = Inr (Some (word_of_nat i))"
    by (intro decode_char_alphabet) simp
  moreover have "word_of_nat i = sextet n k"
    by (rule bit_word_eqI)
      (auto simp: i_def bit_sextet bit_of_nat_iff bit_take_bit_iff bit_unsigned_iff bit_drop_bit_eq
        ac_simps dest: bit_imp_le_length)
  ultimately show ?thesis by (simp add: sextet_char_def i_def and_63)
qed

lemma bit_masks: "bit (15 :: int) i \<longleftrightarrow> i < 4" "bit (3 :: int) i \<longleftrightarrow> i < 2"
proof -
  have "(15 :: int) = mask 4" "(3 :: int) = mask 2" by (simp_all add: mask_eq_exp_minus_1)
  then show "bit (15 :: int) i \<longleftrightarrow> i < 4" "bit (3 :: int) i \<longleftrightarrow> i < 2"
    by (simp_all only: bit_mask_iff possible_bit_int simp_thms)
qed

lemma sextets_first_byte:
  "ucast (drop_bit 4 (push_bit 6 (ucast (sextet n 18)) OR ucast (sextet n 12) :: u32)) = (ucast (drop_bit 16 n) :: u8)"
  by (rule bit_word_eqI) (auto simp: bit_simps bit_sextet)

lemma sextets_second_byte:
  "ucast (drop_bit 2 (push_bit 6 ((push_bit 6 (ucast (sextet n 18)) OR ucast (sextet n 12)) AND 15) OR ucast (sextet n 6) :: u32)) =
     (ucast (drop_bit 8 n) :: u8)"
  by (rule bit_word_eqI, unfold bit_ucast_iff bit_drop_bit_eq bit_or_iff bit_and_iff bit_push_bit_iff comp_def bit_sextet)
    (auto simp: bit_masks)

lemma sextets_third_byte:
  "ucast (push_bit 6 ((push_bit 6 ((push_bit 6 (ucast (sextet n 18)) OR ucast (sextet n 12)) AND 15) OR ucast (sextet n 6)) AND 3)
      OR ucast (sextet n 0) :: u32) = (ucast n :: u8)"
  by (rule bit_word_eqI, unfold bit_ucast_iff bit_drop_bit_eq bit_or_iff bit_and_iff bit_push_bit_iff comp_def bit_sextet)
    (auto simp: bit_masks)


lemma decode_char_skipped: "decode_char 61 = Inr None"
  by (simp add: decode_char_def)

lemma encode_chunk_sextets:
  fixes b0 b1 b2 :: u8
  defines "n \<equiv> push_bit 16 (ucast b0 :: u32) OR push_bit 8 (ucast b1) OR ucast b2"
  shows "encode_chunk [b0, b1, b2] = map (sextet_char n) [18, 12, 6, 0]"
    "b2 = 0 \<Longrightarrow> encode_chunk [b0, b1] = map (sextet_char n) [18, 12, 6] @ ''=''"
    "b1 = 0 \<Longrightarrow> b2 = 0 \<Longrightarrow> encode_chunk [b0] = map (sextet_char n) [18, 12] @ ''==''"
  by (simp_all add: encode_chunk_def Let_def n_def sextet_char_def)

lemma chunk_bytes:
  fixes b0 b1 b2 :: u8
  defines "n \<equiv> push_bit 16 (ucast b0 :: u32) OR push_bit 8 (ucast b1) OR ucast b2"
  shows "ucast (drop_bit 16 n) = b0" "ucast (drop_bit 8 n) = b1" "ucast n = b2"
proof -
  have "bit n i \<longleftrightarrow>
      16 \<le> i \<and> i < 24 \<and> bit b0 (i - 16) \<or> 8 \<le> i \<and> i < 16 \<and> bit b1 (i - 8) \<or> i < 8 \<and> bit b2 i" for i
    unfolding n_def bit_or_iff bit_push_bit_iff bit_ucast_iff
    by (auto dest: bit_imp_le_length)
  then show "ucast (drop_bit 16 n) = b0" "ucast (drop_bit 8 n) = b1" "ucast n = b2"
    by (auto intro!: bit_word_eqI simp: bit_ucast_iff bit_drop_bit_eq)
qed

lemmas decode_sextets = decode_char_sextet sextets_first_byte sextets_second_byte sextets_third_byte
  decode_char_skipped Let_def as_bytes_def

lemma decode_full_chunk:
  assumes "length chunk = 3"
  shows "decode_loop (as_bytes (encode_chunk chunk) @ cs) 0 0 out = decode_loop cs 0 0 (out @ chunk)"
proof -
  from assms obtain b0 b1 b2 where c: "chunk = [b0, b1, b2]"
    by (auto simp: length_Suc_conv numeral_3_eq_3)
  obtain n where n: "encode_chunk chunk = map (sextet_char n) [18, 12, 6, 0]"
    "ucast (drop_bit 16 n) = b0" "ucast (drop_bit 8 n) = b1" "ucast n = b2"
    unfolding c using encode_chunk_sextets(1) chunk_bytes by blast
  have "decode_loop (as_bytes (encode_chunk chunk) @ cs) 0 0 out =
      decode_loop cs 0 0 (out @ [ucast (drop_bit 16 n), ucast (drop_bit 8 n), ucast n])"
    unfolding n(1) by (simp add: decode_sextets del: push_bit_or drop_bit_or push_bit_and drop_bit_and)
  then show ?thesis by (simp only: n c)
qed

lemma decode_last_chunk:
  assumes "chunk \<noteq> []" "length chunk < 3"
  shows "decode_loop (as_bytes (encode_chunk chunk)) 0 0 out = Inr (out @ chunk)"
proof -
  have pad: "byte_of_char CHR ''='' = 61" by (simp add: byte_of_char_def)
  from assms consider b0 where "chunk = [b0]" | b0 b1 where "chunk = [b0, b1]"
    by (cases chunk; cases "tl chunk") (auto simp: length_Suc_conv)
  then show ?thesis
  proof cases
    case 1
    obtain n where n: "encode_chunk chunk = map (sextet_char n) [18, 12] @ ''==''" "ucast (drop_bit 16 n) = b0"
      unfolding 1 using encode_chunk_sextets(3) [OF refl refl] chunk_bytes(1) by blast
    then have "decode_loop (as_bytes (encode_chunk chunk)) 0 0 out = Inr (out @ [ucast (drop_bit 16 n)])"
      by (simp add: decode_sextets pad del: push_bit_or drop_bit_or push_bit_and drop_bit_and)
    then show ?thesis by (simp only: n 1)
  next
    case 2
    obtain n where n: "encode_chunk chunk = map (sextet_char n) [18, 12, 6] @ ''=''"
      "ucast (drop_bit 16 n) = b0" "ucast (drop_bit 8 n) = b1"
      unfolding 2 using encode_chunk_sextets(2) [OF refl] chunk_bytes(1,2) by blast
    have "decode_loop (as_bytes (encode_chunk chunk)) 0 0 out =
        Inr (out @ [ucast (drop_bit 16 n), ucast (drop_bit 8 n)])"
      unfolding n(1) by (simp add: decode_sextets pad del: push_bit_or drop_bit_or push_bit_and drop_bit_and)
    then show ?thesis by (simp only: n 2)
  qed
qed

lemma decode_loop_encode: "decode_loop (as_bytes (encode data)) 0 0 out = Inr (out @ data)"
proof (induction data arbitrary: out rule: encode.induct)
  case (1 data)
  show ?case
  proof (cases "length data < 3")
    case True
    then show ?thesis
      using decode_last_chunk [of data out]
      by (cases "data = []") (simp_all add: encode.simps [of data] encode.simps [of "[]"] as_bytes_def)
  next
    case False
    then have "decode_loop (as_bytes (encode_chunk (take 3 data)) @ as_bytes (encode (drop 3 data))) 0 0 out =
        decode_loop (as_bytes (encode (drop 3 data))) 0 0 (out @ take 3 data)"
      by (intro decode_full_chunk) simp
    moreover have "data \<noteq> []" using False by auto
    ultimately show ?thesis
      using 1 [of "out @ take 3 data"] by (simp add: encode.simps [of data])
  qed
qed

lemma decode_encoded: "decode (encode data) = Inr data"
  using decode_loop_encode [of data "[]"] by (simp add: decode_def)

lemma encode_ascii: "list_all (\<lambda>b. b < 0x80) (as_bytes (encode data))"
proof (induction data rule: encode.induct)
  case (1 data)
  have a: "byte_of_char (ALPHABET ! (n AND 63)) < 0x80" for n :: nat
  proof -
    have "length ALPHABET = 64" by (simp add: ALPHABET_def)
    then have "n AND 63 < length ALPHABET" using take_bit_nat_less_exp [of 6 n] by (simp add: and_63)
    moreover have "list_all (\<lambda>c. byte_of_char c < 0x80) ALPHABET"
      by (simp add: ALPHABET_def byte_of_char_def)
    ultimately show ?thesis by (simp add: list_all_length)
  qed
  have "byte_of_char (CHR ''='') < 0x80" by (simp add: byte_of_char_def)
  then have "list_all (\<lambda>b. b < 0x80) (as_bytes (encode_chunk (take 3 data)))"
    using a by (simp add: encode_chunk_def as_bytes_def Let_def)
  then show ?case using 1 by (subst encode.simps) (simp add: as_bytes_def)
qed

text \<open>Padding and line breaks do not count.\<close>
definition significant :: "char \<Rightarrow> bool" where
  "significant c \<longleftrightarrow> c \<notin> {CHR ''='', CHR 0x0D, CHR 0x0A}"

lemma decode_char_insignificant:
  assumes "\<not> significant c" shows "decode_char (byte_of_char c) = Inr None"
proof -
  from assms have "byte_of_char c \<in> {61, 13, 10}" by (auto simp: significant_def byte_of_char_def)
  then show ?thesis by (auto simp: decode_char_def)
qed

lemma decode_loop_significant:
  "decode_loop (as_bytes (filter significant text)) acc bits out = decode_loop (as_bytes text) acc bits out"
  by (induction "text" arbitrary: acc bits out)
    (auto simp: as_bytes_def Let_def decode_char_insignificant split: sum.splits option.splits)

subsection \<open>Properties\<close>

text \<open>
  A text that differs from the base64 form of some data at most in padding and line breaks is
  decoded to these data.
\<close>

lemma decode_encode:
  assumes "filter significant text = filter significant (encode data)"
  shows "decode text = Inr data"
  using assms decode_loop_encode [of data "[]"]
  by (simp add: decode_def) (metis decode_loop_significant)

end
