(* ===== verification/Rpc_Server.thy ===== *)
theory Rpc_Server
  imports Endpoint Base64 "HOL-Library.Countable"
begin

text \<open>
  The RPC server of the bus access, \<^verbatim>\<open>rpc/server.rs\<close>: JSON objects on text lines.  The values of the
  package serde\_json are a datatype; its printer and parser are arguments \<open>print_json\<close> and
  \<open>parse_json\<close>, and \<open>json_codec\<close> is what the code relies on.  A \<^verbatim>\<open>Map\<close> of serde\_json is the list of
  its entries in the order of the keys.
\<close>

subsection \<open>JSON values\<close>

datatype Number = PosInt u64 | NegInt i64 | Float u64

datatype Value =
    JNull
  | JBool bool
  | JNumber Number
  | JString string
  | JArray "Value list"
  | JObject "(string \<times> Value) list"

fun map_insert :: "string \<Rightarrow> Value \<Rightarrow> (string \<times> Value) list \<Rightarrow> (string \<times> Value) list" where
  "map_insert key v [] = [(key, v)]"
| "map_insert key v ((k, w) # m) =
     (if key < k then (key, v) # (k, w) # m
      else if key = k then (key, v) # m
      else (k, w) # map_insert key v m)"

fun json_get :: "string \<Rightarrow> Value \<Rightarrow> Value option" where
  "json_get key (JObject m) = map_of m key"
| "json_get key v = None"

fun as_str :: "Value \<Rightarrow> string option" where
  "as_str (JString s) = Some s"
| "as_str v = None"

fun as_array :: "Value \<Rightarrow> Value list option" where
  "as_array (JArray vs) = Some vs"
| "as_array v = None"

fun as_u64 :: "Value \<Rightarrow> u64 option" where
  "as_u64 (JNumber (PosInt n)) = Some n"
| "as_u64 v = None"

fun is_object :: "Value \<Rightarrow> bool" where
  "is_object (JObject m) = True"
| "is_object v = False"

text \<open>The values the protocol uses: no fractions or negative numbers, strings of UTF-8, ordered keys.\<close>

fun json_plain :: "Value \<Rightarrow> bool" where
  "json_plain JNull = True"
| "json_plain (JBool b) = True"
| "json_plain (JNumber n) = (case n of PosInt _ \<Rightarrow> True | _ \<Rightarrow> False)"
| "json_plain (JString s) = utf8_valid (as_bytes s)"
| "json_plain (JArray vs) = list_all json_plain vs"
| "json_plain (JObject m) =
     (sorted_wrt (<) (map fst m) \<and> list_all (\<lambda>(k, v). utf8_valid (as_bytes k) \<and> json_plain v) m)"

text \<open>
  serde\_json prints a value on one line, control characters escaped, prints an unsigned number in
  decimal, and reads what it printed.
\<close>

definition json_codec :: "(Value \<Rightarrow> string) \<Rightarrow> (string \<Rightarrow> Value option) \<Rightarrow> bool" where
  "json_codec print_json parse_json \<longleftrightarrow>
     (\<forall>v. json_plain v \<longrightarrow> parse_json (print_json v) = Some v)
     \<and> (\<forall>v. json_plain v \<longrightarrow> CHR 0x0A \<notin> set (print_json v))
     \<and> (\<forall>n. print_json (JNumber (PosInt n)) = show_nat (unat n))"

subsection \<open>Responses\<close>

definition NAMESPACE :: string where
  "NAMESPACE = ''uartbus''"

definition with_trace :: "(string \<times> Value) list \<Rightarrow> string option \<Rightarrow> Value" where
  "with_trace response trace =
     JObject (case trace of Some t \<Rightarrow> map_insert ''t'' (JString t) response | None \<Rightarrow> response)"

definition result_response :: "string option \<Rightarrow> Value \<Rightarrow> Value" where
  "result_response trace result = with_trace [(''r'', result)] trace"

definition error_response :: "string option \<Rightarrow> string \<Rightarrow> string \<Rightarrow> Value" where
  "error_response trace kind message =
     with_trace
       [(''e'', JObject [(''detail'', JString (kind @ '': '' @ message)), (''message'', JString message),
                       (''type'', JString kind)])]
       trace"

definition trace_of :: "(Value \<Rightarrow> string) \<Rightarrow> Value \<Rightarrow> string option" where
  "trace_of print_json request =
     (case json_get ''t'' request of
        None \<Rightarrow> None
      | Some JNull \<Rightarrow> None
      | Some (JString s) \<Rightarrow> Some s
      | Some other \<Rightarrow> Some (print_json other))"

definition string_param :: "Value list \<Rightarrow> nat \<Rightarrow> string + string" where
  "string_param params index =
     (case (if index < length params then as_str (params ! index) else None) of
        Some s \<Rightarrow> Inr s
      | None \<Rightarrow> Inl ''wrong number of arguments'')"

subsection \<open>A client connection\<close>

text \<open>
  \<open>next_packet_requests\<close> holds the trace ids sent to the pump thread and not answered yet, once the pump is
  started; \<open>pump_stopped\<close> tells that it ended because a response could not be written.
\<close>

record ClientHandler =
  handler_session :: "nat option"
  next_packet_requests :: "string option list option"
  pump_stopped :: bool

definition handler_new :: ClientHandler where
  "handler_new = \<lparr>handler_session = None, next_packet_requests = None, pump_stopped = False\<rparr>"

definition get_session ::
    "ClientHandler \<Rightarrow> 'w UartbusRpcEndpoint \<Rightarrow> (string + nat) \<times> ClientHandler \<times> 'w UartbusRpcEndpoint" where
  "get_session h ep =
     (case handler_session h of
        Some p \<Rightarrow> (Inr p, h, ep)
      | None \<Rightarrow>
          (case new_session ep of
             (Inl e, ep') \<Rightarrow> (Inl e, h, ep')
           | (Inr p, ep') \<Rightarrow> (Inr p, h\<lparr>handler_session := Some p\<rparr>, ep')))"

definition queue_next_packet ::
    "string option \<Rightarrow> ClientHandler \<Rightarrow> 'w UartbusRpcEndpoint \<Rightarrow> (string + unit) \<times> ClientHandler \<times> 'w UartbusRpcEndpoint" where
  "queue_next_packet trace h ep =
     (case get_session h ep of
        (Inl e, h, ep) \<Rightarrow> (Inl e, h, ep)
      | (Inr _, h, ep) \<Rightarrow>
          if pump_stopped h then (Inl ''packet pump stopped'', h, ep)
          else (Inr (),
                h\<lparr>next_packet_requests :=
                    Some ((case next_packet_requests h of None \<Rightarrow> [] | Some q \<Rightarrow> q) @ [trace])\<rparr>,
                ep))"

text \<open>One turn of the pump thread; \<open>write_ok\<close> tells whether the response can be written.\<close>

definition pump ::
    "bool \<Rightarrow> ClientHandler \<Rightarrow> 'w UartbusRpcEndpoint \<Rightarrow> Value option \<times> ClientHandler \<times> 'w UartbusRpcEndpoint" where
  "pump write_ok h ep =
     (case (next_packet_requests h, handler_session h) of
        (Some (trace # queue), Some p) \<Rightarrow>
          if pump_stopped h then (None, h, ep)
          else
            let respond = (\<lambda>response ep'.
                  (if write_ok then Some response else None,
                   h\<lparr>next_packet_requests := Some queue, pump_stopped := \<not> write_ok\<rparr>, ep'))
            in (case take_from p ep of
                  (Taken packet, ep') \<Rightarrow> respond (result_response trace (JString (encode packet))) ep'
                | (TakeEof err, ep') \<Rightarrow> respond (error_response trace ''EOFException'' err) ep'
                | (TakeBlocks, ep') \<Rightarrow> (None, h, ep'))
      | _ \<Rightarrow> (None, h, ep))"

text \<open>The functions; the result is an error with its kind, or a value.\<close>

definition handle_init ::
    "ClientHandler \<Rightarrow> 'w UartbusRpcEndpoint \<Rightarrow> (string \<times> string + Value) \<times> ClientHandler \<times> 'w UartbusRpcEndpoint" where
  "handle_init h ep =
     (case get_session h ep of
        (Inl e, s) \<Rightarrow> (Inl (''EOFException'', e), s)
      | (Inr _, s) \<Rightarrow> (Inr JNull, s))"

definition handle_send_packet ::
    "'w UartbusPacketConnector \<Rightarrow> Value list \<Rightarrow> ClientHandler \<Rightarrow> 'w UartbusRpcEndpoint
      \<Rightarrow> (string \<times> string + Value) \<times> ClientHandler \<times> 'w UartbusRpcEndpoint" where
  "handle_send_packet connector params h ep =
     (case (case string_param params 0 of Inl e \<Rightarrow> Inl e | Inr txt \<Rightarrow> decode txt) of
        Inl e \<Rightarrow> (Inl (''IllegalArgumentException'', e), h, ep)
      | Inr packet \<Rightarrow>
          (case endpoint_send_packet connector packet ep of
             (Inl e, ep') \<Rightarrow> (Inl (''IOException'', e), h, ep')
           | (Inr _, ep') \<Rightarrow> (Inr JNull, h, ep')))"

definition list_attributes_json :: Value where
  "list_attributes_json = JObject (map (\<lambda>(k, v). (k, JString v)) (RBT.entries list_attributes))"

definition handle_get_attribute ::
    "Value list \<Rightarrow> ClientHandler \<Rightarrow> 'w UartbusRpcEndpoint \<Rightarrow> (string \<times> string + Value) \<times> ClientHandler \<times> 'w UartbusRpcEndpoint" where
  "handle_get_attribute params h ep =
     (case string_param params 0 of
        Inl e \<Rightarrow> (Inl (''IllegalArgumentException'', e), h, ep)
      | Inr key \<Rightarrow>
          (case get_session h ep of
             (Inl e, s) \<Rightarrow> (Inl (''EOFException'', e), s)
           | (Inr p, h, ep) \<Rightarrow>
               (Inr (case inproc_get_attribute p key ep of None \<Rightarrow> JNull | Some v \<Rightarrow> JString v), h, ep)))"

definition handle_set_attribute ::
    "Value list \<Rightarrow> ClientHandler \<Rightarrow> 'w UartbusRpcEndpoint \<Rightarrow> (string \<times> string + Value) \<times> ClientHandler \<times> 'w UartbusRpcEndpoint" where
  "handle_set_attribute params h ep =
     (case (string_param params 0, string_param params 1) of
        (Inl e, _) \<Rightarrow> (Inl (''IllegalArgumentException'', e), h, ep)
      | (_, Inl e) \<Rightarrow> (Inl (''IllegalArgumentException'', e), h, ep)
      | (Inr key, Inr v) \<Rightarrow>
          (case get_session h ep of
             (Inl e, s) \<Rightarrow> (Inl (''EOFException'', e), s)
           | (Inr p, h, ep) \<Rightarrow>
               (case inproc_set_attribute p key v ep of
                  (Inl e, ep') \<Rightarrow> (Inl (''RuntimeException'', e), h, ep')
                | (Inr _, ep') \<Rightarrow> (Inr JNull, h, ep'))))"

definition handle_close ::
    "ClientHandler \<Rightarrow> 'w UartbusRpcEndpoint \<Rightarrow> (string \<times> string + Value) \<times> ClientHandler \<times> 'w UartbusRpcEndpoint" where
  "handle_close h ep =
     (Inr JNull, h, case handler_session h of Some p \<Rightarrow> update_session p session_close ep | None \<Rightarrow> ep)"

definition answer ::
    "string option \<Rightarrow> (string \<times> string + Value) \<times> ClientHandler \<times> 'w UartbusRpcEndpoint
      \<Rightarrow> Value option \<times> ClientHandler \<times> 'w UartbusRpcEndpoint" where
  "answer trace r =
     (Some (case fst r of Inr v \<Rightarrow> result_response trace v | Inl (kind, message) \<Rightarrow> error_response trace kind message),
      snd r)"

definition handle ::
    "(Value \<Rightarrow> string) \<Rightarrow> 'w UartbusPacketConnector \<Rightarrow> Value \<Rightarrow> ClientHandler \<Rightarrow> 'w UartbusRpcEndpoint
      \<Rightarrow> Value option \<times> ClientHandler \<times> 'w UartbusRpcEndpoint" where
  "handle print_json connector request h ep =
     (let trace = trace_of print_json request;
          namespace = Option.bind (json_get ''N'' request) as_str
      in if namespace \<noteq> Some NAMESPACE
         then (Some (error_response trace ''RuntimeException''
                 (''Unknown RPC namespace: '' @ (case namespace of Some n \<Rightarrow> n | None \<Rightarrow> ''null'')
                  @ ''. The only namespace of this server is `'' @ NAMESPACE @ ''`'')), h, ep)
         else
           let function_name = (case Option.bind (json_get ''f'' request) as_str of Some f \<Rightarrow> f | None \<Rightarrow> '''');
               params = (case Option.bind (json_get ''p'' request) as_array of Some ps \<Rightarrow> ps | None \<Rightarrow> [])
           in if function_name = ''init'' then answer trace (handle_init h ep)
              else if function_name = ''sendPacket'' then answer trace (handle_send_packet connector params h ep)
              else if function_name = ''listAttributes'' then answer trace (Inr list_attributes_json, h, ep)
              else if function_name = ''getAttribute'' then answer trace (handle_get_attribute params h ep)
              else if function_name = ''setAttribute'' then answer trace (handle_set_attribute params h ep)
              else if function_name = ''getNextPacket''
                then (case queue_next_packet trace h ep of
                        (Inr _, s) \<Rightarrow> (None, s)
                      | (Inl e, s) \<Rightarrow> answer trace (Inl (''EOFException'', e), s))
              else if function_name = ''close'' then answer trace (handle_close h ep)
              else answer trace (Inl (''RuntimeException'', ''Method not found: '' @ function_name), h, ep))"

text \<open>
  One line of a client: the lines written, and whether the connection goes on.
\<close>

definition serve_line ::
    "(Value \<Rightarrow> string) \<Rightarrow> (string \<Rightarrow> Value option) \<Rightarrow> 'w UartbusPacketConnector \<Rightarrow> bool \<Rightarrow> string
      \<Rightarrow> ClientHandler \<Rightarrow> 'w UartbusRpcEndpoint \<Rightarrow> bool \<times> string list \<times> ClientHandler \<times> 'w UartbusRpcEndpoint" where
  "serve_line print_json parse_json connector write_ok line h ep =
     (case parse_json line of
        None \<Rightarrow> (False, [], h, ep)
      | Some request \<Rightarrow>
          if \<not> is_object request then (False, [], h, ep)
          else (case handle print_json connector request h ep of
                  (Some response, h, ep) \<Rightarrow>
                    if write_ok then (True, [print_json response], h, ep) else (False, [], h, ep)
                | (None, h, ep) \<Rightarrow> (True, [], h, ep)))"

definition serve_end :: "ClientHandler \<Rightarrow> 'w UartbusRpcEndpoint \<Rightarrow> 'w UartbusRpcEndpoint" where
  "serve_end h ep = (case handler_session h of Some p \<Rightarrow> remove_session p ep | None \<Rightarrow> ep)"

text \<open>The lines of a client that can be written to, without the turns of the pump between them.\<close>

fun serve_client ::
    "(Value \<Rightarrow> string) \<Rightarrow> (string \<Rightarrow> Value option) \<Rightarrow> 'w UartbusPacketConnector \<Rightarrow> string list
      \<Rightarrow> ClientHandler \<Rightarrow> 'w UartbusRpcEndpoint \<Rightarrow> string list \<times> 'w UartbusRpcEndpoint" where
  "serve_client print_json parse_json connector [] h ep = ([], serve_end h ep)"
| "serve_client print_json parse_json connector (line # lines) h ep =
     (case serve_line print_json parse_json connector True line h ep of
        (goes_on, out, h', ep') \<Rightarrow>
          if goes_on
          then (let (outs, ep'') = serve_client print_json parse_json connector lines h' ep' in (out @ outs, ep''))
          else (out, serve_end h' ep'))"

end
