(* ===== verification/Rpc_Client.thy ===== *)
theory Rpc_Client
  imports Rpc_Server
begin

text \<open>
  The RPC client of the bus access, \<^verbatim>\<open>rpc/client.rs\<close>, and the interface \<^verbatim>\<open>UartbusConnection\<close> over it.  A call is
  its part before the answer and its part after it, with the reader thread between them; the
  channel of a call holds at most the one response the reader sent.
\<close>

subsection \<open>The client\<close>

record TcpRpcClient =
  client_waiting :: "u64 list"
  client_arrived :: "(u64 \<times> Value) list"
  client_closed :: bool
  next_tid :: u64

definition client_new :: TcpRpcClient where
  "client_new = \<lparr>client_waiting = [], client_arrived = [], client_closed = False, next_tid = 0\<rparr>"

definition response_tid :: "Value \<Rightarrow> u64 option" where
  "response_tid response =
     (case json_get ''t'' response of
        None \<Rightarrow> None
      | Some (JString s) \<Rightarrow> parse_u64 s
      | Some other \<Rightarrow> as_u64 other)"

text \<open>A line from the server; a line that is not JSON ends the reader, which wakes every call.\<close>

definition reader_end :: "TcpRpcClient \<Rightarrow> TcpRpcClient" where
  "reader_end c = c\<lparr>client_closed := True, client_waiting := []\<rparr>"

definition reader_line :: "(string \<Rightarrow> Value option) \<Rightarrow> string \<Rightarrow> TcpRpcClient \<Rightarrow> TcpRpcClient" where
  "reader_line parse_json line c =
     (case parse_json line of
        None \<Rightarrow> reader_end c
      | Some response \<Rightarrow>
          (case response_tid response of
             None \<Rightarrow> c
           | Some tid \<Rightarrow>
               if tid \<in> set (client_waiting c)
               then c\<lparr>client_waiting := filter (\<lambda>t. t \<noteq> tid) (client_waiting c),
                      client_arrived := (tid, response) # client_arrived c\<rparr>
               else c))"

definition rpc_request :: "u64 \<Rightarrow> string \<Rightarrow> Value \<Rightarrow> Value" where
  "rpc_request tid function_name params =
     JObject [(''N'', JString NAMESPACE), (''f'', JString function_name), (''p'', params), (''t'', JNumber (PosInt tid))]"

text \<open>\<open>written\<close> is the result of writing the line to the stream.\<close>

definition call_start ::
    "(Value \<Rightarrow> string) \<Rightarrow> string + unit \<Rightarrow> string \<Rightarrow> Value \<Rightarrow> TcpRpcClient \<Rightarrow> (string + u64 \<times> string) \<times> TcpRpcClient" where
  "call_start print_json written function_name params c =
     (let tid = next_tid c + 1; c = c\<lparr>next_tid := tid\<rparr>
      in if client_closed c then (Inl ''RPC connection closed'', c)
         else
           let c = c\<lparr>client_waiting := tid # filter (\<lambda>t. t \<noteq> tid) (client_waiting c)\<rparr>
           in (case written of
                 Inl err \<Rightarrow> (Inl err, c\<lparr>client_waiting := filter (\<lambda>t. t \<noteq> tid) (client_waiting c)\<rparr>)
               | Inr _ \<Rightarrow> (Inr (tid, print_json (rpc_request tid function_name params)), c)))"

datatype 'a CallResult = CallBlocks | CallErr string | CallOk 'a

definition response_result :: "Value \<Rightarrow> Value CallResult" where
  "response_result response =
     (case json_get ''e'' response of
        None \<Rightarrow> CallOk (case json_get ''r'' response of Some v \<Rightarrow> v | None \<Rightarrow> JNull)
      | Some JNull \<Rightarrow> CallOk (case json_get ''r'' response of Some v \<Rightarrow> v | None \<Rightarrow> JNull)
      | Some error \<Rightarrow>
          let kind = (case Option.bind (json_get ''type'' error) as_str of Some k \<Rightarrow> k | None \<Rightarrow> ''Error'');
              message = (case Option.bind (json_get ''message'' error) as_str of Some m \<Rightarrow> m | None \<Rightarrow> '''')
          in CallErr (kind @ '': '' @ message))"

definition call_finish :: "u64 \<Rightarrow> TcpRpcClient \<Rightarrow> Value CallResult \<times> TcpRpcClient" where
  "call_finish tid c =
     (case map_of (client_arrived c) tid of
        Some response \<Rightarrow>
          (response_result response, c\<lparr>client_arrived := filter (\<lambda>(t, _). t \<noteq> tid) (client_arrived c)\<rparr>)
      | None \<Rightarrow>
          if tid \<in> set (client_waiting c) then (CallBlocks, c) else (CallErr ''RPC connection closed'', c))"

subsection \<open>The connection\<close>

text \<open>The calls of \<^verbatim>\<open>UartbusConnection\<close>: the request of each one, and the reading of its result.\<close>

datatype ConnectionCall =
    CInit
  | CSendPacket bytes
  | CListAttributes
  | CGetAttribute string
  | CSetAttribute string string
  | CGetNextPacket

datatype ConnectionResult =
    RUnit
  | RAttributes "(string, string) rbt"
  | RAttribute "string option"
  | RPacket bytes

fun call_request :: "ConnectionCall \<Rightarrow> string \<times> Value" where
  "call_request CInit = (''init'', JArray [])"
| "call_request (CSendPacket data) = (''sendPacket'', JArray [JString (encode data)])"
| "call_request CListAttributes = (''listAttributes'', JArray [])"
| "call_request (CGetAttribute key) = (''getAttribute'', JArray [JString key])"
| "call_request (CSetAttribute key v) = (''setAttribute'', JArray [JString key, JString v])"
| "call_request CGetNextPacket = (''getNextPacket'', JArray [])"

definition attributes_of :: "Value \<Rightarrow> (string, string) rbt" where
  "attributes_of v =
     (case v of
        JObject m \<Rightarrow> fold (\<lambda>(k, x). RBT.insert k (case as_str x of Some s \<Rightarrow> s | None \<Rightarrow> '''')) m RBT.empty
      | _ \<Rightarrow> RBT.empty)"

definition packet_of :: "(Value \<Rightarrow> string) \<Rightarrow> Value \<Rightarrow> ConnectionResult CallResult" where
  "packet_of print_json v =
     (case v of
        JString packet \<Rightarrow> (case decode packet of Inl e \<Rightarrow> CallErr e | Inr data \<Rightarrow> CallOk (RPacket data))
      | other \<Rightarrow> CallErr (''getNextPacket returned something that is not a packet: '' @ print_json other))"

definition call_result :: "(Value \<Rightarrow> string) \<Rightarrow> ConnectionCall \<Rightarrow> Value CallResult \<Rightarrow> ConnectionResult CallResult" where
  "call_result print_json call r =
     (case r of
        CallBlocks \<Rightarrow> CallBlocks
      | CallErr e \<Rightarrow> CallErr e
      | CallOk v \<Rightarrow>
          (case call of
             CListAttributes \<Rightarrow> CallOk (RAttributes (attributes_of v))
           | CGetAttribute _ \<Rightarrow> CallOk (RAttribute (as_str v))
           | CGetNextPacket \<Rightarrow> packet_of print_json v
           | _ \<Rightarrow> CallOk RUnit))"

text \<open>\<^verbatim>\<open>close\<close> shuts the stream down: the reader ends and, on the other side, the server removes the session.\<close>

definition client_close ::
    "TcpRpcClient \<Rightarrow> ClientHandler \<Rightarrow> 'w UartbusRpcEndpoint \<Rightarrow> TcpRpcClient \<times> 'w UartbusRpcEndpoint" where
  "client_close c h ep = (reader_end c, serve_end h ep)"

subsection \<open>Client and server together\<close>

text \<open>
  A call over the connection: the request travels to the server, which answers it or leaves it to
  the pump, and the answer travels back.  The other threads may act on the endpoint between two
  calls; a call that blocks is tried again as a later turn of the pump.
\<close>

type_synonym 'w Link = "TcpRpcClient \<times> ClientHandler \<times> 'w UartbusRpcEndpoint"

definition tcp_call ::
    "(Value \<Rightarrow> string) \<Rightarrow> (string \<Rightarrow> Value option) \<Rightarrow> 'w UartbusPacketConnector \<Rightarrow> ConnectionCall \<Rightarrow> 'w Link
      \<Rightarrow> ConnectionResult CallResult \<times> 'w Link" where
  "tcp_call print_json parse_json connector call link =
     (case link of (c, h, ep) \<Rightarrow>
        (case call_start print_json (Inr ()) (fst (call_request call)) (snd (call_request call)) c of
           (Inl e, c) \<Rightarrow> (CallErr e, c, h, ep)
         | (Inr (tid, line), c) \<Rightarrow>
             (case serve_line print_json parse_json connector True line h ep of
                (_, out, h, ep) \<Rightarrow>
                  (case pump True h ep of
                     (pumped, h, ep) \<Rightarrow>
                       let lines = out @ (case pumped of Some v \<Rightarrow> [print_json v] | None \<Rightarrow> []);
                           c = fold (reader_line parse_json) lines c;
                           (r, c) = call_finish tid c
                       in (call_result print_json call r, c, h, ep)))))"

text \<open>The same call on a connection in the process of the server.\<close>

definition inproc_call ::
    "'w UartbusPacketConnector \<Rightarrow> nat \<Rightarrow> ConnectionCall \<Rightarrow> 'w UartbusRpcEndpoint
      \<Rightarrow> ConnectionResult CallResult \<times> 'w UartbusRpcEndpoint" where
  "inproc_call connector p call ep =
     (case call of
        CInit \<Rightarrow> (CallOk RUnit, ep)
      | CSendPacket data \<Rightarrow>
          (case inproc_send_packet connector p data ep of
             (Inl e, ep) \<Rightarrow> (CallErr e, ep) | (Inr _, ep) \<Rightarrow> (CallOk RUnit, ep))
      | CListAttributes \<Rightarrow> (CallOk (RAttributes list_attributes), ep)
      | CGetAttribute key \<Rightarrow> (CallOk (RAttribute (inproc_get_attribute p key ep)), ep)
      | CSetAttribute key v \<Rightarrow>
          (case inproc_set_attribute p key v ep of
             (Inl e, ep) \<Rightarrow> (CallErr e, ep) | (Inr _, ep) \<Rightarrow> (CallOk RUnit, ep))
      | CGetNextPacket \<Rightarrow>
          (case inproc_get_next_packet p ep of
             (Taken packet, ep) \<Rightarrow> (CallOk (RPacket packet), ep)
           | (TakeEof e, ep) \<Rightarrow> (CallErr e, ep)
           | (TakeBlocks, ep) \<Rightarrow> (CallBlocks, ep)))"

subsection \<open>Messages\<close>

abbreviation utf8_text :: "string \<Rightarrow> bool" where
  "utf8_text s \<equiv> utf8_valid (as_bytes s)"

lemma utf8_text_ascii: "list_all (\<lambda>c. of_char c < (128 :: nat)) s \<Longrightarrow> utf8_text s"
proof -
  have "byte_of_char c < 0x80" if "of_char c < (128 :: nat)" for c
    using that by (simp add: byte_of_char_def word_less_nat_alt unat_of_nat)
  then show "list_all (\<lambda>c. of_char c < (128 :: nat)) s \<Longrightarrow> utf8_text s"
    by (intro utf8_valid_ascii) (auto simp: as_bytes_def list_all_iff)
qed

lemma utf8_text_append: "utf8_text s \<Longrightarrow> utf8_text t \<Longrightarrow> utf8_text (s @ t)"
  by (simp add: utf8_valid_append)

lemma utf8_text_encode: "utf8_text (encode data)"
  by (rule utf8_valid_ascii [OF encode_ascii])

lemma utf8_text_show_nat: "utf8_text (show_nat n)"
  using show_nat_digits [of _ n] by (intro utf8_text_ascii) (fastforce simp: list_all_iff)

lemma parse_u64_show: "parse_u64 (show_nat (unat n)) = Some n"
proof -
  have "uint n < 2 ^ 64" using unsigned_less [of n, where ?'a = int] by simp
  then have "parse_int 10 False 0 18446744073709551615 (show_nat (unat n)) = Some (int (unat n))"
    by (intro parse_int_show_nat) simp_all
  then show ?thesis by (simp add: parse_u64_def)
qed

lemma response_shape:
  "result_response (Some t) v = JObject [(''r'', v), (''t'', JString t)]"
  "error_response (Some t) kind message =
     JObject [(''e'', JObject [(''detail'', JString (kind @ '': '' @ message)), (''message'', JString message),
       (''type'', JString kind)]), (''t'', JString t)]"
  by (simp_all add: result_response_def error_response_def with_trace_def)

lemma response_reading [simp]:
  "response_tid (result_response (Some (show_nat (unat tid))) v) = Some tid"
  "response_tid (error_response (Some (show_nat (unat tid))) kind message) = Some tid"
  "response_result (result_response (Some t) v) = CallOk v"
  "response_result (error_response (Some t) kind message) = CallErr (kind @ '': '' @ message)"
  by (simp_all add: response_shape response_tid_def response_result_def parse_u64_show)

lemma utf8_text_literals:
  "utf8_text ''r''" "utf8_text ''t''" "utf8_text ''e''" "utf8_text ''detail''" "utf8_text ''message''" "utf8_text ''type''"
  "utf8_text '': ''" "utf8_text ''N''" "utf8_text ''f''" "utf8_text ''p''" "utf8_text NAMESPACE" "utf8_text ''true''" "utf8_text ''false''"
  "utf8_text ''EOFException''" "utf8_text ''RuntimeException''" "utf8_text ''IOException''"
  by (simp_all add: utf8_text_ascii NAMESPACE_def)

lemma utf8_text_kind: "utf8_text kind \<Longrightarrow> utf8_text message \<Longrightarrow> utf8_text (kind @ CHR '':'' # CHR '' '' # message)"
  using utf8_text_append [of kind "'': '' @ message"] utf8_text_append [OF utf8_text_literals(7), of message] by simp

lemma response_plain:
  "json_plain v \<Longrightarrow> json_plain (result_response (Some (show_nat n)) v)"
  "utf8_text kind \<Longrightarrow> utf8_text message \<Longrightarrow> json_plain (error_response (Some (show_nat n)) kind message)"
  by (simp_all add: response_shape utf8_text_literals utf8_text_show_nat utf8_text_kind del: as_bytes_append)

lemma request_plain: "utf8_text f \<Longrightarrow> json_plain params \<Longrightarrow> json_plain (rpc_request tid f params)"
  by (simp add: rpc_request_def utf8_text_literals)

lemma trace_of_request: "json_codec print_json parse_json \<Longrightarrow> trace_of print_json (rpc_request tid f params) = Some (show_nat (unat tid))"
  by (simp add: trace_of_def rpc_request_def json_codec_def)

subsection \<open>One call\<close>

text \<open>A link with no call under way, whose server side has its session.\<close>

definition link_idle :: "nat \<Rightarrow> TcpRpcClient \<Rightarrow> ClientHandler \<Rightarrow> bool" where
  "link_idle p c h \<longleftrightarrow> \<not> client_closed c \<and> client_waiting c = [] \<and> client_arrived c = []
     \<and> handler_session h = Some p \<and> (next_packet_requests h = None \<or> next_packet_requests h = Some []) \<and> \<not> pump_stopped h"

text \<open>A link on which \<open>getNextPacket\<close> waits for a packet.\<close>

definition link_waits :: "nat \<Rightarrow> u64 \<Rightarrow> TcpRpcClient \<Rightarrow> ClientHandler \<Rightarrow> bool" where
  "link_waits p tid c h \<longleftrightarrow> \<not> client_closed c \<and> client_waiting c = [tid] \<and> client_arrived c = []
     \<and> handler_session h = Some p \<and> next_packet_requests h = Some [Some (show_nat (unat tid))] \<and> \<not> pump_stopped h"

lemma call_start_idle:
  assumes "link_idle p c h"
  shows "call_start print_json (Inr ()) f params c =
    (Inr (next_tid c + 1, print_json (rpc_request (next_tid c + 1) f params)),
     c\<lparr>next_tid := next_tid c + 1, client_waiting := [next_tid c + 1]\<rparr>)"
  using assms by (simp add: call_start_def link_idle_def Let_def)

lemma finish_answered:
  assumes "client_waiting c = [tid]" and "client_arrived c = []" and "parse_json line = Some response" and "response_tid response = Some tid"
  shows "call_finish tid (reader_line parse_json line c) = (response_result response, c\<lparr>client_waiting := []\<rparr>)"
  using assms by (simp add: reader_line_def call_finish_def)

lemma finish_waiting:
  "client_waiting c = [tid] \<Longrightarrow> client_arrived c = [] \<Longrightarrow> call_finish tid c = (CallBlocks, c)"
  by (simp add: call_finish_def)

lemma pump_idle: "link_idle p c h \<Longrightarrow> pump write_ok h ep = (None, h, ep)"
  by (auto simp: pump_def link_idle_def)

text \<open>A call the server answers at once.\<close>

lemma tcp_call_answered:
  assumes codec: "json_codec print_json parse_json" and idle: "link_idle p c h"
    and request: "call_request call = (f, params)" and "utf8_text f" "json_plain params"
    and handled: "handle print_json connector (rpc_request (next_tid c + 1) f params) h ep = (Some response, h, ep')"
    and response: "json_plain response" "response_tid response = Some (next_tid c + 1)"
  shows "\<exists>c'. tcp_call print_json parse_json connector call (c, h, ep) =
    (call_result print_json call (response_result response), c', h, ep') \<and> link_idle p c' h"
proof -
  let ?tid = "next_tid c + 1"
  let ?c = "c\<lparr>next_tid := ?tid, client_waiting := [?tid]\<rparr>"
  have parse: "parse_json (print_json (rpc_request ?tid f params)) = Some (rpc_request ?tid f params)"
    "parse_json (print_json response) = Some response"
    using codec request_plain assms(4,5) response(1) by (auto simp: json_codec_def)
  have served: "serve_line print_json parse_json connector True (print_json (rpc_request ?tid f params)) h ep =
      (True, [print_json response], h, ep')"
    using handled by (simp add: serve_line_def parse(1)) (simp add: rpc_request_def)
  have fin: "call_finish ?tid (reader_line parse_json (print_json response) ?c) = (response_result response, ?c\<lparr>client_waiting := []\<rparr>)"
    using idle parse(2) response(2) by (intro finish_answered) (simp_all add: link_idle_def)
  show ?thesis
    by (rule exI [of _ "?c\<lparr>client_waiting := []\<rparr>"])
      (use idle in \<open>simp add: tcp_call_def request call_start_idle [OF idle] served pump_idle [OF idle] fin; simp add: link_idle_def\<close>)
qed

lemma handle_functions:
  assumes codec: "json_codec print_json parse_json" and t_def: "t = Some (show_nat (unat tid))"
  shows "handle print_json connector (rpc_request tid ''init'' (JArray ps)) h ep = answer t (handle_init h ep)"
    "handle print_json connector (rpc_request tid ''sendPacket'' (JArray ps)) h ep = answer t (handle_send_packet connector ps h ep)"
    "handle print_json connector (rpc_request tid ''listAttributes'' (JArray ps)) h ep = answer t (Inr list_attributes_json, h, ep)"
    "handle print_json connector (rpc_request tid ''getAttribute'' (JArray ps)) h ep = answer t (handle_get_attribute ps h ep)"
    "handle print_json connector (rpc_request tid ''setAttribute'' (JArray ps)) h ep = answer t (handle_set_attribute ps h ep)"
    "handle print_json connector (rpc_request tid ''getNextPacket'' (JArray ps)) h ep =
       (case queue_next_packet t h ep of (Inr _, s) \<Rightarrow> (None, s) | (Inl e, s) \<Rightarrow> answer t (Inl (''EOFException'', e), s))"
  unfolding t_def handle_def trace_of_request [OF codec] by (simp_all add: rpc_request_def Let_def)

lemma get_session_idle: "link_idle p c h \<Longrightarrow> get_session h ep = (Inr p, h, ep)"
  by (simp add: get_session_def link_idle_def)

text \<open>The kind the server puts before the text of an error.\<close>

definition error_kind :: "ConnectionCall \<Rightarrow> string" where
  "error_kind call =
     (case call of CSendPacket _ \<Rightarrow> ''IOException'' | CGetNextPacket \<Rightarrow> ''EOFException'' | _ \<Rightarrow> ''RuntimeException'')"

definition remote_result :: "ConnectionCall \<Rightarrow> ConnectionResult CallResult \<Rightarrow> ConnectionResult CallResult" where
  "remote_result call r = (case r of CallErr e \<Rightarrow> CallErr (error_kind call @ '': '' @ e) | _ \<Rightarrow> r)"

definition call_plain :: "ConnectionCall \<Rightarrow> bool" where
  "call_plain call \<longleftrightarrow>
     (case call of CGetAttribute key \<Rightarrow> utf8_text key | CSetAttribute key v \<Rightarrow> utf8_text key \<and> utf8_text v | _ \<Rightarrow> True)"

definition connector_plain :: "'w UartbusPacketConnector \<Rightarrow> bool" where
  "connector_plain connector \<longleftrightarrow> (\<forall>data w e. fst (conn_send connector data w) = Inl e \<longrightarrow> utf8_text e)"

lemma list_attributes_entries:
  "RBT.entries list_attributes =
     [(''loopback_send_packets'',
       ''The call of `getNextPacket` functions returns also the you sent with `sendPacket`. Used to implement full network sniffing'')]"
  by code_simp

lemma attributes_roundtrip: "attributes_of list_attributes_json = list_attributes"
  unfolding list_attributes_json_def list_attributes_entries attributes_of_def
  by (simp add: list_attributes_def ATTR_LOOPBACK_SEND_PACKETS_def)

lemma attributes_plain: "json_plain list_attributes_json"
  unfolding list_attributes_json_def list_attributes_entries by (simp add: utf8_text_ascii)

lemma utf8_text_names:
  "utf8_text ''init''" "utf8_text ''sendPacket''" "utf8_text ''listAttributes''" "utf8_text ''getAttribute''"
  "utf8_text ''setAttribute''" "utf8_text ''getNextPacket''"
  by (simp_all add: utf8_text_ascii)

text \<open>The result the server computes decides the result of the call.\<close>

definition answers_as :: "(Value \<Rightarrow> string) \<Rightarrow> ConnectionCall \<Rightarrow> ConnectionResult CallResult \<Rightarrow> string \<times> string + Value \<Rightarrow> bool" where
  "answers_as print_json call r res \<longleftrightarrow>
     (case res of
        Inr v \<Rightarrow> json_plain v \<and> call_result print_json call (CallOk v) = remote_result call r
      | Inl (kind, message) \<Rightarrow> utf8_text kind \<and> utf8_text message \<and> remote_result call r = CallErr (kind @ '': '' @ message))"

lemma tcp_call_by_result:
  assumes codec: "json_codec print_json parse_json" and idle: "link_idle p c h"
    and request: "call_request call = (f, JArray ps)" "utf8_text f" "list_all json_plain ps"
    and handled: "handle print_json connector (rpc_request (next_tid c + 1) f (JArray ps)) h ep =
      answer (Some (show_nat (unat (next_tid c + 1)))) (res, h, ep')"
    and res: "answers_as print_json call r res"
  shows "\<exists>c'. tcp_call print_json parse_json connector call (c, h, ep) = (remote_result call r, c', h, ep') \<and> link_idle p c' h"
proof (cases res)
  case (Inr v)
  with assms show ?thesis
    using tcp_call_answered [OF codec idle request(1,2), of connector ep "result_response (Some (show_nat (unat (next_tid c + 1)))) v" ep']
    by (simp add: answer_def response_plain answers_as_def)
next
  case (Inl e)
  then obtain kind message where "res = Inl (kind, message)" by (cases e) simp
  with assms show ?thesis
    using tcp_call_answered [OF codec idle request(1,2), of connector ep "error_response (Some (show_nat (unat (next_tid c + 1)))) kind message" ep']
    by (simp add: answer_def response_plain call_result_def answers_as_def)
qed

lemma tcp_send_packet:
  assumes codec: "json_codec print_json parse_json" and conn: "connector_plain connector" and idle: "link_idle p c h"
    and inproc: "inproc_call connector p (CSendPacket data) ep = (r, ep')"
  shows "\<exists>c'. tcp_call print_json parse_json connector (CSendPacket data) (c, h, ep) = (remote_result (CSendPacket data) r, c', h, ep') \<and> link_idle p c' h"
proof -
  obtain q where q: "endpoint_send_packet connector data ep = (q, ep')" and r: "r = (case q of Inl e \<Rightarrow> CallErr e | Inr _ \<Rightarrow> CallOk RUnit)"
    using inproc by (auto simp: inproc_call_def inproc_send_packet_def split: prod.splits sum.splits)
  have "utf8_text e" if "q = Inl e" for e
    using conn q that by (auto simp: endpoint_send_packet_def connector_plain_def split: prod.splits sum.splits) (metis fst_conv)
  then show ?thesis
    using q r by (intro tcp_call_by_result [OF codec idle, of _ "''sendPacket''" "[JString (encode data)]" _ _
          "case q of Inl e \<Rightarrow> Inl (''IOException'', e) | Inr _ \<Rightarrow> Inr JNull"])
      (auto simp: utf8_text_names utf8_text_encode utf8_text_literals handle_functions [OF codec refl] handle_send_packet_def
        string_param_def decode_encoded remote_result_def error_kind_def call_result_def answers_as_def split: sum.splits)
qed

lemma tcp_set_attribute:
  assumes codec: "json_codec print_json parse_json" and idle: "link_idle p c h" and plain: "utf8_text key" "utf8_text v"
    and inproc: "inproc_call connector p (CSetAttribute key v) ep = (r, ep')"
  shows "\<exists>c'. tcp_call print_json parse_json connector (CSetAttribute key v) (c, h, ep) =
    (remote_result (CSetAttribute key v) r, c', h, ep') \<and> link_idle p c' h"
proof -
  obtain q where q: "inproc_set_attribute p key v ep = (q, ep')" and r: "r = (case q of Inl e \<Rightarrow> CallErr e | Inr _ \<Rightarrow> CallOk RUnit)"
    using inproc by (auto simp: inproc_call_def split: prod.splits sum.splits)
  have "utf8_text e" if "q = Inl e" for e
  proof -
    have "e = ''The given value `'' @ v @ ''` can not be casted to boolean.''"
      using q that by (auto simp: inproc_set_attribute_eq set_attribute_def split: if_splits option.splits)
    moreover have "utf8_text ''The given value `''" "utf8_text ''` can not be casted to boolean.''"
      by (simp_all add: utf8_text_ascii)
    ultimately show ?thesis using plain(2) utf8_text_append by metis
  qed
  then show ?thesis
    using q r plain by (intro tcp_call_by_result [OF codec idle, of _ "''setAttribute''" "[JString key, JString v]" _ _
          "case q of Inl e \<Rightarrow> Inl (''RuntimeException'', e) | Inr _ \<Rightarrow> Inr JNull"])
      (auto simp: utf8_text_names utf8_text_literals handle_functions [OF codec refl] handle_set_attribute_def
        string_param_def get_session_idle [OF idle] remote_result_def error_kind_def call_result_def answers_as_def split: sum.splits)
qed

lemma tcp_call_immediate:
  assumes codec: "json_codec print_json parse_json" and conn: "connector_plain connector"
    and idle: "link_idle p c h" and plain: "call_plain call" and call: "call \<noteq> CGetNextPacket"
    and inproc: "inproc_call connector p call ep = (r, ep')"
  shows "\<exists>c'. tcp_call print_json parse_json connector call (c, h, ep) = (remote_result call r, c', h, ep') \<and> link_idle p c' h"
proof (cases call)
  case CInit
  then show ?thesis
    using inproc by (intro tcp_call_by_result [OF codec idle, of _ "''init''" "[]" _ _ "Inr JNull"])
      (auto simp: utf8_text_names handle_functions [OF codec refl] handle_init_def get_session_idle [OF idle] call_result_def
        inproc_call_def remote_result_def answers_as_def)
next
  case (CSendPacket data)
  then show ?thesis using tcp_send_packet [OF codec conn idle] inproc by simp
next
  case CListAttributes
  then show ?thesis
    using inproc by (intro tcp_call_by_result [OF codec idle, of _ "''listAttributes''" "[]" _ _ "Inr list_attributes_json"])
      (auto simp: utf8_text_names handle_functions [OF codec refl] call_result_def inproc_call_def remote_result_def
        attributes_roundtrip attributes_plain answers_as_def)
next
  case (CGetAttribute key)
  let ?v = "case inproc_get_attribute p key ep of None \<Rightarrow> JNull | Some v \<Rightarrow> JString v"
  have "json_plain ?v" by (auto simp: inproc_get_attribute_def get_attribute_def show_bool_def utf8_text_literals)
  with CGetAttribute show ?thesis
    using inproc plain by (intro tcp_call_by_result [OF codec idle, of _ "''getAttribute''" "[JString key]" _ _ "Inr ?v"])
      (auto simp: utf8_text_names handle_functions [OF codec refl] handle_get_attribute_def string_param_def get_session_idle [OF idle]
        call_result_def inproc_call_def remote_result_def call_plain_def answers_as_def split: option.splits)
next
  case (CSetAttribute key v)
  then have "utf8_text key" "utf8_text v" "inproc_call connector p (CSetAttribute key v) ep = (r, ep')"
    using inproc plain by (simp_all add: call_plain_def)
  with CSetAttribute show ?thesis using tcp_set_attribute [OF codec idle] by blast
qed (use call in simp)

text \<open>A turn of the pump for a call that waits.\<close>

definition tcp_turn ::
    "(Value \<Rightarrow> string) \<Rightarrow> (string \<Rightarrow> Value option) \<Rightarrow> u64 \<Rightarrow> 'w Link \<Rightarrow> ConnectionResult CallResult \<times> 'w Link" where
  "tcp_turn print_json parse_json tid link =
     (case link of (c, h, ep) \<Rightarrow>
        (case pump True h ep of
           (pumped, h, ep) \<Rightarrow>
             let c = fold (reader_line parse_json) (case pumped of Some v \<Rightarrow> [print_json v] | None \<Rightarrow> []) c;
                 (r, c) = call_finish tid c
             in (call_result print_json CGetNextPacket r, c, h, ep)))"

lemma tcp_turn_waiting:
  assumes codec: "json_codec print_json parse_json" and waits: "link_waits p tid c h"
    and inproc: "inproc_call connector p CGetNextPacket ep = (r, ep')"
  shows "\<exists>c' h'. tcp_turn print_json parse_json tid (c, h, ep) = (remote_result CGetNextPacket r, c', h', ep')
    \<and> (if r = CallBlocks then link_waits p tid c' h' else link_idle p c' h')"
proof -
  let ?t = "Some (show_nat (unat tid))"
  have w: "client_waiting c = [tid]" "client_arrived c = []" using waits by (simp_all add: link_waits_def)
  obtain q where q: "take_from p ep = (q, ep')"
    using inproc by (auto simp: inproc_call_def inproc_get_next_packet_def split: prod.splits TakeResult.splits)
  show ?thesis
  proof (cases q)
    case (Taken packet)
    let ?v = "result_response ?t (JString (encode packet))"
    have "parse_json (print_json ?v) = Some ?v" using codec by (simp add: json_codec_def response_plain utf8_text_encode)
    from finish_answered [where response = ?v and line = "print_json ?v" and parse_json = parse_json, OF w this] Taken q show ?thesis
      using waits inproc by (auto simp: tcp_turn_def pump_def link_waits_def link_idle_def call_result_def packet_of_def
          decode_encoded inproc_call_def inproc_get_next_packet_def remote_result_def)
  next
    case (TakeEof e)
    then have e: "e = ''End of receive.''" using q by (auto simp: take_from_eq session_take_def split: list.splits if_splits)
    let ?v = "error_response ?t ''EOFException'' e"
    have "utf8_text e" by (simp add: e utf8_text_ascii)
    then have "parse_json (print_json ?v) = Some ?v" using codec by (simp add: json_codec_def response_plain utf8_text_literals)
    from finish_answered [where response = ?v and line = "print_json ?v" and parse_json = parse_json, OF w this] TakeEof q show ?thesis
      using waits inproc by (auto simp: tcp_turn_def pump_def link_waits_def link_idle_def call_result_def
          inproc_call_def inproc_get_next_packet_def remote_result_def error_kind_def)
  next
    case TakeBlocks
    with q show ?thesis
      using waits inproc finish_waiting [OF w] by (auto simp: tcp_turn_def pump_def link_waits_def call_result_def
          inproc_call_def inproc_get_next_packet_def remote_result_def)
  qed
qed

lemma tcp_get_next_packet_starts:
  assumes codec: "json_codec print_json parse_json" and idle: "link_idle p c h"
  shows "\<exists>c' h'. link_waits p (next_tid c + 1) c' h' \<and>
    tcp_call print_json parse_json connector CGetNextPacket (c, h, ep) =
    tcp_turn print_json parse_json (next_tid c + 1) (c', h', ep)"
proof -
  let ?tid = "next_tid c + 1"
  let ?req = "rpc_request ?tid ''getNextPacket'' (JArray [])"
  let ?h = "h\<lparr>next_packet_requests := Some [Some (show_nat (unat ?tid))]\<rparr>"
  have "parse_json (print_json ?req) = Some ?req"
    using codec by (simp add: json_codec_def request_plain utf8_text_names)
  moreover have "handle print_json connector ?req h ep = (None, ?h, ep)"
    using idle by (auto simp: handle_functions [OF codec refl] queue_next_packet_def get_session_idle [OF idle] link_idle_def)
  moreover have "is_object ?req" by (simp add: rpc_request_def)
  ultimately have "serve_line print_json parse_json connector True (print_json ?req) h ep = (True, [], ?h, ep)"
    by (simp add: serve_line_def)
  then show ?thesis
    using idle by (intro exI [of _ "c\<lparr>next_tid := ?tid, client_waiting := [?tid]\<rparr>"] exI [of _ ?h])
      (simp add: tcp_call_def tcp_turn_def call_start_idle [OF idle] Let_def case_prod_unfold; simp add: link_idle_def link_waits_def)
qed

lemma tcp_call_refines:
  assumes "json_codec print_json parse_json" and "connector_plain connector" and "link_idle p c h" and "call_plain call"
    and "inproc_call connector p call ep = (r, ep')"
  shows "\<exists>c' h'. tcp_call print_json parse_json connector call (c, h, ep) = (remote_result call r, c', h', ep')
    \<and> (if r = CallBlocks then link_waits p (next_tid c + 1) c' h' else link_idle p c' h')"
proof (cases "call = CGetNextPacket")
  case True
  then show ?thesis
    using tcp_get_next_packet_starts [OF assms(1,3), of connector ep] tcp_turn_waiting [OF assms(1)] assms(5) by metis
next
  case False
  then have "r \<noteq> CallBlocks"
    using assms(5) by (cases call) (auto simp: inproc_call_def split: prod.splits sum.splits)
  then show ?thesis using tcp_call_immediate [OF assms(1-4) False assms(5)] by auto
qed

subsection \<open>A connection\<close>

text \<open>
  A client that makes calls one after the other while the other threads act on the endpoint between
  them, until a call blocks: over TCP, and in the process of the server.
\<close>

fun tcp_session ::
    "(Value \<Rightarrow> string) \<Rightarrow> (string \<Rightarrow> Value option) \<Rightarrow> 'w UartbusPacketConnector \<Rightarrow> (EndpointEvent list \<times> ConnectionCall) list
      \<Rightarrow> 'w Link \<Rightarrow> ConnectionResult CallResult list \<times> 'w Link" where
  "tcp_session print_json parse_json connector [] link = ([], link)"
| "tcp_session print_json parse_json connector ((evs, call) # steps) link =
     (case link of (c, h, ep) \<Rightarrow>
        let (r, link) = tcp_call print_json parse_json connector call (c, h, snd (endpoint_run connector evs ep))
        in if r = CallBlocks then ([r], link)
           else let (rs, link) = tcp_session print_json parse_json connector steps link in (r # rs, link))"

fun inproc_session ::
    "'w UartbusPacketConnector \<Rightarrow> nat \<Rightarrow> (EndpointEvent list \<times> ConnectionCall) list \<Rightarrow> 'w UartbusRpcEndpoint
      \<Rightarrow> ConnectionResult CallResult list \<times> 'w UartbusRpcEndpoint" where
  "inproc_session connector p [] ep = ([], ep)"
| "inproc_session connector p ((evs, call) # steps) ep =
     (let (r, ep) = inproc_call connector p call (snd (endpoint_run connector evs ep))
      in if r = CallBlocks then ([r], ep)
         else let (rs, ep) = inproc_session connector p steps ep in (r # rs, ep))"

lemma remote_result_blocks [simp]: "remote_result call r = CallBlocks \<longleftrightarrow> r = CallBlocks"
  by (cases r) (simp_all add: remote_result_def)

lemma tcp_session_refines:
  assumes "json_codec print_json parse_json" and "connector_plain connector" and "link_idle p c h"
    and "list_all (\<lambda>(_, call). call_plain call) steps" and "inproc_session connector p steps ep = (rs, ep')"
  shows "\<exists>c' h'. tcp_session print_json parse_json connector steps (c, h, ep) =
    (map2 remote_result (map snd steps) rs, c', h', ep')"
  using assms(3-5)
proof (induction steps arbitrary: c h ep rs)
  case Nil
  then show ?case by simp
next
  case (Cons step steps)
  obtain evs call where step: "step = (evs, call)" by (cases step)
  obtain r ep1 where r: "inproc_call connector p call (snd (endpoint_run connector evs ep)) = (r, ep1)" by fastforce
  obtain c' h' where tcp: "tcp_call print_json parse_json connector call (c, h, snd (endpoint_run connector evs ep)) =
      (remote_result call r, c', h', ep1)" "r \<noteq> CallBlocks \<Longrightarrow> link_idle p c' h'"
    using tcp_call_refines [OF assms(1,2) Cons.prems(1) _ r] Cons.prems(2) by (auto simp: step)
  show ?case
  proof (cases "r = CallBlocks")
    case True
    then show ?thesis using Cons.prems(3) tcp r by (auto simp: step)
  next
    case False
    then obtain rs' where rs': "inproc_session connector p steps ep1 = (rs', ep')" "rs = r # rs'"
      using Cons.prems(3) r by (auto simp: step split: prod.splits)
    with Cons.IH [OF tcp(2) [OF False], of ep1 rs'] Cons.prems(2) obtain c'' h'' where
      "tcp_session print_json parse_json connector steps (c', h', ep1) = (map2 remote_result (map snd steps) rs', c'', h'', ep')"
      by auto
    with False tcp rs' show ?thesis by (simp add: step)
  qed
qed

lemma tcp_init:
  assumes codec: "json_codec print_json parse_json" and new: "new_session ep = (Inr p, ep')"
  shows "\<exists>c h. tcp_call print_json parse_json connector CInit (client_new, handler_new, ep) = (CallOk RUnit, c, h, ep') \<and> link_idle p c h"
proof -
  define tid where "tid = next_tid client_new + 1"
  let ?req = "rpc_request tid ''init'' (JArray [])" and ?h = "handler_new\<lparr>handler_session := Some p\<rparr>"
  let ?resp = "result_response (Some (show_nat (unat tid))) JNull"
  let ?c = "client_new\<lparr>next_tid := tid, client_waiting := [tid]\<rparr>"
  have parse: "parse_json (print_json ?req) = Some ?req" "parse_json (print_json ?resp) = Some ?resp"
    using codec response_plain(1) [of JNull "unat tid"] by (simp_all add: json_codec_def request_plain utf8_text_names)
  have "handle print_json connector ?req handler_new ep = (Some ?resp, ?h, ep')"
    using new by (simp add: handle_functions [OF codec refl] handle_init_def get_session_def handler_new_def answer_def)
  moreover have "is_object ?req" by (simp add: rpc_request_def)
  ultimately have "serve_line print_json parse_json connector True (print_json ?req) handler_new ep = (True, [print_json ?resp], ?h, ep')"
    by (simp add: serve_line_def parse(1))
  moreover have "call_start print_json (Inr ()) ''init'' (JArray []) client_new = (Inr (tid, print_json ?req), ?c)"
    by (simp add: call_start_def client_new_def tid_def)
  moreover have "pump True ?h ep' = (None, ?h, ep')" by (simp add: pump_def handler_new_def)
  moreover have "call_finish tid (reader_line parse_json (print_json ?resp) ?c) = (response_result ?resp, ?c\<lparr>client_waiting := []\<rparr>)"
    using parse(2) by (intro finish_answered) (simp_all add: client_new_def)
  ultimately show ?thesis
    by (intro exI [of _ "?c\<lparr>client_waiting := []\<rparr>"] exI [of _ ?h])
      (simp add: tcp_call_def call_result_def; simp add: link_idle_def client_new_def handler_new_def)
qed

subsection \<open>A codec\<close>

text \<open>One printer and parser that have the required properties.\<close>

instance word :: (len) countable
  by (rule countable_classI [of unat]) (simp add: word_unat_eq_iff)

instance Number :: countable
  by countable_datatype

instance Value :: countable
  by countable_datatype

fun print_value :: "Value \<Rightarrow> string" where
  "print_value (JNumber (PosInt n)) = show_nat (unat n)"
| "print_value v = ''v'' @ show_nat (to_nat v)"

definition parse_value :: "string \<Rightarrow> Value option" where
  "parse_value s =
     (case s of
        [] \<Rightarrow> None
      | c # digits \<Rightarrow>
          if c = CHR ''v'' then map_option from_nat (parse_digits 10 digits 0)
          else map_option (\<lambda>n. JNumber (PosInt n)) (parse_u64 s))"

lemma json_codec_value: "json_codec print_value parse_value"
proof -
  have show_head: "\<exists>c cs. show_nat n = c # cs \<and> c \<noteq> CHR ''v''" for n
  proof (cases "show_nat n")
    case (Cons c cs)
    then show ?thesis using show_nat_digits [of c n] by auto
  qed simp
  have newline: "CHR 0x0A \<notin> set (show_nat n)" for n using show_nat_digits [of "CHR 0x0A" n] by auto
  have "parse_value (print_value v) = Some v" for v
  proof (cases v rule: print_value.cases)
    case (1 n)
    with show_head [of "unat n"] show ?thesis by (auto simp: parse_value_def simp flip: parse_u64_show)
  qed (simp_all add: parse_value_def parse_digits_show_nat)
  moreover have "CHR 0x0A \<notin> set (print_value v)" for v
    by (cases v rule: print_value.cases) (simp_all add: newline)
  ultimately show ?thesis by (simp add: json_codec_def)
qed

subsection \<open>Properties\<close>



end
