(* ===== verification/Bootloader.thy ===== *)
theory Bootloader
  imports Prelude
begin

text \<open>
  The flashing functions of the firmware, \<^verbatim>\<open>uc/bootloader/ub_bootloader.c\<close> with the page writer of
  \<^verbatim>\<open>ub_atmega.c\<close>.  A handler gets the payload after its path and returns what it replies; the send
  buffer of the firmware holds one packet, so of several replies the first one is sent.  The page
  instructions of the controller (\<^verbatim>\<open>boot_page_erase\<close>, \<^verbatim>\<open>boot_page_fill\<close> and \<^verbatim>\<open>boot_page_write\<close> of avr-libc) are the
  argument \<open>spm_write\<close> of the configuration, with the behaviour \<open>spm_writes_pages\<close> of the data sheet.
\<close>

subsection \<open>State\<close>

record Firmware =
  app_run :: bool
  reset_flag :: u8
  flash_stage :: u8
  flash_crnt_address :: u16
  flash_tmp :: bytes
  program_memory :: "nat \<Rightarrow> u8"

record FirmwareConfig =
  APP_START_ADDRESS :: u16
  SPM_PAGESIZE :: u8
  spm_write :: "nat \<Rightarrow> u16 list \<Rightarrow> (nat \<Rightarrow> u8) \<Rightarrow> nat \<Rightarrow> u8"

definition fw_ENXIO :: u8 where "fw_ENXIO = 6"
definition fw_EFAULT :: u8 where "fw_EFAULT = 14"
definition fw_EINVAL :: u8 where "fw_EINVAL = 22"
definition fw_EBADMSG :: u8 where "fw_EBADMSG = 74"
definition fw_EBADFD :: u8 where "fw_EBADFD = 77"
definition fw_ENOTCONN :: u8 where "fw_ENOTCONN = 107"
definition fw_EALREADY :: u8 where "fw_EALREADY = 114"

text \<open>Erasing, filling and writing a page: the given words, and erased bytes after them.\<close>

definition spm_writes_pages :: "FirmwareConfig \<Rightarrow> bool" where
  "spm_writes_pages cfg \<longleftrightarrow>
     (\<forall>page ws mem a. page mod unat (SPM_PAGESIZE cfg) = 0 \<and> 2 * length ws \<le> unat (SPM_PAGESIZE cfg) \<longrightarrow>
        spm_write cfg page ws mem a =
          (if page \<le> a \<and> a < page + 2 * length ws
           then (if even (a - page) then ucast (ws ! ((a - page) div 2)) else ucast (drop_bit 8 (ws ! ((a - page) div 2))))
           else if page \<le> a \<and> a < page + unat (SPM_PAGESIZE cfg) then 0xff
           else mem a))"

subsection \<open>Variables and reading\<close>

text \<open>
  The start of the firmware after a reset with the flags \<open>mcusr\<close> of the controller: the variables get
  their initial values, the memory is kept.
\<close>

definition firmware_restarted :: "u8 \<Rightarrow> Firmware \<Rightarrow> Firmware" where
  "firmware_restarted mcusr fw = fw\<lparr>reset_flag := mcusr, app_run := mcusr \<noteq> 8, flash_stage := 0, flash_crnt_address := 0\<rparr>"

definition ubh_impl_has_app :: "FirmwareConfig \<Rightarrow> Firmware \<Rightarrow> bool" where
  "ubh_impl_has_app cfg fw \<longleftrightarrow> 0xff \<noteq> program_memory fw (unat (APP_START_ADDRESS cfg))"

definition rpc_bootloader_get_var :: "FirmwareConfig \<Rightarrow> bytes \<Rightarrow> Firmware \<Rightarrow> bytes list \<times> Firmware" where
  "rpc_bootloader_get_var cfg data fw =
     (case data of
        [] \<Rightarrow> ([[fw_EINVAL]], fw)
      | var # _ \<Rightarrow>
          ([[if var = 0 then (if app_run fw then 1 else 0)
             else if var = 2 then reset_flag fw
             else if var = 3 then (if ubh_impl_has_app cfg fw then 1 else 0)
             else 0]], fw))"

definition rpc_bootloader_set_var :: "bytes \<Rightarrow> Firmware \<Rightarrow> bytes list \<times> Firmware" where
  "rpc_bootloader_set_var data fw =
     (case data of
        var # val # _ \<Rightarrow>
          ([[0]], if var = 0 then fw\<lparr>app_run := val \<noteq> 0\<rparr> else if var = 2 then fw\<lparr>reset_flag := val\<rparr> else fw)
      | _ \<Rightarrow> ([[fw_EINVAL]], fw))"

definition ubh_impl_read_code :: "u16 \<Rightarrow> nat \<Rightarrow> Firmware \<Rightarrow> bytes" where
  "ubh_impl_read_code address len fw = map (\<lambda>i. program_memory fw (unat (address + word_of_nat i))) [0..<len]"

text \<open>The payload has its three bytes in every request of the host; the C code does not check it.\<close>

definition rpc_bootloader_read_code :: "bytes \<Rightarrow> Firmware \<Rightarrow> bytes list \<times> Firmware" where
  "rpc_bootloader_read_code data fw =
     (let base = push_bit 8 (ucast (data ! 0)) OR ucast (data ! 1);
          s = (if data ! 2 > 32 then 32 else data ! 2)
      in ([[data ! 0, data ! 1] @ ubh_impl_read_code base (unat s) fw], fw))"

subsection \<open>Flashing\<close>

fun page_words :: "nat \<Rightarrow> bytes \<Rightarrow> u16 list" where
  "page_words n (lo # hi # buf) = (if n = 0 then [] else (ucast lo + push_bit 8 (ucast hi)) # page_words (n - 2) buf)"
| "page_words n buf = []"

definition ubh_impl_write_program_page :: "FirmwareConfig \<Rightarrow> u32 \<Rightarrow> bytes \<Rightarrow> u8 \<Rightarrow> Firmware \<Rightarrow> Firmware" where
  "ubh_impl_write_program_page cfg page buf len fw =
     (if page < 0x2000 \<or> page > 0x7900 \<or> len > SPM_PAGESIZE cfg then fw
      else fw\<lparr>program_memory := spm_write cfg (unat page) (page_words (unat len) buf) (program_memory fw)\<rparr>)"

definition blf_get_flash_stage :: "Firmware \<Rightarrow> bytes list \<times> Firmware" where
  "blf_get_flash_stage fw = ([[0, flash_stage fw]], fw)"

text \<open>
  The reply of \<^verbatim>\<open>EALREADY\<close> does not end the function.  On this controller the storage for the page is the
  start of the memory, so its allocation does not fail.
\<close>

definition blf_start_flash :: "FirmwareConfig \<Rightarrow> Firmware \<Rightarrow> bytes list \<times> Firmware" where
  "blf_start_flash cfg fw =
     ((if flash_stage fw = 1 then [[fw_EALREADY]] else []) @ [[0]],
      fw\<lparr>app_run := False, flash_crnt_address := APP_START_ADDRESS cfg, flash_stage := 1\<rparr>)"

definition blf_get_next_addr :: "Firmware \<Rightarrow> bytes list \<times> Firmware" where
  "blf_get_next_addr fw =
     ([[ucast (drop_bit 8 (flash_crnt_address fw) AND 0xff), ucast (flash_crnt_address fw AND 0xff)]], fw)"

fun fill_flash :: "FirmwareConfig \<Rightarrow> bytes \<Rightarrow> Firmware \<Rightarrow> Firmware" where
  "fill_flash cfg [] fw = fw"
| "fill_flash cfg (b # buf) fw =
     (let page_size = ucast (SPM_PAGESIZE cfg) :: u16;
          fw = fw\<lparr>flash_tmp := (flash_tmp fw)[unat (flash_crnt_address fw mod page_size) := b],
                  flash_crnt_address := flash_crnt_address fw + 1\<rparr>;
          fw = (if flash_crnt_address fw mod page_size = 0
                then ubh_impl_write_program_page cfg (ucast ((flash_crnt_address fw - 1) AND NOT (page_size - 1)))
                       (flash_tmp fw) (SPM_PAGESIZE cfg) fw
                else fw)
      in fill_flash cfg buf fw)"

definition blf_push_code :: "FirmwareConfig \<Rightarrow> bytes \<Rightarrow> Firmware \<Rightarrow> bytes list \<times> Firmware" where
  "blf_push_code cfg data fw =
     (if flash_stage fw = 0 then ([[fw_ENOTCONN]], fw)
      else if length data < 3 then ([[fw_EBADMSG]], fw)
      else if flash_crnt_address fw < 0x1f00 then ([[fw_EFAULT]], fw)
      else if data ! 0 \<noteq> ucast (drop_bit 8 (flash_crnt_address fw) AND 0xff)
              \<or> data ! 1 \<noteq> ucast (flash_crnt_address fw AND 0xff) then ([[fw_ENXIO]], fw)
      else let fw = fill_flash cfg (drop 2 data) fw
           in ([[0, ucast (drop_bit 8 (flash_crnt_address fw) AND 0xff), ucast (flash_crnt_address fw AND 0xff)]], fw))"

definition commit_flash :: "FirmwareConfig \<Rightarrow> Firmware \<Rightarrow> bytes list \<times> Firmware" where
  "commit_flash cfg fw =
     (if flash_stage fw = 0 then ([[fw_EBADFD]], fw)
      else if flash_crnt_address fw < 0x1f00 then ([[fw_EFAULT]], fw)
      else
        let page_size = ucast (SPM_PAGESIZE cfg) :: u16;
            fw = (if flash_crnt_address fw mod page_size \<noteq> 0
                  then ubh_impl_write_program_page cfg (ucast (flash_crnt_address fw AND NOT (page_size - 1)))
                         (flash_tmp fw) (ucast (flash_crnt_address fw AND (page_size - 1))) fw
                  else fw)
        in ([[0]], fw\<lparr>flash_stage := 0\<rparr>))"

subsection \<open>Pages\<close>

definition config_ok :: "FirmwareConfig \<Rightarrow> bool" where
  "config_ok cfg \<longleftrightarrow> (\<exists>k. 1 \<le> k \<and> k \<le> 7 \<and> unat (SPM_PAGESIZE cfg) = 2 ^ k)
     \<and> unat (APP_START_ADDRESS cfg) mod unat (SPM_PAGESIZE cfg) = 0 \<and> 0x2000 \<le> unat (APP_START_ADDRESS cfg)
     \<and> spm_writes_pages cfg"

lemma word_bytes:
  fixes lo hi :: u8
  shows "ucast (ucast lo + push_bit 8 (ucast hi) :: u16) = lo" "ucast (drop_bit 8 (ucast lo + push_bit 8 (ucast hi) :: u16)) = hi"
proof -
  have d: "ucast lo + push_bit 8 (ucast hi) = (ucast lo OR push_bit 8 (ucast hi) :: u16)"
    by (rule disjunctive_add) (auto simp: bit_push_bit_iff bit_ucast_iff dest: bit_imp_le_length)
  show "ucast (ucast lo + push_bit 8 (ucast hi) :: u16) = lo"
    unfolding d by (rule bit_word_eqI) (auto simp: bit_ucast_iff bit_or_iff bit_push_bit_iff)
  show "ucast (drop_bit 8 (ucast lo + push_bit 8 (ucast hi) :: u16)) = hi"
    unfolding d by (rule bit_word_eqI) (auto simp: bit_ucast_iff bit_or_iff bit_push_bit_iff bit_drop_bit_eq dest: bit_imp_le_length)
qed

lemma length_page_words: "n \<le> length buf \<Longrightarrow> even (length buf) \<Longrightarrow> length (page_words n buf) = (n + 1) div 2"
proof (induction n buf rule: page_words.induct)
  case (1 n lo hi buf)
  consider "n = 0" | "n = 1" | m where "n = Suc (Suc m)" by (metis One_nat_def not0_implies_Suc)
  then show ?case using 1 by cases auto
qed auto

lemma nth_page_words:
  "n \<le> length buf \<Longrightarrow> even (length buf) \<Longrightarrow> 2 * i < n \<Longrightarrow>
   page_words n buf ! i = ucast (buf ! (2 * i)) + push_bit 8 (ucast (buf ! (2 * i + 1)))"
proof (induction n buf arbitrary: i rule: page_words.induct)
  case (1 n lo hi buf)
  then show ?case by (cases i) auto
qed auto

lemma page_words_byte:
  assumes "n \<le> length buf" and "even (length buf)" and "j < n"
  shows "(if even j then ucast (page_words n buf ! (j div 2)) else ucast (drop_bit 8 (page_words n buf ! (j div 2)))) = buf ! j"
proof -
  have "page_words n buf ! (j div 2) = ucast (buf ! (2 * (j div 2))) + push_bit 8 (ucast (buf ! (2 * (j div 2) + 1)))"
    using assms by (intro nth_page_words) auto
  then show ?thesis by (simp add: word_bytes)
qed

lemma page_written:
  assumes cfg: "config_ok cfg" and page: "unat page mod unat (SPM_PAGESIZE cfg) = 0" "0x2000 \<le> unat page" "unat page \<le> 0x7900"
    and buf: "length buf = unat (SPM_PAGESIZE cfg)" and n: "unat n \<le> unat (SPM_PAGESIZE cfg)"
    and fw': "fw' = ubh_impl_write_program_page cfg page buf n fw"
  shows "j < unat n \<Longrightarrow> program_memory fw' (unat page + j) = buf ! j"
    and "a < unat page \<Longrightarrow> program_memory fw' a = program_memory fw a"
    and "flash_tmp fw' = flash_tmp fw" "flash_crnt_address fw' = flash_crnt_address fw" "flash_stage fw' = flash_stage fw"
proof -
  have ev: "even (length buf)" using cfg buf by (auto simp: config_ok_def)
  have spm: "program_memory fw' = spm_write cfg (unat page) (page_words (unat n) buf) (program_memory fw)"
    using page n unfolding fw' by (auto simp: ubh_impl_write_program_page_def word_less_nat_alt)
  have len: "length (page_words (unat n) buf) = (unat n + 1) div 2" using n buf ev by (intro length_page_words) simp_all
  have fit: "2 * ((unat n + 1) div 2) \<le> unat (SPM_PAGESIZE cfg)" using n ev buf by presburger
  show "program_memory fw' (unat page + j) = buf ! j" if "j < unat n"
    using cfg page(1) fit that page_words_byte [of "unat n" buf j] n buf ev
    by (auto simp: spm config_ok_def spm_writes_pages_def len)
  show "program_memory fw' a = program_memory fw a" if "a < unat page"
    using cfg page(1) fit that by (simp add: spm config_ok_def spm_writes_pages_def len)
qed (simp_all add: fw' ubh_impl_write_program_page_def)

lemma unat_ucast_u8: "unat (ucast (w :: u8) :: u16) = unat w"
  using unsigned_less [of w, where ?'a = nat] by (simp add: unsigned_ucast_eq take_bit_nat_eq_self)

lemma unat_ucast_u16: "unat (ucast (w :: u16) :: u32) = unat w"
  using unsigned_less [of w, where ?'a = nat] by (simp add: unsigned_ucast_eq take_bit_nat_eq_self)

lemma unat_page_mod:
  fixes x :: u16
  shows "unat (x mod ucast (SPM_PAGESIZE cfg)) = unat x mod unat (SPM_PAGESIZE cfg)"
  by (simp add: unat_mod_distrib unat_ucast_u8)

lemma page_address:
  fixes x :: u16
  assumes "config_ok cfg"
  shows "unat (x AND NOT (ucast (SPM_PAGESIZE cfg) - 1)) = unat x - unat x mod unat (SPM_PAGESIZE cfg)"
    and "unat (x AND (ucast (SPM_PAGESIZE cfg) - 1)) = unat x mod unat (SPM_PAGESIZE cfg)"
proof -
  obtain k where k: "k \<le> 7" "unat (SPM_PAGESIZE cfg) = 2 ^ k" using assms by (auto simp: config_ok_def)
  have "ucast (SPM_PAGESIZE cfg) = (2 ^ k :: u16)"
  proof -
    have "(2 :: nat) ^ k < 65536" using power_increasing [OF k(1), of "2 :: nat"] by simp
    then have "unat (word_of_nat (2 ^ k) :: u16) = 2 ^ k" by (simp only: unat_of_nat) simp
    then show ?thesis using k(2) by (simp add: word_unat_eq_iff unat_ucast_u8)
  qed
  then have m: "ucast (SPM_PAGESIZE cfg) - 1 = (mask k :: u16)" by (simp add: mask_eq_exp_minus_1)
  show low: "unat (x AND (ucast (SPM_PAGESIZE cfg) - 1)) = unat x mod unat (SPM_PAGESIZE cfg)"
    unfolding m k(2) take_bit_eq_mask [symmetric] unsigned_take_bit_eq by (simp add: take_bit_eq_mod)
  have p: "x AND NOT (mask k) = push_bit k (drop_bit k x)"
    by (rule bit_word_eqI) (auto simp: bit_simps)
  have u: "unat (push_bit k (drop_bit k x)) = take_bit 16 (push_bit k (drop_bit k (unat x)))"
    unfolding unsigned_push_bit_eq unsigned_drop_bit_eq using k(1) by (simp add: take_bit_drop_bit take_bit_push_bit)
  have less: "unat x div 2 ^ k * 2 ^ k < 2 ^ 16"
    using unsigned_less [of x, where ?'a = nat] by (simp add: le_less_trans [OF div_times_less_eq_dividend])
  show "unat (x AND NOT (ucast (SPM_PAGESIZE cfg) - 1)) = unat x - unat x mod unat (SPM_PAGESIZE cfg)"
    unfolding m k(2) p u using less
    by (simp add: push_bit_eq_mult drop_bit_eq_div take_bit_eq_mod minus_mod_eq_div_mult)
qed

subsection \<open>The code in the device\<close>

text \<open>
  Between start and commit the device holds the first \<open>n\<close> bytes of the code: the full pages in the
  program memory and the rest in the page buffer.
\<close>

definition code_fits :: "FirmwareConfig \<Rightarrow> bytes \<Rightarrow> bool" where
  "code_fits cfg code \<longleftrightarrow> unat (APP_START_ADDRESS cfg) + length code \<le> 0x7900 + unat (SPM_PAGESIZE cfg)"

definition holds_code :: "FirmwareConfig \<Rightarrow> bytes \<Rightarrow> nat \<Rightarrow> Firmware \<Rightarrow> bool" where
  "holds_code cfg code n fw \<longleftrightarrow>
     unat (flash_crnt_address fw) = unat (APP_START_ADDRESS cfg) + n \<and> n \<le> length code
     \<and> length (flash_tmp fw) = unat (SPM_PAGESIZE cfg)
     \<and> (\<forall>i < n - n mod unat (SPM_PAGESIZE cfg). program_memory fw (unat (APP_START_ADDRESS cfg) + i) = code ! i)
     \<and> (\<forall>j < n mod unat (SPM_PAGESIZE cfg). flash_tmp fw ! j = code ! (n - n mod unat (SPM_PAGESIZE cfg) + j))"

lemma page_bound:
  assumes "config_ok cfg" and "x mod unat (SPM_PAGESIZE cfg) = 0" and "x < 0x7900 + unat (SPM_PAGESIZE cfg)"
  shows "x \<le> 0x7900"
proof -
  obtain k where k: "k \<le> 7" "unat (SPM_PAGESIZE cfg) = 2 ^ k" using assms(1) by (auto simp: config_ok_def)
  have "(2 :: nat) ^ k dvd 2 ^ 7" using k(1) by (rule le_imp_power_dvd)
  then have "2 ^ k dvd (0x7900 :: nat)" by (rule dvd_trans) simp
  then obtain y where y: "(0x7900 :: nat) = 2 ^ k * y" by blast
  obtain z where z: "x = 2 ^ k * z" using assms(2) k(2) by auto
  have "2 ^ k * z < 2 ^ k * (y + 1)" using assms(3) unfolding z y k(2) by simp
  then have "z < y + 1" using mult_less_cancel1 by blast
  then show ?thesis unfolding z y by simp
qed

lemma page_position:
  fixes addr :: u16
  assumes cfg: "config_ok cfg" "code_fits cfg code" and addr: "unat addr = unat (APP_START_ADDRESS cfg) + n"
    and p: "p = n - n mod unat (SPM_PAGESIZE cfg)" "p < length code"
  shows "unat (ucast (addr AND NOT (ucast (SPM_PAGESIZE cfg) - 1)) :: u32) = unat (APP_START_ADDRESS cfg) + p"
    and "(unat (APP_START_ADDRESS cfg) + p) mod unat (SPM_PAGESIZE cfg) = 0"
    and "unat (APP_START_ADDRESS cfg) + p \<le> 0x7900"
proof -
  have "unat (APP_START_ADDRESS cfg) mod unat (SPM_PAGESIZE cfg) = 0" using cfg(1) by (simp add: config_ok_def)
  then have mods: "(unat (APP_START_ADDRESS cfg) + m) mod unat (SPM_PAGESIZE cfg) = m mod unat (SPM_PAGESIZE cfg)" for m
    by (simp add: mod_add_eq [symmetric, of "unat (APP_START_ADDRESS cfg)"])
  show "unat (ucast (addr AND NOT (ucast (SPM_PAGESIZE cfg) - 1)) :: u32) = unat (APP_START_ADDRESS cfg) + p"
    unfolding unat_ucast_u16 page_address(1) [OF cfg(1)] addr mods by (simp add: p)
  show pmod: "(unat (APP_START_ADDRESS cfg) + p) mod unat (SPM_PAGESIZE cfg) = 0"
    unfolding mods by (simp add: p(1) minus_mod_eq_mult_div)
  have "unat (APP_START_ADDRESS cfg) + p < 0x7900 + unat (SPM_PAGESIZE cfg)" using cfg(2) p(2) by (simp add: code_fits_def)
  then show "unat (APP_START_ADDRESS cfg) + p \<le> 0x7900" by (rule page_bound [OF cfg(1) pmod])
qed

lemma address_mod:
  assumes "config_ok cfg" and "unat (addr :: u16) = unat (APP_START_ADDRESS cfg) + n"
  shows "unat (addr mod ucast (SPM_PAGESIZE cfg)) = n mod unat (SPM_PAGESIZE cfg)"
    and "addr mod ucast (SPM_PAGESIZE cfg) = 0 \<longleftrightarrow> n mod unat (SPM_PAGESIZE cfg) = 0"
proof -
  have "unat (APP_START_ADDRESS cfg) mod unat (SPM_PAGESIZE cfg) = 0" using assms(1) by (simp add: config_ok_def)
  then show m: "unat (addr mod ucast (SPM_PAGESIZE cfg)) = n mod unat (SPM_PAGESIZE cfg)"
    unfolding unat_page_mod assms(2) by (simp add: mod_add_eq [symmetric, of "unat (APP_START_ADDRESS cfg)"])
  then show "addr mod ucast (SPM_PAGESIZE cfg) = 0 \<longleftrightarrow> n mod unat (SPM_PAGESIZE cfg) = 0" by (metis unat_eq_0)
qed

text \<open>Writing the first bytes of the page buffer to its page completes the code in the memory up to there.\<close>

lemma page_flushed:
  fixes addr :: u16
  assumes cfg: "config_ok cfg" "code_fits cfg code" and addr: "unat addr = unat (APP_START_ADDRESS cfg) + n"
    and p: "p = n - n mod unat (SPM_PAGESIZE cfg)" "p < length code"
    and tmp: "length (flash_tmp fw) = unat (SPM_PAGESIZE cfg)" "\<And>j. j < unat len \<Longrightarrow> flash_tmp fw ! j = code ! (p + j)"
    and len: "unat len \<le> unat (SPM_PAGESIZE cfg)"
    and mem: "\<And>i. i < p \<Longrightarrow> program_memory fw (unat (APP_START_ADDRESS cfg) + i) = code ! i"
    and fw': "fw' = ubh_impl_write_program_page cfg (ucast (addr AND NOT (ucast (SPM_PAGESIZE cfg) - 1))) (flash_tmp fw) len fw"
    and i: "i < p + unat len"
  shows "program_memory fw' (unat (APP_START_ADDRESS cfg) + i) = code ! i"
proof -
  note pos = page_position [OF cfg addr p]
  have "0x2000 \<le> unat (APP_START_ADDRESS cfg) + p" using cfg(1) by (simp add: config_ok_def)
  note written = page_written [OF cfg(1) _ _ _ tmp(1) len fw', unfolded pos(1), OF pos(2) this pos(3)]
  show ?thesis
  proof (cases "i < p")
    case True
    then show ?thesis using written(2) [of "unat (APP_START_ADDRESS cfg) + i"] mem by simp
  next
    case False
    then obtain j where j: "i = p + j" by (metis le_add_diff_inverse not_less)
    then show ?thesis using written(1) [of j] tmp(2) [of j] i by (simp add: j add.assoc)
  qed
qed

lemma fill_flash_byte:
  assumes cfg: "config_ok cfg" "code_fits cfg code" and holds: "holds_code cfg code n fw" and n: "n < length code"
    and b: "b = code ! n"
  shows "\<exists>fw'. fill_flash cfg (b # buf) fw = fill_flash cfg buf fw' \<and> holds_code cfg code (n + 1) fw' \<and> flash_stage fw' = flash_stage fw"
proof -
  let ?P = "unat (SPM_PAGESIZE cfg)" and ?S = "unat (APP_START_ADDRESS cfg)"
  define p where "p = n - n mod ?P"
  define fw1 where "fw1 = fw\<lparr>flash_tmp := (flash_tmp fw)[unat (flash_crnt_address fw mod ucast (SPM_PAGESIZE cfg)) := b],
      flash_crnt_address := flash_crnt_address fw + 1\<rparr>"
  define fw2 where "fw2 = (if flash_crnt_address fw1 mod ucast (SPM_PAGESIZE cfg) = 0
      then ubh_impl_write_program_page cfg (ucast (flash_crnt_address fw AND NOT (ucast (SPM_PAGESIZE cfg) - 1)))
             (flash_tmp fw1) (SPM_PAGESIZE cfg) fw1 else fw1)"
  have fill: "fill_flash cfg (b # buf) fw = fill_flash cfg buf fw2" by (simp add: fw2_def fw1_def Let_def)
  have p: "p + n mod ?P = n" "p < length code" using n by (simp_all add: p_def)
  have P: "0 < ?P" "?P \<le> 128" using cfg(1) power_increasing [of _ 7 "2 :: nat"] by (auto simp: config_ok_def)
  have addr: "unat (flash_crnt_address fw) = ?S + n" using holds by (simp add: holds_code_def)
  then have addr1: "unat (flash_crnt_address fw1) = ?S + (n + 1)"
    using cfg(2) n P(2) by (simp add: fw1_def unat_word_ariths code_fits_def)
  have tmp: "flash_tmp fw1 = (flash_tmp fw)[n mod ?P := b]" by (simp add: fw1_def address_mod(1) [OF cfg(1) addr])
  have h: "length (flash_tmp fw) = ?P" "\<And>i. i < p \<Longrightarrow> program_memory fw1 (?S + i) = code ! i"
    "\<And>j. j < n mod ?P \<Longrightarrow> flash_tmp fw ! j = code ! (p + j)" "flash_stage fw1 = flash_stage fw"
    using holds by (simp_all add: holds_code_def p_def fw1_def)
  have tmp1: "flash_tmp fw1 ! j = code ! (p + j)" if "j \<le> n mod ?P" for j
    using that h(1,3) P(1) b p by (cases "j = n mod ?P") (simp_all add: tmp)
  have "holds_code cfg code (n + 1) fw2 \<and> flash_stage fw2 = flash_stage fw"
  proof (cases "(n + 1) mod ?P = 0")
    case False
    then have "(n + 1) mod ?P = n mod ?P + 1" by (simp add: mod_Suc split: if_splits)
    moreover have "fw2 = fw1" using False by (simp add: fw2_def address_mod(2) [OF cfg(1) addr1])
    ultimately show ?thesis
      using addr1 n h tmp1 by (simp add: holds_code_def tmp less_Suc_eq_le p_def)
  next
    case True
    then have full: "n mod ?P = ?P - 1" using P(1) by (auto simp: mod_Suc split: if_splits)
    have fw2: "fw2 = ubh_impl_write_program_page cfg (ucast (flash_crnt_address fw AND NOT (ucast (SPM_PAGESIZE cfg) - 1)))
        (flash_tmp fw1) (SPM_PAGESIZE cfg) fw1"
      using True by (simp add: fw2_def address_mod(2) [OF cfg(1) addr1])
    have "j < ?P \<Longrightarrow> j \<le> n mod ?P" for j using full by simp
    then have "program_memory fw2 (?S + i) = code ! i" if "i < p + ?P" for i
      using page_flushed [OF cfg addr p_def p(2) _ _ order.refl h(2) fw2 that] tmp1 by (simp add: tmp h(1))
    moreover have "n + 1 = p + ?P" using full P(1) p(1) by simp
    ultimately show ?thesis
      using True addr1 n h(1,4) by (simp add: holds_code_def fw2 ubh_impl_write_program_page_def tmp)
  qed
  with fill show ?thesis by blast
qed

lemma fill_flash_bytes:
  assumes cfg: "config_ok cfg" "code_fits cfg code"
  shows "holds_code cfg code n fw \<Longrightarrow> n + length buf \<le> length code \<Longrightarrow> buf = take (length buf) (drop n code) \<Longrightarrow>
    holds_code cfg code (n + length buf) (fill_flash cfg buf fw) \<and> flash_stage (fill_flash cfg buf fw) = flash_stage fw"
proof (induction buf arbitrary: n fw)
  case (Cons b buf)
  have n: "n < length code" using Cons.prems(2) by simp
  have d: "drop n code = code ! n # drop (n + 1) code" using n by (simp add: Cons_nth_drop_Suc)
  with Cons.prems(3) have b: "b = code ! n" "buf = take (length buf) (drop (n + 1) code)" by simp_all
  obtain fw' where fw': "fill_flash cfg (b # buf) fw = fill_flash cfg buf fw'" "holds_code cfg code (n + 1) fw'"
    "flash_stage fw' = flash_stage fw"
    using fill_flash_byte [OF cfg Cons.prems(1) n b(1)] by blast
  then show ?case using Cons.IH [OF fw'(2) _ b(2)] Cons.prems(2) by (simp add: add.commute add.left_commute)
qed simp

lemma address_bytes_eq:
  fixes x y :: u16
  shows "(ucast (drop_bit 8 x AND 0xff) :: u8) = ucast (drop_bit 8 y AND 0xff) \<and> (ucast (x AND 0xff) :: u8) = ucast (y AND 0xff) \<longleftrightarrow> x = y"
proof (intro iffI; (elim conjE)?)
  assume h: "(ucast (drop_bit 8 x AND 0xff) :: u8) = ucast (drop_bit 8 y AND 0xff)" and l: "(ucast (x AND 0xff) :: u8) = ucast (y AND 0xff)"
  have m: "(0xff :: u16) = mask 8" by (simp add: mask_eq_exp_minus_1)
  show "x = y"
  proof (rule bit_word_eqI)
    fix n assume n: "n < LENGTH(16)"
    have "bit (ucast (x AND 0xff) :: u8) n = bit (ucast (y AND 0xff) :: u8) n" using l by simp
    moreover have "bit (ucast (drop_bit 8 x AND 0xff) :: u8) (n - 8) = bit (ucast (drop_bit 8 y AND 0xff) :: u8) (n - 8)" using h by simp
    ultimately show "bit x n \<longleftrightarrow> bit y n"
      using n unfolding m by (cases "n < 8") (auto simp: bit_ucast_iff bit_and_iff bit_mask_iff bit_drop_bit_eq)
  qed
qed simp

text \<open>The request to push a piece of the code, as it arrives at the handler.\<close>

definition push_request :: "u16 \<Rightarrow> bytes \<Rightarrow> bytes" where
  "push_request addr piece = [ucast (drop_bit 8 addr AND 0xff), ucast (addr AND 0xff)] @ piece"

lemma push_code_replies:
  assumes cfg: "config_ok cfg" "code_fits cfg code" and stage: "flash_stage fw \<noteq> 0" and holds: "holds_code cfg code n fw"
    and piece: "piece \<noteq> []" and addr: "unat (APP_START_ADDRESS cfg) \<le> unat addr"
      "piece = take (length piece) (drop (unat addr - unat (APP_START_ADDRESS cfg)) code)"
      "unat addr - unat (APP_START_ADDRESS cfg) + length piece \<le> length code"
  shows "if addr = flash_crnt_address fw
    then \<exists>fw'. blf_push_code cfg (push_request addr piece) fw = ([0 # push_request (flash_crnt_address fw') []], fw')
      \<and> holds_code cfg code (n + length piece) fw' \<and> flash_stage fw' = flash_stage fw
    else blf_push_code cfg (push_request addr piece) fw = ([[fw_ENXIO]], fw)"
proof -
  have "0x2000 \<le> unat (flash_crnt_address fw)" using cfg(1) holds by (simp add: config_ok_def holds_code_def)
  then have big: "\<not> flash_crnt_address fw < 0x1f00" by (simp add: word_less_nat_alt)
  have three: "\<not> length (push_request addr piece) < 3" using piece by (cases piece) (simp_all add: push_request_def)
  show ?thesis
  proof (cases "addr = flash_crnt_address fw")
    case True
    then have "unat addr - unat (APP_START_ADDRESS cfg) = n" using holds by (simp add: holds_code_def)
    with addr holds fill_flash_bytes [OF cfg, of n fw piece] True show ?thesis
      using stage big three by (simp add: blf_push_code_def) (auto simp: push_request_def Let_def)
  next
    case False
    then show ?thesis
      using stage big three address_bytes_eq [of addr "flash_crnt_address fw"]
      by (simp add: blf_push_code_def) (auto simp: push_request_def)
  qed
qed

lemma commit_writes_the_code:
  assumes cfg: "config_ok cfg" "code_fits cfg code" and stage: "flash_stage fw \<noteq> 0" and holds: "holds_code cfg code (length code) fw"
  shows "\<exists>fw'. commit_flash cfg fw = ([[0]], fw') \<and> flash_stage fw' = 0
    \<and> (\<forall>i < length code. program_memory fw' (unat (APP_START_ADDRESS cfg) + i) = code ! i)"
proof -
  let ?P = "unat (SPM_PAGESIZE cfg)" and ?n = "length code"
  let ?len = "ucast (flash_crnt_address fw AND (ucast (SPM_PAGESIZE cfg) - 1)) :: u8"
  let ?fw = "ubh_impl_write_program_page cfg (ucast (flash_crnt_address fw AND NOT (ucast (SPM_PAGESIZE cfg) - 1))) (flash_tmp fw) ?len fw"
  define p where "p = ?n - ?n mod ?P"
  have P: "0 < ?P" "?P \<le> 128" using cfg(1) power_increasing [of _ 7 "2 :: nat"] by (auto simp: config_ok_def)
  have addr: "unat (flash_crnt_address fw) = unat (APP_START_ADDRESS cfg) + ?n" using holds by (simp add: holds_code_def)
  then have big: "\<not> flash_crnt_address fw < 0x1f00" using cfg(1) by (simp add: word_less_nat_alt config_ok_def)
  have h: "length (flash_tmp fw) = ?P" "\<And>i. i < p \<Longrightarrow> program_memory fw (unat (APP_START_ADDRESS cfg) + i) = code ! i"
    "\<And>j. j < ?n mod ?P \<Longrightarrow> flash_tmp fw ! j = code ! (p + j)"
    using holds by (simp_all add: holds_code_def p_def)
  show ?thesis
  proof (cases "?n mod ?P = 0")
    case True
    then show ?thesis using stage big address_mod(2) [OF cfg(1) addr] h(2) by (auto simp: commit_flash_def p_def)
  next
    case False
    have "?n mod ?P < ?P" using P(1) by (rule mod_less_divisor)
    then have "?n mod ?P < 2 ^ 8" using P(2) by simp
    then have "take_bit 8 (?n mod ?P) = ?n mod ?P" by (rule take_bit_nat_eq_self)
    then have len: "unat ?len = ?n mod ?P"
      using page_address(2) [OF cfg(1), of "flash_crnt_address fw"] address_mod(1) [OF cfg(1) addr] unat_page_mod [of "flash_crnt_address fw" cfg]
      by (simp add: unsigned_ucast_eq)
    have p: "p + ?n mod ?P = ?n" by (simp add: p_def)
    with False have "p < ?n" by linarith
    note p = p this
    have "program_memory ?fw (unat (APP_START_ADDRESS cfg) + i) = code ! i" if "i < ?n" for i
      using page_flushed [OF cfg addr p_def p(2) h(1) _ _ h(2) refl, of ?len i] h(3) that P p(1) unfolding len by simp
    moreover have "commit_flash cfg fw = ([[0]], ?fw\<lparr>flash_stage := 0\<rparr>)"
      using stage big False by (simp add: commit_flash_def address_mod(2) [OF cfg(1) addr] Let_def)
    ultimately show ?thesis by simp
  qed
qed

end
