(* ===== verification/Clock.thy ===== *)
theory Clock
  imports Text "HOL-Library.Signed_Division"
begin

text \<open>
  Time stamps, the calendar units of the log rotation (\<^verbatim>\<open>time.rs\<close>) and the lines of the logger
  (\<^verbatim>\<open>log.rs\<close>).  \<^verbatim>\<open>gmtime_r\<close>, \<^verbatim>\<open>localtime_r\<close> and \<^verbatim>\<open>mktime\<close> of the C library are a record of functions; the
  theorems hold for all of them.  The wall clock is an argument where the code reads it.
\<close>

subsection \<open>Time stamps\<close>

record tm =
  tm_sec :: int
  tm_min :: int
  tm_hour :: int
  tm_mday :: int
  tm_mon :: int
  tm_year :: int
  tm_isdst :: int

record Clock =
  gmtime :: "int \<Rightarrow> tm"
  localtime :: "int \<Rightarrow> tm"
  mktime :: "tm \<Rightarrow> int"

definition broken_down :: "Clock \<Rightarrow> int \<Rightarrow> bool \<Rightarrow> tm" where
  "broken_down clock ms local = (if local then localtime clock (ms div 1000) else gmtime clock (ms div 1000))"

text \<open>The format \<^verbatim>\<open>{:0w}\<close>: zeros after the sign up to the width.\<close>

definition show_padded :: "nat \<Rightarrow> int \<Rightarrow> string" where
  "show_padded w n =
     (let sign = (if n < 0 then ''-'' else ''''); digits = show_nat (nat \<bar>n\<bar>)
      in sign @ replicate (w - length sign - length digits) CHR ''0'' @ digits)"

definition utc_sql_timestamp_ms :: "Clock \<Rightarrow> int \<Rightarrow> string" where
  "utc_sql_timestamp_ms clock ms =
     (let t = broken_down clock ms False
      in show_padded 4 (tm_year t + 1900) @ ''-'' @ show_padded 2 (tm_mon t + 1) @ ''-'' @ show_padded 2 (tm_mday t) @ '' ''
         @ show_padded 2 (tm_hour t) @ '':'' @ show_padded 2 (tm_min t) @ '':'' @ show_padded 2 (tm_sec t) @ ''.''
         @ show_padded 3 (ms mod 1000) @ ''U'')"

definition local_file_timestamp :: "Clock \<Rightarrow> int \<Rightarrow> string" where
  "local_file_timestamp clock ms =
     (let t = broken_down clock ms True
      in show_padded 4 (tm_year t + 1900) @ ''-'' @ show_padded 2 (tm_mon t + 1) @ ''-'' @ show_padded 2 (tm_mday t) @ ''_''
         @ show_padded 2 (tm_hour t) @ ''-'' @ show_padded 2 (tm_min t) @ ''-'' @ show_padded 2 (tm_sec t) @ ''_''
         @ show_padded 3 (ms mod 1000))"

subsection \<open>Calendar units\<close>

datatype CalendarUnit = Year | Month | Day | Hour | Minute | Second

text \<open>The number of the variant, by which \<^verbatim>\<open>Ord\<close> compares.\<close>

fun unit_index :: "CalendarUnit \<Rightarrow> nat" where
  "unit_index Year = 0"
| "unit_index Month = 1"
| "unit_index Day = 2"
| "unit_index Hour = 3"
| "unit_index Minute = 4"
| "unit_index Second = 5"

instantiation CalendarUnit :: linorder
begin

definition less_eq_CalendarUnit :: "CalendarUnit \<Rightarrow> CalendarUnit \<Rightarrow> bool" where
  "a \<le> b \<longleftrightarrow> unit_index a \<le> unit_index b"

definition less_CalendarUnit :: "CalendarUnit \<Rightarrow> CalendarUnit \<Rightarrow> bool" where
  "a < b \<longleftrightarrow> unit_index a < unit_index b"

instance
proof
  fix a b :: CalendarUnit
  show "a = b" if "a \<le> b" "b \<le> a"
    using that by (cases a; cases b) (simp_all add: less_eq_CalendarUnit_def)
qed (auto simp: less_eq_CalendarUnit_def less_CalendarUnit_def)

end

definition local_unit_start :: "Clock \<Rightarrow> int \<Rightarrow> CalendarUnit \<Rightarrow> int \<Rightarrow> int" where
  "local_unit_start clock ms unit offset =
     (let t = broken_down clock ms True;
          t = (if unit \<le> Minute then t\<lparr>tm_sec := 0\<rparr> else t);
          t = (if unit \<le> Hour then t\<lparr>tm_min := 0\<rparr> else t);
          t = (if unit \<le> Day then t\<lparr>tm_hour := 0\<rparr> else t);
          t = (if unit \<le> Month then t\<lparr>tm_mday := 1\<rparr> else t);
          t = (if unit \<le> Year then t\<lparr>tm_mon := 0\<rparr> else t);
          t = (case unit of
                 Year \<Rightarrow> t\<lparr>tm_year := tm_year t + offset\<rparr>
               | Month \<Rightarrow> t\<lparr>tm_mon := tm_mon t + offset\<rparr>
               | Day \<Rightarrow> t\<lparr>tm_mday := tm_mday t + offset\<rparr>
               | Hour \<Rightarrow> t\<lparr>tm_hour := tm_hour t + offset\<rparr>
               | Minute \<Rightarrow> t\<lparr>tm_min := tm_min t + offset\<rparr>
               | Second \<Rightarrow> t\<lparr>tm_sec := tm_sec t + offset\<rparr>)
      in mktime clock (t\<lparr>tm_isdst := - 1\<rparr>) * 1000)"

subsection \<open>The logger\<close>

datatype LogLevel = Trace | Debug | Info | Notice | Warning | Error | Fatal

fun level_index :: "LogLevel \<Rightarrow> nat" where
  "level_index Trace = 0"
| "level_index Debug = 1"
| "level_index Info = 2"
| "level_index Notice = 3"
| "level_index Warning = 4"
| "level_index Error = 5"
| "level_index Fatal = 6"

instantiation LogLevel :: linorder
begin

definition less_eq_LogLevel :: "LogLevel \<Rightarrow> LogLevel \<Rightarrow> bool" where
  "a \<le> b \<longleftrightarrow> level_index a \<le> level_index b"

definition less_LogLevel :: "LogLevel \<Rightarrow> LogLevel \<Rightarrow> bool" where
  "a < b \<longleftrightarrow> level_index a < level_index b"

instance
proof
  fix a b :: LogLevel
  show "a = b" if "a \<le> b" "b \<le> a"
    using that by (cases a; cases b) (simp_all add: less_eq_LogLevel_def)
qed (auto simp: less_eq_LogLevel_def less_LogLevel_def)

end

fun level_label :: "LogLevel \<Rightarrow> string" where
  "level_label Trace = ''TRACE''"
| "level_label Debug = ''DEBUG''"
| "level_label Info = ''INFO''"
| "level_label Notice = ''NOTICE''"
| "level_label Warning = ''WARNING''"
| "level_label Error = ''ERROR''"
| "level_label Fatal = ''FATAL''"

definition parse_level :: "string \<Rightarrow> LogLevel option" where
  "parse_level name =
     map_of [(''trace'', Trace), (''debug'', Debug), (''info'', Info), (''notice'', Notice), (''warning'', Warning),
             (''error'', Error), (''fatal'', Fatal)] (to_ascii_lowercase name)"

text \<open>The level of the process, from the variable \<^verbatim>\<open>UB_LOG_LEVEL\<close> of its environment.\<close>

definition log_level :: "string option \<Rightarrow> LogLevel" where
  "log_level variable =
     (case variable of None \<Rightarrow> Info | Some name \<Rightarrow> (case parse_level name of Some l \<Rightarrow> l | None \<Rightarrow> Info))"

definition may_log :: "string option \<Rightarrow> LogLevel \<Rightarrow> bool" where
  "may_log variable lvl \<longleftrightarrow> log_level variable \<le> lvl"

definition format_line :: "Clock \<Rightarrow> nat \<Rightarrow> int \<Rightarrow> string \<Rightarrow> LogLevel \<Rightarrow> string \<Rightarrow> string" where
  "format_line clock process_id time_ms facility lvl message =
     ''['' @ utc_sql_timestamp_ms clock time_ms @ '']'' @ [CHR 0x09] @ ''<'' @ show_nat process_id @ ''>'' @ [CHR 0x09]
     @ ''{'' @ facility @ ''}'' @ [CHR 0x09] @ ''('' @ level_label lvl @ '')'' @ [CHR 0x09] @ message"

text \<open>What is printed.\<close>

definition log_message :: "Clock \<Rightarrow> nat \<Rightarrow> string option \<Rightarrow> int \<Rightarrow> string \<Rightarrow> LogLevel \<Rightarrow> string \<Rightarrow> string" where
  "log_message clock process_id variable now facility lvl message =
     (if may_log variable lvl then format_line clock process_id now facility lvl message @ [CHR 0x0A] else '''')"

subsection \<open>Lemmas\<close>

text \<open>The characters of the time stamps: digits and separators.\<close>

definition digit :: "char \<Rightarrow> bool" where
  "digit c \<longleftrightarrow> 48 \<le> (of_char c :: nat) \<and> (of_char c :: nat) \<le> 57"

lemma show_padded_chars: "c \<in> set (show_padded w n) \<Longrightarrow> digit c \<or> c = CHR ''-''"
  using show_nat_digits [of c "nat \<bar>n\<bar>"]
  by (auto simp: show_padded_def Let_def digit_def split: if_splits)

lemma utc_timestamp_chars: "c \<in> set (utc_sql_timestamp_ms clock ms) \<Longrightarrow> digit c \<or> c \<in> set ''- :.U''"
  by (auto simp: utc_sql_timestamp_ms_def Let_def dest!: show_padded_chars)

lemma file_timestamp_chars: "c \<in> set (local_file_timestamp clock ms) \<Longrightarrow> digit c \<or> c \<in> set ''-_''"
  by (auto simp: local_file_timestamp_def Let_def dest!: show_padded_chars)

lemma parse_level_label: "parse_level (level_label l) = Some l"
proof -
  have "list_all (\<lambda>l. parse_level (level_label l) = Some l) [Trace, Debug, Info, Notice, Warning, Error, Fatal]" by code_simp
  then show ?thesis by (cases l) simp_all
qed

text \<open>A clock without time zone that shows the seconds of the hour.\<close>

definition example_clock :: Clock where
  "example_clock =
     (let tm = (\<lambda>s. \<lparr>tm_sec = s mod 60, tm_min = s div 60, tm_hour = 0, tm_mday = 1, tm_mon = 0, tm_year = 70, tm_isdst = 0\<rparr>)
      in \<lparr>gmtime = tm, localtime = tm, mktime = (\<lambda>t. tm_sec t + 60 * tm_min t)\<rparr>)"

end
