(* ===== verification/Commands.thy ===== *)
theory Commands
  imports Cli Endpoint Clock
begin

text \<open>
  What the subcommands that watch the bus share (\<^verbatim>\<open>apps/mod.rs\<close>), and the two that send one packet again
  and again: \<^verbatim>\<open>ub ping\<close> (\<^verbatim>\<open>apps/ping.rs\<close>) and \<^verbatim>\<open>ub blink\<close> (\<^verbatim>\<open>apps/blink.rs\<close>).  What a connection answers to
  the sends is an input, a list with an entry for every send; a command that is still running when the
  list ends has no end yet.
\<close>

subsection \<open>The endpoint of the command line\<close>

text \<open>The arguments of \<^verbatim>\<open>open_ip_endpoint\<close>; the initializer is the attribute it sets on a new connection.\<close>

record IpEndpoint =
  ip_host :: string
  ip_port :: u16
  ip_initializer :: "(string \<times> string) option"
  ip_reconnect :: bool

definition open_cli_endpoint :: "CliArgs \<Rightarrow> (string \<times> string) option \<Rightarrow> string + IpEndpoint" where
  "open_cli_endpoint args initializer =
     (case parse_port args of
        Inl e \<Rightarrow> Inl e
      | Inr port \<Rightarrow> Inr \<lparr>ip_host = parse_host args, ip_port = port, ip_initializer = initializer, ip_reconnect = False\<rparr>)"

definition loopback_initializer :: "CliArgs \<Rightarrow> (string \<times> string) option" where
  "loopback_initializer args = (if has_option LOOPBACK args then Some (ATTR_LOOPBACK_SEND_PACKETS, ''true'') else None)"

text \<open>A bus through the server; the connect is a parameter.\<close>

definition cli_bus_connect :: "(string \<Rightarrow> u16 \<Rightarrow> i32 \<Rightarrow> string + 's) \<Rightarrow> CliArgs \<Rightarrow> string + 's" where
  "cli_bus_connect connect args =
     (case parse_port args of
        Inl e \<Rightarrow> Inl e
      | Inr port \<Rightarrow> (case parse_from args of Inl e \<Rightarrow> Inl e | Inr address \<Rightarrow> connect (parse_host args) port address))"

text \<open>\<^verbatim>\<open>start_streaming\<close> and \<^verbatim>\<open>get_api\<close> of the endpoint: an error or a connection to send on.\<close>

type_synonym connect_api = "IpEndpoint \<Rightarrow> string + unit"

record SenderRun =
  sr_out :: string
  sr_sent :: "bytes list"
  sr_end :: "AppEnd option"

definition ended :: "AppEnd \<Rightarrow> SenderRun" where
  "ended e = \<lparr>sr_out = '''', sr_sent = [], sr_end = Some e\<rparr>"

definition sent_first :: "bytes \<Rightarrow> string \<Rightarrow> SenderRun \<Rightarrow> SenderRun" where
  "sent_first packet line r = r\<lparr>sr_out := line @ newline @ sr_out r, sr_sent := packet # sr_sent r\<rparr>"

subsection \<open>Ping\<close>

definition INTERVAL :: CliEntry where
  "INTERVAL = \<lparr>names = [''i'', ''-interval''], description = ''Ping repeat delay''\<rparr>"

definition COUNT_OF_PACKETS :: CliEntry where
  "COUNT_OF_PACKETS =
     \<lparr>names = [''c'', ''-c''],
      description = ''Number of packets to send. (default: 0 aka no '' @ [CHR 0x22] @ ''limit'' @ [CHR 0x22] @ '')''\<rparr>"

definition PING_ENTRIES :: "CliEntry list" where
  "PING_ENTRIES = [RPC_HOST, RPC_PORT, FROM, TO, INTERVAL, COUNT_OF_PACKETS]"

definition parse_u64 :: "string \<Rightarrow> u64 option" where
  "parse_u64 s = map_option word_of_int (parse_int 10 False 0 (2 ^ 64 - 1) s)"

definition ping_packet :: "(int \<Rightarrow> bytes) \<Rightarrow> i32 \<Rightarrow> i32 \<Rightarrow> PackError + bytes" where
  "ping_packet to_bytes_be from_address to_address =
     (case write_addressing to_bytes_be from_address to_address asm_new of
        Inl e \<Rightarrow> Inl e
      | Inr a \<Rightarrow> Inr (fst (asm_done (append_crc8 (write_blob [1, 0] a)))))"

text \<open>The loop; after the last packet the answers are shown until the server goes away.\<close>

fun ping_loop :: "i32 \<Rightarrow> i32 \<Rightarrow> bytes \<Rightarrow> i64 \<Rightarrow> i64 \<Rightarrow> (string + unit) list \<Rightarrow> SenderRun" where
  "ping_loop from_address to_address packet count i sends =
     (if i <s count \<or> count \<le>s 0 then
        (case sends of
           [] \<Rightarrow> \<lparr>sr_out = '''', sr_sent = [], sr_end = None\<rparr>
         | Inl e # _ \<Rightarrow> ended (AppErr e)
         | Inr _ # sends \<Rightarrow>
             sent_first packet (''ping '' @ show_int (sint from_address) @ '' > '' @ show_int (sint to_address))
               (ping_loop from_address to_address packet count (i + 1) sends))
      else ended AppOk)"

declare ping_loop.simps [simp del]

definition ping_main :: "(int \<Rightarrow> bytes) \<Rightarrow> connect_api \<Rightarrow> (string + unit) list \<Rightarrow> string list \<Rightarrow> SenderRun" where
  "ping_main to_bytes_be connect sends args =
     (case parse_or_help ''UartbusPing'' args PING_ENTRIES of
        Inl (exit_code, _) \<Rightarrow> ended (AppExit exit_code)
      | Inr pa \<Rightarrow>
          (case parse_from pa of Inl e \<Rightarrow> ended (AppErr e) | Inr from_address \<Rightarrow>
          (case parse_or parse_i32 TO pa (- 1) of Inl e \<Rightarrow> ended (AppErr e) | Inr to_address \<Rightarrow>
          (case parse_or parse_u64 INTERVAL pa 1000 of Inl e \<Rightarrow> ended (AppErr e) | Inr interval \<Rightarrow>
          (case parse_or parse_i64 COUNT_OF_PACKETS pa 0 of Inl e \<Rightarrow> ended (AppErr e) | Inr count \<Rightarrow>
          (case open_cli_endpoint pa None of Inl e \<Rightarrow> ended (AppErr e) | Inr endpoint \<Rightarrow>
          (case connect endpoint of Inl e \<Rightarrow> ended (AppErr e) | Inr _ \<Rightarrow>
          (case ping_packet to_bytes_be from_address to_address of Inl e \<Rightarrow> ended (AppErr (pack_error_text e)) | Inr packet \<Rightarrow>
             ping_loop from_address to_address packet (word_of_int count) 0 sends))))))))"

subsection \<open>Blink\<close>

definition BLINK_INTERVAL :: CliEntry where
  "BLINK_INTERVAL = \<lparr>names = [''i'', ''-interval''], description = ''Blink interval''\<rparr>"

definition BLINK_ENTRIES :: "CliEntry list" where
  "BLINK_ENTRIES = [RPC_HOST, RPC_PORT, FROM, TO, BLINK_INTERVAL]"

fun blink_loop :: "i32 \<Rightarrow> i32 \<Rightarrow> bytes \<Rightarrow> (string + unit) list \<Rightarrow> SenderRun" where
  "blink_loop from_address to_address packet [] = \<lparr>sr_out = '''', sr_sent = [], sr_end = None\<rparr>"
| "blink_loop from_address to_address packet (Inl e # sends) = ended (AppErr e)"
| "blink_loop from_address to_address packet (Inr _ # sends) =
     sent_first packet (''blink '' @ show_int (sint from_address) @ '' > '' @ show_int (sint to_address))
       (blink_loop from_address to_address packet sends)"

definition blink_main :: "(int \<Rightarrow> bytes) \<Rightarrow> connect_api \<Rightarrow> (string + unit) list \<Rightarrow> string list \<Rightarrow> SenderRun" where
  "blink_main to_bytes_be connect sends args =
     (case parse_or_help ''UartbusBlink'' args BLINK_ENTRIES of
        Inl (exit_code, _) \<Rightarrow> ended (AppExit exit_code)
      | Inr pa \<Rightarrow>
          (case parse_from pa of Inl e \<Rightarrow> ended (AppErr e) | Inr from_address \<Rightarrow>
          (case parse_or parse_i32 TO pa (- 1) of Inl e \<Rightarrow> ended (AppErr e) | Inr to_address \<Rightarrow>
          (case parse_or parse_u64 BLINK_INTERVAL pa 500 of Inl e \<Rightarrow> ended (AppErr e) | Inr interval \<Rightarrow>
          (case open_cli_endpoint pa None of Inl e \<Rightarrow> ended (AppErr e) | Inr endpoint \<Rightarrow>
          (case connect endpoint of Inl e \<Rightarrow> ended (AppErr e) | Inr _ \<Rightarrow>
          (case write_addressing to_bytes_be from_address to_address asm_new of Inl e \<Rightarrow> ended (AppErr (pack_error_text e)) | Inr a \<Rightarrow>
             blink_loop from_address to_address (fst (asm_done (append_crc8 (write_blob [1, 2, 2] a)))) sends)))))))"

subsection \<open>Lemmas\<close>

text \<open>With a positive count exactly that many packets are sent, if the connection takes them.\<close>

lemma ping_loop_sends_the_rest:
  assumes "sint count = sint i + int n" and "n \<le> length sends" and "list_all (\<lambda>r. \<not> isl r) (take n sends)" and "0 < sint count"
  shows "sr_sent (ping_loop f t packet count i sends) = replicate n packet \<and> sr_end (ping_loop f t packet count i sends) = Some AppOk"
  using assms
proof (induction n arbitrary: i sends)
  case 0
  then show ?case by (simp add: ping_loop.simps [of f t packet count] word_sless_alt word_sle_eq ended_def)
next
  case (Suc n)
  obtain u sends' where sends: "sends = Inr u # sends'"
    using Suc.prems(2,3) by (cases sends; cases "hd sends") auto
  have "sint i < sint count" using Suc.prems(1) by simp
  then have "sint i + 1 < 2 ^ 63" using sint_lt [of count] by simp
  then have "sint (i + 1) = sint i + 1"
    using sint_ge [of i] by (simp add: sint_word_ariths signed_take_bit_int_eq_self)
  then show ?case
    using Suc.IH [of "i + 1" sends'] Suc.prems sends \<open>sint i < sint count\<close>
    by (subst (1 2) ping_loop.simps) (simp add: word_sless_alt sent_first_def)
qed

lemma ping_loop_sends_count:
  assumes "0 < sint count" and "nat (sint count) \<le> length sends" and "list_all (\<lambda>r. \<not> isl r) (take (nat (sint count)) sends)"
  shows "sr_sent (ping_loop f t packet count 0 sends) = replicate (nat (sint count)) packet
    \<and> sr_end (ping_loop f t packet count 0 sends) = Some AppOk"
  using ping_loop_sends_the_rest [of count 0 "nat (sint count)"] assms by simp

text \<open>Without a count the command only ends when a send fails.\<close>

lemma ping_without_limit_goes_on:
  "count \<le>s 0 \<Longrightarrow> sr_end (ping_loop f t packet count i sends) \<noteq> Some AppOk"
proof (induction sends arbitrary: i)
  case (Cons sent sends)
  then show ?case by (subst ping_loop.simps) (auto simp: ended_def sent_first_def split: sum.splits)
qed (simp add: ping_loop.simps)

end
