(* ===== verification/Upload.thy ===== *)
theory Upload
  imports Ihex Device Bootloader Commands
begin

text \<open>
  Code upload, \<^verbatim>\<open>apps/upload.rs\<close>.  The functions work on the operations of a device over its state \<open>'s\<close>
  (\<open>DeviceOps\<close>, the methods of \<^verbatim>\<open>UartBusDevice\<close> and the waiting for the start signal); log messages are not
  modelled.  \<open>link_ops\<close> are these operations on a device with the firmware of the theory \<open>Bootloader\<close>
  behind a bus that may lose every request and every reply.
\<close>

subsection \<open>Operations of the device\<close>

record 's DeviceOps =
  op_hardware_reset :: "'s \<Rightarrow> (RpcError + unit) \<times> 's"
  op_software_reset :: "'s \<Rightarrow> (RpcError + unit) \<times> 's"
  op_wait_start :: "'s \<Rightarrow> (RpcError + unit) \<times> 's"
  op_ping :: "'s \<Rightarrow> (RpcError + unit) \<times> 's"
  op_set_var :: "UbBootloaderVariable \<Rightarrow> i8 \<Rightarrow> 's \<Rightarrow> (RpcError + unit) \<times> 's"
  op_get_var :: "UbBootloaderVariable \<Rightarrow> 's \<Rightarrow> (RpcError + i8) \<times> 's"
  op_read_program_code :: "u16 \<Rightarrow> u8 \<Rightarrow> 's \<Rightarrow> (RpcError + u16 \<times> bytes) \<times> 's"
  op_flash_get_stage :: "'s \<Rightarrow> (RpcError + i8) \<times> 's"
  op_flash_start :: "'s \<Rightarrow> (RpcError + unit) \<times> 's"
  op_flash_get_next_address :: "'s \<Rightarrow> (RpcError + u16) \<times> 's"
  op_flash_push_code :: "u16 \<Rightarrow> bytes \<Rightarrow> 's \<Rightarrow> (RpcError + u16) \<times> 's"
  op_flash_commit :: "'s \<Rightarrow> (RpcError + unit) \<times> 's"

text \<open>The operator \<^verbatim>\<open>?\<close> on a result with state.\<close>

definition and_then :: "(RpcError + 'a) \<times> 's \<Rightarrow> ('a \<Rightarrow> 's \<Rightarrow> (RpcError + 'b) \<times> 's) \<Rightarrow> (RpcError + 'b) \<times> 's" where
  "and_then r f = (case r of (Inl e, s) \<Rightarrow> (Inl e, s) | (Inr x, s) \<Rightarrow> f x s)"

definition BLOCK_SIZE :: nat where
  "BLOCK_SIZE = 32"

definition upload_CODE :: CliEntry where
  "upload_CODE = \<lparr>names = [''c'', ''-code''], description = ''Code to upload in Intel Hex format''\<rparr>"

definition NO_VERIFY :: CliEntry where
  "NO_VERIFY = \<lparr>names = [''n'', ''-no-verify''], description = ''If option is present, skip the verification''\<rparr>"

definition SOFT :: CliEntry where
  "SOFT = \<lparr>names = [''s'', ''-soft-reset''], description = ''Soft reset''\<rparr>"

text \<open>The one code segment of a file; \<open>Inl (Inr code)\<close> is the exit of the process.\<close>

definition get_code_from_file :: "string + string list \<Rightarrow> (IntelHexError + int) + CodeSegment" where
  "get_code_from_file content =
     (case load_file content of
        Inl e \<Rightarrow> Inl (Inl e)
      | Inr file \<Rightarrow>
          (case get_code file of
             Inl e \<Rightarrow> Inl (Inl e)
           | Inr codes \<Rightarrow>
               (case concat_segments codes 100 0xff of
                  Inl e \<Rightarrow> Inl (Inl e)
                | Inr [] \<Rightarrow> Inl (Inr 3)
                | Inr [segment] \<Rightarrow> Inr segment
                | Inr _ \<Rightarrow> Inl (Inr 4))))"

fun transaction_loop :: "nat \<Rightarrow> RpcError \<Rightarrow> ('s \<Rightarrow> (RpcError + 'a) \<times> 's) \<Rightarrow> 's \<Rightarrow> (RpcError + 'a) \<times> 's" where
  "transaction_loop 0 last_error step s = (Inl last_error, s)"
| "transaction_loop (Suc retry) last_error step s =
     (case step s of
        (Inl (RpcTransaction msg), s') \<Rightarrow> transaction_loop retry (RpcTransaction msg) step s'
      | other \<Rightarrow> other)"

definition transaction :: "nat \<Rightarrow> ('s \<Rightarrow> (RpcError + 'a) \<times> 's) \<Rightarrow> 's \<Rightarrow> (RpcError + 'a) \<times> 's" where
  "transaction retry step s = transaction_loop retry (RpcTransaction ''No attempt was made'') step s"

subsection \<open>Restarting\<close>

definition reset_and_wait_start :: "'s DeviceOps \<Rightarrow> 's \<Rightarrow> (RpcError + unit) \<times> 's" where
  "reset_and_wait_start ops s = and_then (op_hardware_reset ops s) (\<lambda>_. op_wait_start ops)"

definition restart_grab_device :: "'s DeviceOps \<Rightarrow> nat \<Rightarrow> 's \<Rightarrow> (RpcError + unit) \<times> 's" where
  "restart_grab_device ops retry s =
     and_then (reset_and_wait_start ops s) (\<lambda>_ s.
     and_then (transaction retry (op_set_var ops IsSignalingSos 0) s) (\<lambda>_ s.
     and_then (transaction retry (op_set_var ops IsApplicationRunning 0) s) (\<lambda>_ s.
     and_then (transaction retry (op_get_var ops IsApplicationRunning) s) (\<lambda>app s.
       if app \<noteq> 0
       then (Inl (RpcOther (''After doing grab reboot application is still running. appRun:'' @ show_int (sint app))), s)
       else (Inr (), s)))))"

definition restart_device :: "'s DeviceOps \<Rightarrow> nat \<Rightarrow> bool \<Rightarrow> 's \<Rightarrow> (RpcError + unit) \<times> 's" where
  "restart_device ops retry flawed s =
     and_then (reset_and_wait_start ops s) (\<lambda>_ s.
     and_then (transaction retry (op_set_var ops IsSignalingSos 0) s) (\<lambda>_ s.
       if \<not> flawed
       then and_then (transaction retry (op_set_var ops IsApplicationRunning 1) s) (\<lambda>_ s. (Inr (), s))
       else (Inr (), s)))"

subsection \<open>Pushing\<close>

definition NULL_ADDRESS_MESSAGE :: string where
  "NULL_ADDRESS_MESSAGE = ''NULL nextAddress received during the code upload. Maybe the target device has been resetted during the code upload process.This might be caused by a broken host system (uart bootloader) or insufficient device power supply.''"

text \<open>
  The step of the loop, with the address in its state.  A slice outside of the code would be a panic;
  the guards before it exclude that.
\<close>

definition push_piece :: "'s DeviceOps \<Rightarrow> CodeSegment \<Rightarrow> u16 \<times> 's \<Rightarrow> (RpcError + bool) \<times> u16 \<times> 's" where
  "push_piece ops code = (\<lambda>(addr, s).
     (case get_code_piece (unat addr - seg_start code) BLOCK_SIZE code of
        Ret piece \<Rightarrow>
          (case op_flash_push_code ops addr piece s of
             (Inr next_addr, s) \<Rightarrow> (Inr False, next_addr, s)
           | (Inl err, s) \<Rightarrow> if err = RpcPosix ENXIO then (Inr False, 0, s) else (Inl err, addr, s))
      | _ \<Rightarrow> (Inl (RpcOther ''slice index out of range''), addr, s)))"

definition push_step :: "'s DeviceOps \<Rightarrow> CodeSegment \<Rightarrow> u16 \<times> 's \<Rightarrow> (RpcError + bool) \<times> u16 \<times> 's" where
  "push_step ops code = (\<lambda>(addr, s).
     (case (if addr = 0 then op_flash_get_next_address ops s else (Inr addr, s)) of
        (Inl e, s) \<Rightarrow> (Inl e, addr, s)
      | (Inr addr, s) \<Rightarrow>
          if seg_start code + length (seg_data code) \<le> unat addr then (Inr True, addr, s)
          else if addr = 0 then (Inl (RpcOther NULL_ADDRESS_MESSAGE), addr, s)
          else if unat addr < seg_start code then (Inr False, addr, s)
          else push_piece ops code (addr, s)))"

partial_function (option) push_loop ::
    "'s DeviceOps \<Rightarrow> nat \<Rightarrow> CodeSegment \<Rightarrow> u16 \<times> 's \<Rightarrow> ((RpcError + unit) \<times> 's) option" where
  "push_loop ops retry code st =
     (case transaction retry (push_step ops code) st of
        (Inl e, (addr, s)) \<Rightarrow> Some (Inl e, s)
      | (Inr finished, st) \<Rightarrow> if finished then Some (Inr (), snd st) else push_loop ops retry code st)"

definition start_mismatch :: "u16 \<Rightarrow> CodeSegment \<Rightarrow> RpcError" where
  "start_mismatch start code =
     RpcOther (''Application section and code start address mismatch: APP_START region: '' @ show_nat (unat start)
       @ '', upload code start address: '' @ show_nat (seg_start code))"

definition enter_flashing :: "'s DeviceOps \<Rightarrow> nat \<Rightarrow> 's \<Rightarrow> (RpcError + unit) \<times> 's" where
  "enter_flashing ops retry s =
     and_then (op_flash_get_stage ops s) (\<lambda>stage s.
       if stage \<noteq> 0 then (Inr (), s) else transaction retry (op_flash_start ops) s)"

definition push_code :: "'s DeviceOps \<Rightarrow> nat \<Rightarrow> CodeSegment \<Rightarrow> 's \<Rightarrow> ((RpcError + u16) \<times> 's) option" where
  "push_code ops retry code s =
     (case and_then (enter_flashing ops retry s) (\<lambda>_. op_flash_get_next_address ops) of
        (Inl e, s) \<Rightarrow> Some (Inl e, s)
      | (Inr start, s) \<Rightarrow>
          if unat start \<noteq> seg_start code then Some (Inl (start_mismatch start code), s)
          else
            (case push_loop ops retry code (0, s) of
               None \<Rightarrow> None
             | Some (Inl e, s) \<Rightarrow> Some (Inl e, s)
             | Some (Inr _, s) \<Rightarrow> Some (and_then (transaction retry (op_flash_commit ops) s) (\<lambda>_ s. (Inr start, s)))))"

subsection \<open>Verifying\<close>

definition verify_step :: "'s DeviceOps \<Rightarrow> CodeSegment \<Rightarrow> nat \<Rightarrow> 's \<Rightarrow> (RpcError + unit) \<times> 's" where
  "verify_step ops code addr s =
     (case get_code_piece (addr - seg_start code) BLOCK_SIZE code of
        Ret piece \<Rightarrow>
          (case op_read_program_code ops (word_of_nat addr) (word_of_nat (length piece)) s of
             (Inr (read_addr, read_code), s) \<Rightarrow>
               if unat read_addr \<noteq> addr
               then (Inl (RpcTransaction (''Different address returned, than the requested. Req: '' @ show_nat addr)), s)
               else if piece = read_code then (Inr (), s)
               else (Inl (RpcOther ''Uploaded code verification failed.''), s)
           | (Inl err, s) \<Rightarrow>
               (Inl (RpcTransaction (''Different address returned, than the requested. Req: '' @ show_nat addr)), s))
      | _ \<Rightarrow> (Inl (RpcOther ''slice index out of range''), s))"

function verify_loop :: "'s DeviceOps \<Rightarrow> nat \<Rightarrow> CodeSegment \<Rightarrow> nat \<Rightarrow> 's \<Rightarrow> (RpcError + unit) \<times> 's" where
  "verify_loop ops retry code addr s =
     (if addr < seg_start code + length (seg_data code)
      then (case transaction retry (verify_step ops code addr) s of
              (Inl e, s) \<Rightarrow> (Inl e, s)
            | (Inr _, s) \<Rightarrow> verify_loop ops retry code (addr + BLOCK_SIZE) s)
      else (Inr (), s))"
  by pat_completeness auto
termination by (relation "measure (\<lambda>(ops, retry, code, addr, s). seg_start code + length (seg_data code) - addr)")
    (auto simp: BLOCK_SIZE_def)

declare verify_loop.simps [simp del]

definition verify_code :: "'s DeviceOps \<Rightarrow> nat \<Rightarrow> CodeSegment \<Rightarrow> u16 \<Rightarrow> 's \<Rightarrow> (RpcError + unit) \<times> 's" where
  "verify_code ops retry code start s = verify_loop ops retry code (unat start) s"

subsection \<open>The subcommand\<close>

text \<open>
  The upload after the device is connected: \<open>Inl code\<close> is the exit of the process, \<open>Inr r\<close> the result of
  \<^verbatim>\<open>main\<close>.
\<close>

definition upload_device ::
    "'s DeviceOps \<Rightarrow> nat \<Rightarrow> bool \<Rightarrow> CodeSegment \<Rightarrow> 's \<Rightarrow> ((int + (RpcError + unit)) \<times> 's) option" where
  "upload_device ops retry no_verify code s =
     (case op_ping ops s of
        (Inl _, s) \<Rightarrow> Some (Inl 2, s)
      | (Inr _, s) \<Rightarrow>
          (case restart_grab_device ops retry s of
             (Inl e, s) \<Rightarrow> Some (Inr (Inl e), s)
           | (Inr _, s) \<Rightarrow>
               (case push_code ops retry code s of
                  None \<Rightarrow> None
                | Some pushed \<Rightarrow>
                    (case and_then pushed (\<lambda>start s. if no_verify then (Inr (), s) else verify_code ops retry code start s) of
                       (Inl _, s) \<Rightarrow> (let (_, s) = restart_device ops retry True s in Some (Inl 1, s))
                     | (Inr _, s) \<Rightarrow> (let (r, s) = restart_device ops retry False s in Some (Inr r, s))))))"

definition UPLOAD_ENTRIES :: "CliEntry list" where
  "UPLOAD_ENTRIES = [RPC_HOST, RPC_PORT, FROM, TO, upload_CODE, NO_VERIFY]"

definition GRAB_ENTRIES :: "CliEntry list" where
  "GRAB_ENTRIES = [RPC_HOST, RPC_PORT, FROM, TO]"

definition REBOOT_ENTRIES :: "CliEntry list" where
  "REBOOT_ENTRIES = [RPC_HOST, RPC_PORT, FROM, TO, SOFT]"

text \<open>
  The mains of the subcommands.  \<open>connect\<close> opens the connection to the RPC server and gives the state
  behind it, \<open>device\<close> the operations of the device with an address; the result holds that state when
  there was a connection.
\<close>

definition app_result :: "(RpcError + unit) \<times> 's \<Rightarrow> AppEnd \<times> 's option" where
  "app_result r = (case r of (Inl e, s) \<Rightarrow> (AppErr (rpc_error_text e), Some s) | (Inr _, s) \<Rightarrow> (AppOk, Some s))"

definition upload_main ::
    "(string \<Rightarrow> u16 \<Rightarrow> i32 \<Rightarrow> string + 's) \<Rightarrow> (i32 \<Rightarrow> 's DeviceOps) \<Rightarrow> (string \<Rightarrow> string + string list) \<Rightarrow> string list
      \<Rightarrow> (AppEnd \<times> 's option) option" where
  "upload_main connect device files args =
     (case parse_or_help ''UartbusCodeUploader'' args UPLOAD_ENTRIES of
        Inl (exit_code, _) \<Rightarrow> Some (AppExit exit_code, None)
      | Inr pa \<Rightarrow>
          (case get_simple upload_CODE pa of
             None \<Rightarrow> Some (AppExit 1, None)
           | Some path \<Rightarrow>
               (case cli_parse parse_i32 TO pa of
                  Inl e \<Rightarrow> Some (AppErr e, None)
                | Inr None \<Rightarrow> Some (AppExit 1, None)
                | Inr (Some to) \<Rightarrow>
                    (case get_code_from_file (files path) of
                       Inl (Inl e) \<Rightarrow> Some (AppErr (ihex_error_text e), None)
                     | Inl (Inr exit_code) \<Rightarrow> Some (AppExit exit_code, None)
                     | Inr code \<Rightarrow>
                         (case cli_bus_connect connect pa of
                            Inl e \<Rightarrow> Some (AppErr e, None)
                          | Inr s \<Rightarrow>
                              map_option (\<lambda>(r, s). case r of Inl exit_code \<Rightarrow> (AppExit exit_code, Some s) | Inr r \<Rightarrow> app_result (r, s))
                                (upload_device (device to) 100 (has_option NO_VERIFY pa) code s))))))"

definition grab_main ::
    "(string \<Rightarrow> u16 \<Rightarrow> i32 \<Rightarrow> string + 's) \<Rightarrow> (i32 \<Rightarrow> 's DeviceOps) \<Rightarrow> string list \<Rightarrow> AppEnd \<times> 's option" where
  "grab_main connect device args =
     (case parse_or_help ''UartbusGrab'' args GRAB_ENTRIES of
        Inl (exit_code, _) \<Rightarrow> (AppExit exit_code, None)
      | Inr pa \<Rightarrow>
          (case parse_or parse_i32 TO pa (- 1) of
             Inl e \<Rightarrow> (AppErr e, None)
           | Inr to \<Rightarrow>
               (case cli_bus_connect connect pa of
                  Inl e \<Rightarrow> (AppErr e, None)
                | Inr s \<Rightarrow> app_result (restart_grab_device (device to) (dev_retry_count (device_new to)) s))))"

definition reboot_main ::
    "(string \<Rightarrow> u16 \<Rightarrow> i32 \<Rightarrow> string + 's) \<Rightarrow> (i32 \<Rightarrow> 's DeviceOps) \<Rightarrow> string list \<Rightarrow> AppEnd \<times> 's option" where
  "reboot_main connect device args =
     (case parse_or_help ''UartbusReboot'' args REBOOT_ENTRIES of
        Inl (exit_code, _) \<Rightarrow> (AppExit exit_code, None)
      | Inr pa \<Rightarrow>
          (case parse_or parse_i32 TO pa (- 1) of
             Inl e \<Rightarrow> (AppErr e, None)
           | Inr to \<Rightarrow>
               (case cli_bus_connect connect pa of
                  Inl e \<Rightarrow> (AppErr e, None)
                | Inr s \<Rightarrow>
                    app_result (if has_option SOFT pa then op_software_reset (device to) s else op_hardware_reset (device to) s))))"

subsection \<open>A device behind a bus with losses\<close>

text \<open>
  What happens to a call is its fate; the fates of the calls are an arbitrary sequence.  A call that is
  not answered ends with the transaction error; calls of functions that only read may stand for
  several attempts.  The reply is read as \<^const>\<open>device_call\<close> does.
\<close>

datatype Fate = RequestLost | ReplyLost | Delivered

record LossyDevice =
  ld_firmware :: Firmware
  ld_fates :: "nat \<Rightarrow> Fate"
  ld_calls :: nat
  ld_started :: bool

definition params_of :: "RpcValue list \<Rightarrow> bytes" where
  "params_of params = (case append_elements be_digits params asm_new of Inr a \<Rightarrow> asm_buffer a | Inl _ \<Rightarrow> [])"

definition result_of :: "(RpcError, 'a) outcome option \<Rightarrow> RpcError + 'a" where
  "result_of r = (case r of Some (Ret x) \<Rightarrow> Inr x | Some (Fail e) \<Rightarrow> Inl e | _ \<Rightarrow> Inl (RpcOther ''panic''))"

definition no_answer :: RpcError where
  "no_answer = RpcTransaction ''Device not responded''"

definition lossy_call ::
    "UbFunction \<Rightarrow> (RpcValue option \<Rightarrow> (RpcError, 'a) outcome) \<Rightarrow> (Firmware \<Rightarrow> bytes list \<times> Firmware) \<Rightarrow> LossyDevice
      \<Rightarrow> (RpcError + 'a) \<times> LossyDevice" where
  "lossy_call f conv handler d =
     (case ld_fates d (ld_calls d) of
        RequestLost \<Rightarrow> (Inl no_answer, d\<lparr>ld_calls := ld_calls d + 1\<rparr>)
      | ReplyLost \<Rightarrow> (Inl no_answer, d\<lparr>ld_calls := ld_calls d + 1, ld_firmware := snd (handler (ld_firmware d))\<rparr>)
      | Delivered \<Rightarrow>
          (result_of (map_option (\<lambda>m. obind m conv) (extract_or_throw_result 10 f (hd (fst (handler (ld_firmware d)))))),
           d\<lparr>ld_calls := ld_calls d + 1, ld_firmware := snd (handler (ld_firmware d))\<rparr>))"

text \<open>
  A reset has no reply.  The watchdog sets the reset flag of the controller to 8; a jump to the reset
  vector leaves it as it was.
\<close>

definition lossy_reset :: "u8 \<Rightarrow> LossyDevice \<Rightarrow> (RpcError + unit) \<times> LossyDevice" where
  "lossy_reset mcusr d =
     (Inr (),
      if ld_fates d (ld_calls d) = RequestLost then d\<lparr>ld_calls := ld_calls d + 1\<rparr>
      else d\<lparr>ld_calls := ld_calls d + 1, ld_firmware := firmware_restarted mcusr (ld_firmware d), ld_started := True\<rparr>)"

definition lossy_wait_start :: "LossyDevice \<Rightarrow> (RpcError + unit) \<times> LossyDevice" where
  "lossy_wait_start d =
     (if ld_started d \<and> ld_fates d (ld_calls d) = Delivered
      then (Inr (), d\<lparr>ld_calls := ld_calls d + 1, ld_started := False\<rparr>)
      else (Inl no_answer, d\<lparr>ld_calls := ld_calls d + 1\<rparr>))"

definition no_debug :: "'a \<Rightarrow> string" where
  "no_debug v = ''''"

definition link_ops :: "FirmwareConfig \<Rightarrow> LossyDevice DeviceOps" where
  "link_ops cfg =
     \<lparr>op_hardware_reset = lossy_reset 8,
      op_software_reset = (\<lambda>d. lossy_reset (reset_flag (ld_firmware d)) d),
      op_wait_start = lossy_wait_start,
      op_ping = lossy_call (retransmittable (UbFunction_new 0 RetVoid)) unit_result (\<lambda>fw. ([[]], fw)),
      op_set_var = (\<lambda>var v. lossy_call (UbFunction_new 2 RetVoid) unit_result
        (rpc_bootloader_set_var (params_of [RvEnum (variable_index var), RvS8 v]))),
      op_get_var = (\<lambda>var. lossy_call (retransmittable (UbFunction_new 1 (RetValue RtS8)))
        (\<lambda>v. obind (required_value v) (s8_value no_debug))
        (rpc_bootloader_get_var cfg (params_of [RvEnum (variable_index var)]))),
      op_read_program_code = (\<lambda>address len. lossy_call (retransmittable (UbFunction_new 3 (RetValue (RtStruct [RtU16, RtBytes]))))
        (\<lambda>v. obind (required_value v) (code_value no_debug no_debug))
        (rpc_bootloader_read_code (params_of [RvU16 address, RvU8 len]))),
      op_flash_get_stage = lossy_call (retransmittable (posix (UbFunction_new 0 (RetValue RtS8))))
        (\<lambda>v. obind (required_value v) (s8_value no_debug)) blf_get_flash_stage,
      op_flash_start = lossy_call (posix (UbFunction_new 1 RetVoid)) unit_result (blf_start_flash cfg),
      op_flash_get_next_address = lossy_call (retransmittable (UbFunction_new 2 (RetValue RtU16)))
        (\<lambda>v. obind (required_value v) (address_value no_debug)) blf_get_next_addr,
      op_flash_push_code = (\<lambda>address data. lossy_call (posix (UbFunction_new 3 (RetValue RtU16)))
        (\<lambda>v. obind (required_value v) (address_value no_debug))
        (blf_push_code cfg (params_of [RvU16 address, RvBytes data]))),
      op_flash_commit = lossy_call (posix (UbFunction_new 4 RetVoid)) unit_result (commit_flash cfg)\<rparr>"

subsection \<open>Requests and replies\<close>

lemma address_bytes: "to_be_bytes 2 (addr :: u16) = [ucast (drop_bit 8 addr AND 0xff), ucast (addr AND 0xff)]"
proof -
  have m: "(0xff :: u16) = mask 8" by (simp add: mask_eq_exp_minus_1)
  have "(ucast (w AND 0xff) :: u8) = ucast w" for w :: u16
    unfolding m by (rule bit_word_eqI) (auto simp: bit_ucast_iff bit_and_iff bit_mask_iff)
  then show ?thesis by (simp add: numeral_2_eq_2)
qed

lemma params_of_push: "params_of [RvU16 addr, RvBytes piece] = push_request addr piece"
  by (simp add: params_of_def asm_new_def write_u16_be_def write_blob_def push_request_def address_bytes)

lemma params_of_read: "params_of [RvU16 addr, RvU8 len] = push_request addr [len]"
  by (simp add: params_of_def asm_new_def write_u16_be_def write_u8_def push_request_def address_bytes)

lemma push_request_be: "push_request addr piece = to_be_bytes 2 addr @ piece"
  by (simp add: push_request_def address_bytes)

text \<open>How a call reads a reply.\<close>

definition reply_result :: "UbFunction \<Rightarrow> (RpcValue option \<Rightarrow> (RpcError, 'a) outcome) \<Rightarrow> bytes \<Rightarrow> RpcError + 'a" where
  "reply_result f conv reply = result_of (map_option (\<lambda>m. obind m conv) (extract_or_throw_result 10 f reply))"

lemma reply_address:
  "reply_result (retransmittable (UbFunction_new 2 (RetValue RtU16)))
     (\<lambda>v. obind (required_value v) (address_value no_debug)) (push_request a []) = Inr a"
  using read_u16_be_at [of "[]" a "[]"]
  by (simp add: reply_result_def result_of_def extract_or_throw_result_def read_return_def UbFunction_new_def retransmittable_def
      push_request_be reader_new_at required_value_def address_value_def exceeds_usize_def)

lemma reply_pushed:
  "reply_result (posix (UbFunction_new 3 (RetValue RtU16)))
     (\<lambda>v. obind (required_value v) (address_value no_debug)) (0 # push_request a []) = Inr a"
  using read_u16_be_at [of "[0]" a "[]"]
  by (simp add: reply_result_def result_of_def extract_or_throw_result_def read_return_def UbFunction_new_def posix_def
      push_request_be required_value_def address_value_def exceeds_usize_def read_ubyte_def reader_new_def reader_at_def)

lemma reply_errno:
  "errno \<noteq> 0 \<Longrightarrow> reply_result (posix f) conv [errno] = Inl (RpcPosix errno)"
  by (simp add: reply_result_def result_of_def extract_or_throw_result_def posix_def read_ubyte_def reader_new_def)

lemma reply_done: "reply_result (posix (UbFunction_new i RetVoid)) unit_result [0] = Inr ()"
  by (simp add: reply_result_def result_of_def extract_or_throw_result_def posix_def read_ubyte_def reader_new_def
      read_return_def UbFunction_new_def unit_result_def)

lemma reply_stage:
  "reply_result (retransmittable (posix (UbFunction_new 0 (RetValue RtS8))))
     (\<lambda>v. obind (required_value v) (s8_value no_debug)) [0, stage] = Inr stage"
  by (simp add: reply_result_def result_of_def extract_or_throw_result_def posix_def retransmittable_def read_ubyte_def reader_new_def
      read_return_def UbFunction_new_def required_value_def s8_value_def read_sbyte_def)

subsection \<open>Calls over the bus\<close>

text \<open>What a call can fail from: the bus loses a packet.\<close>

definition lossy :: "(nat \<Rightarrow> Fate) \<Rightarrow> bool" where
  "lossy fates \<longleftrightarrow> (\<exists>i. fates i \<noteq> Delivered)"

lemma lossy_call_result:
  assumes "lossy_call f conv handler d = (r, d')"
  shows "r = Inl no_answer \<and> ld_firmware d' \<in> {ld_firmware d, snd (handler (ld_firmware d))} \<and> lossy (ld_fates d)
    \<or> r = reply_result f conv (hd (fst (handler (ld_firmware d)))) \<and> ld_firmware d' = snd (handler (ld_firmware d))"
    and "ld_fates d' = ld_fates d" and "ld_started d' = ld_started d"
proof -
  have "ld_fates d (ld_calls d) \<noteq> Delivered \<Longrightarrow> lossy (ld_fates d)" by (auto simp: lossy_def)
  then show "r = Inl no_answer \<and> ld_firmware d' \<in> {ld_firmware d, snd (handler (ld_firmware d))} \<and> lossy (ld_fates d)
    \<or> r = reply_result f conv (hd (fst (handler (ld_firmware d)))) \<and> ld_firmware d' = snd (handler (ld_firmware d))"
    "ld_fates d' = ld_fates d" "ld_started d' = ld_started d"
    using assms by (auto simp: lossy_call_def reply_result_def split: Fate.splits)
qed

text \<open>
  The rule for a repeated step: its invariant \<open>I\<close> is kept by the attempts that fail, which they do
  only under the condition \<open>L\<close>; the attempt that succeeds gives \<open>Q\<close>.
\<close>

lemma transaction_rule:
  assumes "transaction retry step s = (r, s')" and "I s"
    and "\<And>s r s'. I s \<Longrightarrow> step s = (r, s') \<Longrightarrow> case r of Inl e \<Rightarrow> I s' \<and> L | Inr x \<Rightarrow> Q x s'"
  shows "case r of Inl e \<Rightarrow> I s' \<and> (0 < retry \<longrightarrow> L) | Inr x \<Rightarrow> Q x s'"
proof -
  have "case r of Inl e \<Rightarrow> I s' \<and> (0 < n \<longrightarrow> L) | Inr x \<Rightarrow> Q x s'" if "transaction_loop n e step s = (r, s')" "I s" for n e s
    using that
  proof (induction n arbitrary: e s)
    case (Suc n)
    obtain r1 s1 where st: "step s = (r1, s1)" by (cases "step s")
    note ok = assms(3) [OF Suc.prems(2) st]
    show ?case
    proof (cases "\<exists>msg. r1 = Inl (RpcTransaction msg)")
      case True
      then show ?thesis using Suc st ok by (fastforce split: sum.splits)
    next
      case False
      then have "(r, s') = (r1, s1)" using Suc.prems(1) st by (auto split: sum.splits RpcError.splits)
      then show ?thesis using ok by (auto split: sum.splits)
    qed
  qed auto
  then show ?thesis using assms(1,2) by (simp add: transaction_def)
qed

lemma next_address_result:
  assumes "op_flash_get_next_address (link_ops cfg) d = (r, d')"
  shows "ld_firmware d' = ld_firmware d" "ld_fates d' = ld_fates d"
    "r = Inl no_answer \<and> lossy (ld_fates d) \<or> r = Inr (flash_crnt_address (ld_firmware d))"
  using lossy_call_result [OF assms [unfolded link_ops_def, simplified]] reply_address [of "flash_crnt_address (ld_firmware d)"]
  by (auto simp: blf_get_next_addr_def push_request_def)

subsection \<open>Progress of the upload\<close>

text \<open>
  While the code is pushed, the device holds its first \<open>n\<close> bytes and the host knows no address above
  the one the device expects; an address below it costs a request more.
\<close>

definition push_rank :: "FirmwareConfig \<Rightarrow> bytes \<Rightarrow> nat \<Rightarrow> u16 \<Rightarrow> nat" where
  "push_rank cfg code n addr =
     2 * (length code - n) + (if addr = 0 \<or> unat addr = unat (APP_START_ADDRESS cfg) + n then 0 else 1)"

definition pushing :: "FirmwareConfig \<Rightarrow> bytes \<Rightarrow> (nat \<Rightarrow> Fate) \<Rightarrow> nat \<Rightarrow> u16 \<times> LossyDevice \<Rightarrow> bool" where
  "pushing cfg code fates m = (\<lambda>(addr, d). flash_stage (ld_firmware d) \<noteq> 0 \<and> ld_fates d = fates \<and>
     (\<exists>n. holds_code cfg code n (ld_firmware d) \<and> push_rank cfg code n addr \<le> m
        \<and> (addr = 0 \<or> unat (APP_START_ADDRESS cfg) \<le> unat addr \<and> unat addr \<le> unat (APP_START_ADDRESS cfg) + n)))"

definition all_pushed :: "FirmwareConfig \<Rightarrow> bytes \<Rightarrow> (nat \<Rightarrow> Fate) \<Rightarrow> LossyDevice \<Rightarrow> bool" where
  "all_pushed cfg code fates d \<longleftrightarrow>
     flash_stage (ld_firmware d) \<noteq> 0 \<and> ld_fates d = fates \<and> holds_code cfg code (length code) (ld_firmware d)"

text \<open>What a step of the loop does: fail from a loss, get closer to the end, or reach it.\<close>

definition push_progress :: "FirmwareConfig \<Rightarrow> bytes \<Rightarrow> (nat \<Rightarrow> Fate) \<Rightarrow> nat \<Rightarrow> (RpcError + bool) \<times> u16 \<times> LossyDevice \<Rightarrow> bool" where
  "push_progress cfg code fates m = (\<lambda>(r, st). case r of
       Inl e \<Rightarrow> pushing cfg code fates m st \<and> lossy fates
     | Inr finished \<Rightarrow> if finished then all_pushed cfg code fates (snd st) else \<exists>m' < m. pushing cfg code fates m' st)"

lemma pushingI:
  "flash_stage (ld_firmware d) \<noteq> 0 \<Longrightarrow> ld_fates d = fates \<Longrightarrow> holds_code cfg code n (ld_firmware d) \<Longrightarrow> push_rank cfg code n addr \<le> m \<Longrightarrow>
   addr = 0 \<or> unat (APP_START_ADDRESS cfg) \<le> unat addr \<and> unat addr \<le> unat (APP_START_ADDRESS cfg) + n \<Longrightarrow>
   pushing cfg code fates m (addr, d)"
  by (auto simp: pushing_def)

lemma holds_code_address: "holds_code cfg code n fw \<Longrightarrow> unat (flash_crnt_address fw) = unat (APP_START_ADDRESS cfg) + n \<and> n \<le> length code"
  by (simp add: holds_code_def)

lemma pushing_mono: "pushing cfg code fates m st \<Longrightarrow> m \<le> m' \<Longrightarrow> pushing cfg code fates m' st"
  by (cases st) (auto simp: pushing_def intro: le_trans)

lemma push_progress_mono: "push_progress cfg code fates m x \<Longrightarrow> m \<le> m' \<Longrightarrow> push_progress cfg code fates m' x"
  by (cases x; cases "fst x") (auto simp: push_progress_def split: if_splits intro: pushing_mono less_le_trans)

lemma code_piece:
  assumes "offset < length (seg_data code)"
  shows "\<exists>piece. get_code_piece offset BLOCK_SIZE code = Ret piece \<and> piece \<noteq> [] \<and> length piece \<le> BLOCK_SIZE
    \<and> offset + length piece \<le> length (seg_data code) \<and> piece = take (length piece) (drop offset (seg_data code))"
  using assms by (auto simp: get_code_piece_def Let_def BLOCK_SIZE_def)

text \<open>The reply to a piece at the address the device expects, and at an earlier one.\<close>

lemma push_expected:
  assumes cfg: "config_ok cfg" "code_fits cfg code" and stage: "flash_stage (ld_firmware d) \<noteq> 0"
    and holds: "holds_code cfg code n (ld_firmware d)" and addr: "unat addr = unat (APP_START_ADDRESS cfg) + n"
    and piece: "piece \<noteq> []" "n + length piece \<le> length code" "piece = take (length piece) (drop n code)"
    and call: "op_flash_push_code (link_ops cfg) addr piece d = (r, d')"
  shows "\<exists>next. unat next = unat (APP_START_ADDRESS cfg) + (n + length piece)
    \<and> (r = Inl no_answer \<and> lossy (ld_fates d) \<and> ld_firmware d' = ld_firmware d
      \<or> flash_stage (ld_firmware d') \<noteq> 0 \<and> holds_code cfg code (n + length piece) (ld_firmware d')
        \<and> (r = Inl no_answer \<and> lossy (ld_fates d) \<or> r = Inr next))"
proof -
  have "addr = flash_crnt_address (ld_firmware d)" using holds_code_address [OF holds] addr by (simp add: word_unat_eq_iff)
  then obtain fw' where fw': "blf_push_code cfg (push_request addr piece) (ld_firmware d) = ([0 # push_request (flash_crnt_address fw') []], fw')"
    "holds_code cfg code (n + length piece) fw'" "flash_stage fw' = flash_stage (ld_firmware d)"
    using push_code_replies [OF cfg stage holds piece(1), of addr] addr piece(2,3) by auto
  then show ?thesis
    using lossy_call_result(1) [OF call [unfolded link_ops_def, simplified params_of_push, simplified]] stage
      holds_code_address [OF fw'(2)] reply_pushed [of "flash_crnt_address fw'"]
    by (intro exI [of _ "flash_crnt_address fw'"]) auto
qed

lemma push_stale:
  assumes cfg: "config_ok cfg" "code_fits cfg code" and stage: "flash_stage (ld_firmware d) \<noteq> 0"
    and holds: "holds_code cfg code n (ld_firmware d)" and addr: "unat addr = unat (APP_START_ADDRESS cfg) + m" "m \<noteq> n"
    and piece: "piece \<noteq> []" "m + length piece \<le> length code" "piece = take (length piece) (drop m code)"
    and call: "op_flash_push_code (link_ops cfg) addr piece d = (r, d')"
  shows "ld_firmware d' = ld_firmware d" and "r = Inl no_answer \<and> lossy (ld_fates d) \<or> r = Inl (RpcPosix ENXIO)"
proof -
  have "addr \<noteq> flash_crnt_address (ld_firmware d)" using holds_code_address [OF holds] addr by auto
  then have "blf_push_code cfg (push_request addr piece) (ld_firmware d) = ([[fw_ENXIO]], ld_firmware d)"
    using push_code_replies [OF cfg stage holds piece(1), of addr] addr piece(2,3) by simp
  then show "ld_firmware d' = ld_firmware d" "r = Inl no_answer \<and> lossy (ld_fates d) \<or> r = Inl (RpcPosix ENXIO)"
    using lossy_call_result(1) [OF call [unfolded link_ops_def, simplified params_of_push, simplified]] reply_errno [of fw_ENXIO]
    by (auto simp: fw_ENXIO_def ENXIO_def)
qed

lemma push_piece_progress:
  assumes cfg: "config_ok cfg" "code_fits cfg (seg_data code)" and start: "seg_start code = unat (APP_START_ADDRESS cfg)"
    and stage: "flash_stage (ld_firmware d) \<noteq> 0" and holds: "holds_code cfg (seg_data code) n (ld_firmware d)"
    and m: "unat addr = unat (APP_START_ADDRESS cfg) + m" "m \<le> n" "m < length (seg_data code)"
  shows "push_progress cfg (seg_data code) (ld_fates d) (push_rank cfg (seg_data code) n addr) (push_piece (link_ops cfg) code (addr, d))"
proof -
  let ?c = "seg_data code"
  obtain piece where get: "get_code_piece (unat addr - seg_start code) BLOCK_SIZE code = Ret piece"
    and piece: "piece \<noteq> []" "m + length piece \<le> length ?c" "piece = take (length piece) (drop m ?c)"
    using code_piece [OF m(3)] by (auto simp: m(1) start)
  obtain r d1 where call: "op_flash_push_code (link_ops cfg) addr piece d = (r, d1)" by fastforce
  have fates: "ld_fates d1 = ld_fates d" using lossy_call_result(2) [OF call [unfolded link_ops_def, simplified]] .
  have addr: "addr \<noteq> 0" using m(1) cfg(1) by (auto simp: config_ok_def)
  have bounds: "unat (APP_START_ADDRESS cfg) \<le> unat addr" "unat addr \<le> unat (APP_START_ADDRESS cfg) + n" using m by simp_all
  have "push_piece (link_ops cfg) code (addr, d) = (case r of Inr a \<Rightarrow> (Inr False, a, d1)
      | Inl err \<Rightarrow> if err = RpcPosix ENXIO then (Inr False, 0, d1) else (Inl err, addr, d1))"
    by (simp add: push_piece_def get call split: sum.splits)
  note step = this no_answer_def push_progress_def
  show ?thesis
  proof (cases "m = n")
    case True
    have less: "push_rank cfg ?c (n + length piece) x < push_rank cfg ?c n addr" for x
      using True piece(1,2) m(3) by (cases piece) (auto simp: push_rank_def)
    from push_expected [OF cfg stage holds _ _ _ _ call] m(1) piece True
    obtain a where "unat a = unat (APP_START_ADDRESS cfg) + (n + length piece)"
      "r = Inl no_answer \<and> lossy (ld_fates d) \<and> ld_firmware d1 = ld_firmware d
       \<or> flash_stage (ld_firmware d1) \<noteq> 0 \<and> holds_code cfg ?c (n + length piece) (ld_firmware d1)
        \<and> (r = Inl no_answer \<and> lossy (ld_fates d) \<or> r = Inr a)" by blast
    note cases = this
    have kept: "pushing cfg ?c (ld_fates d) (push_rank cfg ?c n addr) (addr, d1)" if "ld_firmware d1 = ld_firmware d"
      using that stage holds fates bounds by (auto intro: pushingI [where n = n])
    have moved: "pushing cfg ?c (ld_fates d) (push_rank cfg ?c (n + length piece) x) (x, d1)"
      if "flash_stage (ld_firmware d1) \<noteq> 0" "holds_code cfg ?c (n + length piece) (ld_firmware d1)" "x = addr \<or> x = a" for x
      using that fates bounds cases(1) by (intro pushingI [where n = "n + length piece"]) auto
    have "pushing cfg ?c (ld_fates d) (push_rank cfg ?c n addr) (addr, d1) \<and> (\<exists>m < push_rank cfg ?c n addr. pushing cfg ?c (ld_fates d) m (a, d1))"
      if "flash_stage (ld_firmware d1) \<noteq> 0" "holds_code cfg ?c (n + length piece) (ld_firmware d1)"
      using pushing_mono [OF moved [OF that] less_imp_le [OF less]] moved [OF that, of a] less [of a] by auto
    with cases(2) kept show ?thesis by (elim disjE conjE) (simp_all add: step)
  next
    case False
    then have "push_rank cfg ?c n 0 < push_rank cfg ?c n addr" using m(1) addr by (simp add: push_rank_def)
    then show ?thesis
      using push_stale [OF cfg stage holds m(1) False piece call] stage holds fates bounds
      by (auto simp: step intro!: pushingI [where n = n] exI [of _ "push_rank cfg ?c n 0"])
  qed
qed

lemma push_step_progress:
  assumes cfg: "config_ok cfg" "code_fits cfg (seg_data code)" and start: "seg_start code = unat (APP_START_ADDRESS cfg)"
    and inv: "pushing cfg (seg_data code) fates m st"
  shows "push_progress cfg (seg_data code) fates m (push_step (link_ops cfg) code st)"
proof -
  let ?S = "unat (APP_START_ADDRESS cfg)" and ?c = "seg_data code"
  obtain addr d where st: "st = (addr, d)" by (cases st)
  obtain n where stage: "flash_stage (ld_firmware d) \<noteq> 0" and holds: "holds_code cfg ?c n (ld_firmware d)" and fates: "ld_fates d = fates"
    and rank: "push_rank cfg ?c n addr \<le> m" and addr: "addr = 0 \<or> ?S \<le> unat addr \<and> unat addr \<le> ?S + n"
    using inv by (auto simp: st pushing_def)
  have pos: "0 < ?S" "n \<le> length ?c" using cfg(1) holds_code_address [OF holds] by (auto simp: config_ok_def)
  obtain r1 d1 where ask: "(if addr = 0 then op_flash_get_next_address (link_ops cfg) d else (Inr addr, d)) = (r1, d1)" by fastforce
  have d1: "ld_firmware d1 = ld_firmware d" "ld_fates d1 = fates" using ask fates next_address_result(1,2) by (auto split: if_splits)
  show ?thesis
  proof (cases r1)
    case (Inl e)
    then have "lossy fates" using ask next_address_result(3) [of cfg d r1 d1] fates by (auto split: if_splits)
    then show ?thesis using Inl ask stage holds rank addr d1 by (auto simp: push_step_def st push_progress_def intro!: pushingI)
  next
    case (Inr a)
    then have a: "?S \<le> unat a" "unat a \<le> ?S + n" "push_rank cfg ?c n a \<le> m"
      using ask addr rank next_address_result(3) [of cfg d r1 d1] holds_code_address [OF holds]
      by (auto simp: push_rank_def split: if_splits)
    define k where "k = unat a - ?S"
    have k: "unat a = ?S + k" "k \<le> n" and nz: "a \<noteq> 0" using a pos by (auto simp: k_def)
    show ?thesis
    proof (cases "k < length ?c")
      case False
      then have "n = length ?c" using k(2) pos(2) by simp
      then show ?thesis using False ask Inr k stage holds d1 by (simp add: push_step_def st start push_progress_def all_pushed_def)
    next
      case True
      then have "push_step (link_ops cfg) code st = push_piece (link_ops cfg) code (a, d1)"
        using ask Inr k(1) nz by (simp add: push_step_def st start)
      then show ?thesis
        using push_piece_progress [OF cfg start _ _ k True, of d1] stage holds d1 push_progress_mono [OF _ a(3)] by simp
    qed
  qed
qed

lemma push_loop_ends:
  assumes cfg: "config_ok cfg" "code_fits cfg (seg_data code)" and start: "seg_start code = unat (APP_START_ADDRESS cfg)"
  shows "pushing cfg (seg_data code) fates m st \<Longrightarrow> \<exists>r d. push_loop (link_ops cfg) retry code st = Some (r, d)
    \<and> ld_fates d = fates \<and> (case r of Inl e \<Rightarrow> 0 < retry \<longrightarrow> lossy fates | Inr _ \<Rightarrow> all_pushed cfg (seg_data code) fates d)"
proof (induction m arbitrary: st rule: less_induct)
  case (less m)
  let ?Q = "\<lambda>finished st. if finished then all_pushed cfg (seg_data code) fates (snd st) else \<exists>m' < m. pushing cfg (seg_data code) fates m' st"
  obtain r st' where t: "transaction retry (push_step (link_ops cfg) code) st = (r, st')"
    by (cases "transaction retry (push_step (link_ops cfg) code) st")
  have ok: "case r of Inl e \<Rightarrow> pushing cfg (seg_data code) fates m st' \<and> (0 < retry \<longrightarrow> lossy fates) | Inr finished \<Rightarrow> ?Q finished st'"
    using t less.prems
  proof (rule transaction_rule)
    fix st r st' assume "pushing cfg (seg_data code) fates m st" "push_step (link_ops cfg) code st = (r, st')"
    then show "case r of Inl e \<Rightarrow> pushing cfg (seg_data code) fates m st' \<and> lossy fates | Inr finished \<Rightarrow> ?Q finished st'"
      using push_step_progress [OF cfg start, of fates m st] by (simp add: push_progress_def)
  qed
  show ?case
  proof (cases r)
    case (Inl e)
    then show ?thesis using ok by (cases st') (simp add: push_loop.simps t pushing_def)
  next
    case (Inr finished)
    show ?thesis
    proof (cases finished)
      case True
      then show ?thesis using ok Inr by (simp add: push_loop.simps t all_pushed_def)
    next
      case False
      then obtain m' where "m' < m" "pushing cfg (seg_data code) fates m' st'" using ok Inr by auto
      from less.IH [OF this] show ?thesis using Inr False by (simp add: push_loop.simps [of _ _ _ st] t)
    qed
  qed
qed

definition flashed :: "FirmwareConfig \<Rightarrow> bytes \<Rightarrow> Firmware \<Rightarrow> bool" where
  "flashed cfg code fw \<longleftrightarrow> (\<forall>i < length code. program_memory fw (unat (APP_START_ADDRESS cfg) + i) = code ! i)"

text \<open>A result that is an error only from a loss, and otherwise satisfies \<open>P\<close>.\<close>

definition ends_well :: "(nat \<Rightarrow> Fate) \<Rightarrow> nat \<Rightarrow> ('a \<Rightarrow> bool) \<Rightarrow> RpcError + 'a \<Rightarrow> bool" where
  "ends_well fates retry P r = (case r of Inl e \<Rightarrow> 0 < retry \<longrightarrow> lossy fates | Inr x \<Rightarrow> P x)"

lemma ends_well_simps [simp]:
  "ends_well fates retry P (Inl e) \<longleftrightarrow> (0 < retry \<longrightarrow> lossy fates)" "ends_well fates retry P (Inr x) \<longleftrightarrow> P x"
  by (simp_all add: ends_well_def)

lemma enter_flashing_result:
  assumes stage: "flash_stage (ld_firmware d) = 0" and tmp: "length (flash_tmp (ld_firmware d)) = unat (SPM_PAGESIZE cfg)"
    and enter: "enter_flashing (link_ops cfg) retry d = (r, d')"
  shows "ld_fates d' = ld_fates d"
    and "ends_well (ld_fates d) retry (\<lambda>_. flash_stage (ld_firmware d') \<noteq> 0 \<and> holds_code cfg code 0 (ld_firmware d')) r"
proof -
  let ?F = "ld_fates d"
  let ?K = "\<lambda>d. length (flash_tmp (ld_firmware d)) = unat (SPM_PAGESIZE cfg) \<and> ld_fates d = ?F"
  let ?I = "\<lambda>d. ?K d \<and> (flash_stage (ld_firmware d) = 0 \<or> lossy ?F)"
  let ?Q = "\<lambda>(_ :: unit) d. ?K d \<and> flash_crnt_address (ld_firmware d) = APP_START_ADDRESS cfg \<and> flash_stage (ld_firmware d) = 1"
  obtain r1 d1 where ask: "op_flash_get_stage (link_ops cfg) d = (r1, d1)" by (cases "op_flash_get_stage (link_ops cfg) d")
  have fw1: "ld_firmware d1 = ld_firmware d" "ld_fates d1 = ?F" and r1: "r1 = Inl no_answer \<and> lossy ?F \<or> r1 = Inr 0"
    using lossy_call_result [OF ask [unfolded link_ops_def, simplified]] reply_stage [of 0] stage
    by (auto simp: blf_get_flash_stage_def)
  have step: "case r of Inl e \<Rightarrow> ?I d' \<and> lossy ?F | Inr x \<Rightarrow> ?Q x d'"
    if "?I d" "op_flash_start (link_ops cfg) d = (r, d')" for d r d'
    using lossy_call_result(1,2) [OF that(2) [unfolded link_ops_def, simplified]] that(1) reply_done [of 1]
    by (auto simp: blf_start_flash_def no_answer_def split: sum.splits)
  have "ld_fates d' = ld_fates d \<and> ends_well ?F retry (\<lambda>_. flash_stage (ld_firmware d') \<noteq> 0 \<and> holds_code cfg code 0 (ld_firmware d')) r"
  proof (cases "r1 = Inr 0")
    case True
    then have t: "transaction retry (op_flash_start (link_ops cfg)) d1 = (r, d')"
      using enter ask by (simp add: enter_flashing_def and_then_def)
    have "case r of Inl e \<Rightarrow> ?I d' \<and> (0 < retry \<longrightarrow> lossy ?F) | Inr x \<Rightarrow> ?Q x d'"
      by (rule transaction_rule [OF t]) (use tmp fw1 stage in simp, rule step)
    then show ?thesis by (auto simp: holds_code_def split: sum.splits)
  next
    case False
    then show ?thesis using r1 enter ask fw1 by (auto simp: enter_flashing_def and_then_def)
  qed
  then show "ld_fates d' = ld_fates d"
    "ends_well ?F retry (\<lambda>_. flash_stage (ld_firmware d') \<noteq> 0 \<and> holds_code cfg code 0 (ld_firmware d')) r" by simp_all
qed

lemma commit_result:
  assumes cfg: "config_ok cfg" "code_fits cfg code" and pushed: "all_pushed cfg code fates d"
    and commit: "transaction retry (op_flash_commit (link_ops cfg)) d = (r, d')"
  shows "ld_fates d' = fates" and "ends_well fates retry (\<lambda>_. flash_stage (ld_firmware d') = 0 \<and> flashed cfg code (ld_firmware d')) r"
proof -
  let ?Q = "\<lambda>(_ :: unit) d. flash_stage (ld_firmware d) = 0 \<and> flashed cfg code (ld_firmware d) \<and> ld_fates d = fates"
  let ?I = "\<lambda>d. ?Q () d \<and> lossy fates \<or> all_pushed cfg code fates d"
  have step: "case r of Inl e \<Rightarrow> ?I d' \<and> lossy fates | Inr x \<Rightarrow> ?Q x d'"
    if I: "?I d" and call: "op_flash_commit (link_ops cfg) d = (r, d')" for d r d'
  proof -
    note res = lossy_call_result(1,2) [OF call [unfolded link_ops_def, simplified]]
    show ?thesis
    proof (cases "flash_stage (ld_firmware d) = 0")
      case True
      then show ?thesis using I res by (auto simp: commit_flash_def all_pushed_def split: sum.splits)
    next
      case False
      then obtain fw' where "commit_flash cfg (ld_firmware d) = ([[0]], fw')" "flash_stage fw' = 0" "flashed cfg code fw'"
        using I commit_writes_the_code [OF cfg, of "ld_firmware d"] by (auto simp: flashed_def all_pushed_def)
      then show ?thesis using False res I reply_done by (auto simp: all_pushed_def split: sum.splits)
    qed
  qed
  have "case r of Inl e \<Rightarrow> ?I d' \<and> (0 < retry \<longrightarrow> lossy fates) | Inr x \<Rightarrow> ?Q x d'"
    by (rule transaction_rule [OF commit]) (use pushed in simp, rule step)
  then show "ld_fates d' = fates" "ends_well fates retry (\<lambda>_. flash_stage (ld_firmware d') = 0 \<and> flashed cfg code (ld_firmware d')) r"
    by (auto simp: all_pushed_def split: sum.splits)
qed

lemma push_code_result:
  assumes cfg: "config_ok cfg" "code_fits cfg (seg_data code)"
    and d: "flash_stage (ld_firmware d) = 0" "length (flash_tmp (ld_firmware d)) = unat (SPM_PAGESIZE cfg)"
  shows "\<exists>r d'. push_code (link_ops cfg) retry code d = Some (r, d') \<and> ld_fates d' = ld_fates d
    \<and> (if seg_start code = unat (APP_START_ADDRESS cfg)
       then ends_well (ld_fates d) retry (\<lambda>start. start = APP_START_ADDRESS cfg \<and> flash_stage (ld_firmware d') = 0
              \<and> flashed cfg (seg_data code) (ld_firmware d')) r
       else \<exists>e. r = Inl e)"
proof -
  let ?c = "seg_data code" and ?F = "ld_fates d"
  obtain r1 d1 where enter: "enter_flashing (link_ops cfg) retry d = (r1, d1)" by (cases "enter_flashing (link_ops cfg) retry d")
  obtain r2 d2 where ask: "op_flash_get_next_address (link_ops cfg) d1 = (r2, d2)" by (cases "op_flash_get_next_address (link_ops cfg) d1")
  note in1 = enter_flashing_result(1) [OF d enter] enter_flashing_result(2) [OF d enter, of ?c] and in2 = next_address_result [OF ask]
  show ?thesis
  proof (cases "r1 = Inr () \<and> (\<exists>start. r2 = Inr start)")
    case False
    then show ?thesis using enter ask in1 in2 by (cases r1; cases r2) (auto simp: push_code_def and_then_def)
  next
    case True
    then have h: "flash_stage (ld_firmware d2) \<noteq> 0" "holds_code cfg ?c 0 (ld_firmware d2)" "ld_fates d2 = ?F"
      and r2: "r1 = Inr ()" "r2 = Inr (APP_START_ADDRESS cfg)"
      using in1 in2 by (auto simp: holds_code_def word_unat_eq_iff)
    show ?thesis
    proof (cases "seg_start code = unat (APP_START_ADDRESS cfg)")
      case False
      then show ?thesis using r2 h enter ask by (simp add: push_code_def and_then_def)
    next
      case True
      have "pushing cfg ?c ?F (push_rank cfg ?c 0 0) (0, d2)" using h by (auto intro: pushingI)
      from push_loop_ends [OF cfg True this, of retry] obtain r3 d3
        where loop: "push_loop (link_ops cfg) retry code (0, d2) = Some (r3, d3)" "ends_well ?F retry (\<lambda>_. all_pushed cfg ?c ?F d3) r3"
          "ld_fates d3 = ?F"
        by (auto simp: ends_well_def)
      obtain r4 d4 where commit: "transaction retry (op_flash_commit (link_ops cfg)) d3 = (r4, d4)"
        by (cases "transaction retry (op_flash_commit (link_ops cfg)) d3")
      show ?thesis
        using True r2 enter ask loop commit commit_result [OF cfg _ commit]
        by (cases r3; cases r4) (auto simp: push_code_def and_then_def)
    qed
  qed
qed

lemma reply_void: "reply_result (UbFunction_new i RetVoid) unit_result reply = Inr ()"
  "reply_result (retransmittable (UbFunction_new i RetVoid)) unit_result reply = Inr ()"
  by (simp_all add: reply_result_def result_of_def extract_or_throw_result_def retransmittable_def
      read_return_def UbFunction_new_def unit_result_def)

lemma reply_var: "reply_result (retransmittable (UbFunction_new i (RetValue RtS8)))
     (\<lambda>v. obind (required_value v) (s8_value no_debug)) [v] = Inr v"
  by (simp add: reply_result_def result_of_def extract_or_throw_result_def retransmittable_def reader_new_def
      read_return_def UbFunction_new_def required_value_def s8_value_def read_sbyte_def read_ubyte_def)

lemma reply_code: "reply_result (retransmittable (UbFunction_new i (RetValue (RtStruct [RtU16, RtBytes]))))
     (\<lambda>v. obind (required_value v) (code_value no_debug no_debug)) (push_request a bs) = Inr (a, bs)"
  using read_u16_be_at [of "[]" a bs]
  by (simp add: reply_result_def result_of_def extract_or_throw_result_def read_return_def UbFunction_new_def retransmittable_def
      push_request_be reader_new_at required_value_def code_value_def exceeds_usize_def read_blob_remain_at)

lemma read_request_address: "push_bit 8 (ucast (push_request a [n] ! 0)) OR ucast (push_request a [n] ! 1) = (a :: u16)"
proof -
  have m: "(0xff :: u16) = mask 8" by (simp add: mask_eq_exp_minus_1)
  show ?thesis
    unfolding push_request_def m
    by (rule bit_word_eqI) (auto simp: bit_ucast_iff bit_and_iff bit_mask_iff bit_drop_bit_eq bit_or_iff bit_push_bit_iff)
qed

lemma read_code_result:
  assumes "op_read_program_code (link_ops cfg) a n d = (r, d')" and "n \<le> 32"
  shows "ld_firmware d' = ld_firmware d" and "ld_fates d' = ld_fates d"
    and "r = Inl no_answer \<and> lossy (ld_fates d) \<or> r = Inr (a, ubh_impl_read_code a (unat n) (ld_firmware d))"
proof -
  have two: "push_request a [n] = [push_request a [n] ! 0, push_request a [n] ! 1, n]" by (simp add: push_request_def)
  have h: "rpc_bootloader_read_code (push_request a [n]) fw = ([push_request a (ubh_impl_read_code a (unat n) fw)], fw)" for fw
    using assms(2) read_request_address [of a n]
    by (simp add: rpc_bootloader_read_code_def Let_def) (simp add: push_request_def leD)
  show "ld_firmware d' = ld_firmware d" "ld_fates d' = ld_fates d"
    "r = Inl no_answer \<and> lossy (ld_fates d) \<or> r = Inr (a, ubh_impl_read_code a (unat n) (ld_firmware d))"
    using lossy_call_result [OF assms(1) [unfolded link_ops_def, simplified params_of_read, simplified]] reply_code
    by (auto simp: h)
qed

text \<open>Restarting and the variables do not touch what is flashed.\<close>

definition keeps_code :: "LossyDevice \<Rightarrow> LossyDevice \<Rightarrow> bool" where
  "keeps_code d d' \<longleftrightarrow> flash_tmp (ld_firmware d') = flash_tmp (ld_firmware d)
     \<and> program_memory (ld_firmware d') = program_memory (ld_firmware d) \<and> ld_fates d' = ld_fates d
     \<and> (flash_stage (ld_firmware d) = 0 \<longrightarrow> flash_stage (ld_firmware d') = 0)"

lemma keeps_code_refl [simp]: "keeps_code d d"
  by (simp add: keeps_code_def)

lemma keeps_code_trans: "keeps_code d d' \<Longrightarrow> keeps_code d' d'' \<Longrightarrow> keeps_code d d''"
  by (simp add: keeps_code_def)

lemma keeps_code_flashed: "keeps_code d d' \<Longrightarrow> flashed cfg code (ld_firmware d) \<Longrightarrow> flashed cfg code (ld_firmware d')"
  by (simp add: keeps_code_def flashed_def)

text \<open>
  The judgement on such an operation: it keeps the code, fails only from a loss, and otherwise
  satisfies \<open>Q\<close>; with the rules for sequences and repeated steps.
\<close>

definition runs :: "LossyDevice \<Rightarrow> nat \<Rightarrow> ('a \<Rightarrow> LossyDevice \<Rightarrow> bool) \<Rightarrow> (RpcError + 'a) \<times> LossyDevice \<Rightarrow> bool" where
  "runs d retry Q = (\<lambda>(r, d'). keeps_code d d' \<and> ends_well (ld_fates d) retry (\<lambda>x. Q x d') r)"

lemma runs_and_then:
  assumes "runs d retry P m" and "\<And>x d1. keeps_code d d1 \<Longrightarrow> P x d1 \<Longrightarrow> runs d1 retry Q (f x d1)"
  shows "runs d retry Q (and_then m f)"
proof (cases m)
  case (Pair r d1)
  show ?thesis
  proof (cases r)
    case (Inl e)
    then show ?thesis using assms(1) Pair by (simp add: runs_def and_then_def)
  next
    case (Inr x)
    then have k: "keeps_code d d1" "P x d1" using assms(1) Pair by (simp_all add: runs_def)
    obtain r2 d2 where f: "f x d1 = (r2, d2)" by (cases "f x d1")
    have "ld_fates d1 = ld_fates d" using k(1) by (simp add: keeps_code_def)
    then show ?thesis using Inr Pair assms(2) [OF k] f keeps_code_trans [OF k(1), of d2] by (simp add: runs_def and_then_def)
  qed
qed

lemma runs_transaction:
  assumes "\<And>d1. keeps_code d d1 \<Longrightarrow> runs d1 1 P (step d1)"
  shows "runs d retry P (transaction retry step d)"
proof -
  obtain r d' where t: "transaction retry step d = (r, d')" by (cases "transaction retry step d")
  have "case r of Inl e \<Rightarrow> keeps_code d d' \<and> (0 < retry \<longrightarrow> lossy (ld_fates d)) | Inr x \<Rightarrow> keeps_code d d' \<and> P x d'"
  proof (rule transaction_rule [OF t])
    fix d1 r d' assume "keeps_code d d1" "step d1 = (r, d')"
    moreover from this have "ld_fates d1 = ld_fates d" by (simp add: keeps_code_def)
    ultimately show "case r of Inl e \<Rightarrow> keeps_code d d' \<and> lossy (ld_fates d) | Inr x \<Rightarrow> keeps_code d d' \<and> P x d'"
      using assms [of d1] keeps_code_trans [of d d1 d'] by (cases r) (simp_all add: runs_def)
  qed simp
  then show ?thesis by (auto simp: t runs_def split: sum.splits)
qed

lemma runs_lossy_call:
  assumes "ends_well (ld_fates d) 1 (\<lambda>x. Q x (snd (handler (ld_firmware d)))) (reply_result f conv (hd (fst (handler (ld_firmware d)))))"
    and "flash_tmp (snd (handler (ld_firmware d))) = flash_tmp (ld_firmware d)"
      "program_memory (snd (handler (ld_firmware d))) = program_memory (ld_firmware d)"
      "flash_stage (snd (handler (ld_firmware d))) = flash_stage (ld_firmware d)"
  shows "runs d 1 (\<lambda>x d'. Q x (ld_firmware d')) (lossy_call f conv handler d)"
proof -
  obtain r d' where c: "lossy_call f conv handler d = (r, d')" by (cases "lossy_call f conv handler d")
  show ?thesis using lossy_call_result [OF c] assms unfolding c by (auto simp: runs_def keeps_code_def)
qed

lemma variable_params:
  "params_of [RvEnum (variable_index IsApplicationRunning), RvS8 v] = [0, v]" "params_of [RvEnum (variable_index IsApplicationRunning)] = [0]"
proof -
  have "append_value be_digits (RvEnum 0) asm_new = Inr \<lparr>asm_buffer = [0]\<rparr>" by code_simp
  then show "params_of [RvEnum (variable_index IsApplicationRunning), RvS8 v] = [0, v]" "params_of [RvEnum (variable_index IsApplicationRunning)] = [0]"
    by (simp_all add: params_of_def write_i8_def)
qed

lemma runs_set_var:
  "runs d retry (\<lambda>_ d'. var = IsApplicationRunning \<longrightarrow> (app_run (ld_firmware d') \<longleftrightarrow> v \<noteq> 0)) (transaction retry (op_set_var (link_ops cfg) var v) d)"
  unfolding link_ops_def DeviceOps.simps
  by (intro runs_transaction runs_lossy_call)
    (auto simp: rpc_bootloader_set_var_def variable_params [simplified] reply_void split: list.splits)

lemma runs_get_app_run:
  "runs d retry (\<lambda>v d'. ld_firmware d' = ld_firmware d \<and> (app_run (ld_firmware d) \<longleftrightarrow> v \<noteq> 0))
     (transaction retry (op_get_var (link_ops cfg) IsApplicationRunning) d)"
proof -
  let ?I = "\<lambda>d'. ld_firmware d' = ld_firmware d \<and> ld_fates d' = ld_fates d"
  obtain r d' where t: "transaction retry (op_get_var (link_ops cfg) IsApplicationRunning) d = (r, d')"
    by (cases "transaction retry (op_get_var (link_ops cfg) IsApplicationRunning) d")
  have "case r of Inl e \<Rightarrow> ?I d' \<and> (0 < retry \<longrightarrow> lossy (ld_fates d)) | Inr v \<Rightarrow> ?I d' \<and> (app_run (ld_firmware d) \<longleftrightarrow> v \<noteq> 0)"
  proof (rule transaction_rule [OF t])
    fix d1 r d' assume I: "?I d1" and call: "op_get_var (link_ops cfg) IsApplicationRunning d1 = (r, d')"
    show "case r of Inl e \<Rightarrow> ?I d' \<and> lossy (ld_fates d) | Inr v \<Rightarrow> ?I d' \<and> (app_run (ld_firmware d) \<longleftrightarrow> v \<noteq> 0)"
      using lossy_call_result [OF call [unfolded link_ops_def, simplified]] I
      by (auto simp: rpc_bootloader_get_var_def variable_params [simplified] reply_var)
  qed simp
  then show ?thesis by (auto simp: t runs_def keeps_code_def split: sum.splits)
qed

lemma runs_reset:
  "runs d retry (\<lambda>_ d'. \<not> ld_started d \<longrightarrow> flash_stage (ld_firmware d') = 0) (reset_and_wait_start (link_ops cfg) d)"
proof -
  have "ld_fates d i \<noteq> Delivered \<Longrightarrow> lossy (ld_fates d)" "ld_fates d i = RequestLost \<Longrightarrow> lossy (ld_fates d)" for i
    by (auto simp: lossy_def intro: exI [of _ i])
  then show ?thesis
    by (auto simp: runs_def reset_and_wait_start_def and_then_def link_ops_def lossy_reset_def lossy_wait_start_def
      keeps_code_def firmware_restarted_def)
qed

lemma runs_restart_grab:
  assumes "\<not> ld_started d"
  shows "runs d retry (\<lambda>_ d'. flash_stage (ld_firmware d') = 0) (restart_grab_device (link_ops cfg) retry d)"
  unfolding restart_grab_device_def
proof (intro runs_and_then)
  show "runs d retry (\<lambda>_ d'. \<not> ld_started d \<longrightarrow> flash_stage (ld_firmware d') = 0) (reset_and_wait_start (link_ops cfg) d)" by (rule runs_reset)
  fix d1 :: LossyDevice assume d1: "\<not> ld_started d \<longrightarrow> flash_stage (ld_firmware d1) = 0"
  show "runs d1 retry (\<lambda>_ d'. True) (transaction retry (op_set_var (link_ops cfg) IsSignalingSos 0) d1)"
    using runs_set_var [of d1 retry IsSignalingSos 0 cfg] by (auto simp: runs_def ends_well_def split: sum.splits)
  fix d2 assume d2: "keeps_code d1 d2"
  show "runs d2 retry (\<lambda>_ d'. \<not> app_run (ld_firmware d')) (transaction retry (op_set_var (link_ops cfg) IsApplicationRunning 0) d2)"
    using runs_set_var [of d2 retry IsApplicationRunning 0 cfg] by simp
  fix d3 assume d3: "keeps_code d2 d3" "\<not> app_run (ld_firmware d3)"
  show "runs d3 retry (\<lambda>v d'. ld_firmware d' = ld_firmware d3 \<and> (app_run (ld_firmware d3) \<longleftrightarrow> v \<noteq> 0))
     (transaction retry (op_get_var (link_ops cfg) IsApplicationRunning) d3)" by (rule runs_get_app_run)
  fix v :: i8 and d4 :: LossyDevice assume d4: "ld_firmware d4 = ld_firmware d3 \<and> (app_run (ld_firmware d3) \<longleftrightarrow> v \<noteq> 0)"
  show "runs d4 retry (\<lambda>_ d'. flash_stage (ld_firmware d') = 0)
      (if v \<noteq> 0 then (Inl (RpcOther (''After doing grab reboot application is still running. appRun:'' @ show_int (sint v))), d4) else (Inr (), d4))"
    using d1 d2 d3 d4 assms by (simp add: runs_def keeps_code_def)
qed

lemma runs_restart:
  "runs d retry (\<lambda>_ d'. app_run (ld_firmware d')) (restart_device (link_ops cfg) retry False d)"
  unfolding restart_device_def
proof (intro runs_and_then)
  show "runs d retry (\<lambda>_ d'. \<not> ld_started d \<longrightarrow> flash_stage (ld_firmware d') = 0) (reset_and_wait_start (link_ops cfg) d)" by (rule runs_reset)
  fix d1 show "runs d1 retry (\<lambda>_ d'. True) (transaction retry (op_set_var (link_ops cfg) IsSignalingSos 0) d1)"
    using runs_set_var [of d1 retry IsSignalingSos 0 cfg] by (auto simp: runs_def ends_well_def split: sum.splits)
  fix d2 show "runs d2 retry (\<lambda>_ d'. app_run (ld_firmware d'))
      (if \<not> False then and_then (transaction retry (op_set_var (link_ops cfg) IsApplicationRunning 1) d2) (\<lambda>_ s. (Inr (), s)) else (Inr (), d2))"
    using runs_and_then [OF runs_set_var [of d2 retry IsApplicationRunning 1 cfg], of "\<lambda>_ d'. app_run (ld_firmware d')" "\<lambda>_ s. (Inr (), s)"]
    by (simp add: runs_def)
qed

lemma flashed_piece:
  assumes cfg: "config_ok cfg" "code_fits cfg code" and flashed: "flashed cfg code fw"
    and piece: "k + length piece \<le> length code" "piece = take (length piece) (drop k code)"
  shows "ubh_impl_read_code (word_of_nat (unat (APP_START_ADDRESS cfg) + k)) (length piece) fw = piece"
proof (rule nth_equalityI)
  fix i assume "i < length (ubh_impl_read_code (word_of_nat (unat (APP_START_ADDRESS cfg) + k)) (length piece) fw)"
  then have i: "i < length piece" by (simp add: ubh_impl_read_code_def)
  have "unat (SPM_PAGESIZE cfg) < 2 ^ 8" using unsigned_less [of "SPM_PAGESIZE cfg", where ?'a = nat] by simp
  then have "unat (APP_START_ADDRESS cfg) + k + i < 65536" using cfg(2) i piece(1) by (simp add: code_fits_def)
  then have "unat (word_of_nat (unat (APP_START_ADDRESS cfg) + k + i) :: u16) = unat (APP_START_ADDRESS cfg) + k + i"
    by (simp only: unat_of_nat) simp
  moreover have "piece ! i = code ! (k + i)" using piece i by (metis add_leE le_add1 nth_drop nth_take)
  ultimately show "ubh_impl_read_code (word_of_nat (unat (APP_START_ADDRESS cfg) + k)) (length piece) fw ! i = piece ! i"
    using i piece(1) flashed by (simp add: ubh_impl_read_code_def flashed_def add.assoc)
qed (simp add: ubh_impl_read_code_def)

text \<open>The step of the verification compares the piece with what the memory holds there.\<close>

lemma verify_step_result:
  assumes cfg: "code_fits cfg (seg_data code)" and start: "seg_start code = unat (APP_START_ADDRESS cfg)"
    and k: "k < length (seg_data code)" and n: "n = min BLOCK_SIZE (length (seg_data code) - k)"
    and step: "verify_step (link_ops cfg) code (seg_start code + k) d = (r, d')"
  shows "ld_firmware d' = ld_firmware d" and "ld_fates d' = ld_fates d"
    and "(\<exists>e. r = Inl e) \<and> lossy (ld_fates d)
      \<or> (r = Inr ()) = (ubh_impl_read_code (word_of_nat (seg_start code + k)) n (ld_firmware d) = take n (drop k (seg_data code)))"
proof -
  define piece where "piece = take n (drop k (seg_data code))"
  have m: "min (length (seg_data code)) (k + BLOCK_SIZE) - k = n" using k n by simp
  have get: "get_code_piece (seg_start code + k - seg_start code) BLOCK_SIZE code = Ret piece"
    using k by (simp add: get_code_piece_def Let_def piece_def m)
  have len: "length piece = n" "n \<le> 32" using n by (simp_all add: piece_def BLOCK_SIZE_def)
  obtain q d1 where call: "op_read_program_code (link_ops cfg) (word_of_nat (seg_start code + k)) (word_of_nat n) d = (q, d1)"
    by (cases "op_read_program_code (link_ops cfg) (word_of_nat (seg_start code + k)) (word_of_nat n) d")
  have b: "unat (word_of_nat n :: u8) = n" using len(2) by (simp add: unat_of_nat)
  then have "(word_of_nat n :: u8) \<le> 32" using len by (simp add: word_le_nat_alt)
  note res = read_code_result [OF call this, unfolded b]
  have "unat (SPM_PAGESIZE cfg) < 2 ^ 8" using unsigned_less [of "SPM_PAGESIZE cfg", where ?'a = nat] by simp
  then have "seg_start code + k < 65536" using cfg k start by (simp add: code_fits_def)
  then have "unat (word_of_nat (seg_start code + k) :: u16) = seg_start code + k" by (simp only: unat_of_nat) simp
  then have "(r, d') = (case q of
      Inr (read_addr, read_code) \<Rightarrow> if piece = read_code then (Inr (), d1) else (Inl (RpcOther ''Uploaded code verification failed.''), d1)
    | Inl err \<Rightarrow> (Inl (RpcTransaction (''Different address returned, than the requested. Req: '' @ show_nat (seg_start code + k))), d1))"
    using step call res(3) get len(1) by (auto simp: verify_step_def)
  then show "ld_firmware d' = ld_firmware d" "ld_fates d' = ld_fates d"
    "(\<exists>e. r = Inl e) \<and> lossy (ld_fates d)
      \<or> (r = Inr ()) = (ubh_impl_read_code (word_of_nat (seg_start code + k)) n (ld_firmware d) = take n (drop k (seg_data code)))"
    using res by (auto simp: piece_def split: if_splits)
qed

lemma verify_step_transaction:
  assumes cfg: "code_fits cfg (seg_data code)" and start: "seg_start code = unat (APP_START_ADDRESS cfg)"
    and k: "k < length (seg_data code)" and n: "n = min BLOCK_SIZE (length (seg_data code) - k)"
    and t: "transaction retry (verify_step (link_ops cfg) code (seg_start code + k)) d = (r, d')"
  defines "same \<equiv> ubh_impl_read_code (word_of_nat (seg_start code + k)) n (ld_firmware d) = take n (drop k (seg_data code))"
  shows "ld_firmware d' = ld_firmware d" and "ld_fates d' = ld_fates d"
    and "case r of Inl e \<Rightarrow> 0 < retry \<longrightarrow> lossy (ld_fates d) \<or> \<not> same | Inr _ \<Rightarrow> same"
proof -
  let ?I = "\<lambda>d'. ld_firmware d' = ld_firmware d \<and> ld_fates d' = ld_fates d"
  have "case r of Inl e \<Rightarrow> ?I d' \<and> (0 < retry \<longrightarrow> lossy (ld_fates d) \<or> \<not> same) | Inr _ \<Rightarrow> ?I d' \<and> same"
  proof (rule transaction_rule [OF t])
    fix d1 r d' assume "?I d1" "verify_step (link_ops cfg) code (seg_start code + k) d1 = (r, d')"
    then show "case r of Inl e \<Rightarrow> ?I d' \<and> (lossy (ld_fates d) \<or> \<not> same) | Inr _ \<Rightarrow> ?I d' \<and> same"
      using verify_step_result [OF cfg start k n, of d1 r d'] by (cases r) (auto simp: same_def)
  qed simp
  then show "ld_firmware d' = ld_firmware d" "ld_fates d' = ld_fates d"
    "case r of Inl e \<Rightarrow> 0 < retry \<longrightarrow> lossy (ld_fates d) \<or> \<not> same | Inr _ \<Rightarrow> same"
    by (auto split: sum.splits)
qed

lemma read_code_bytes:
  assumes "code_fits cfg (seg_data code)" and "seg_start code = unat (APP_START_ADDRESS cfg)"
    and "n = min BLOCK_SIZE (length (seg_data code) - k)"
  shows "ubh_impl_read_code (word_of_nat (seg_start code + k)) n fw = take n (drop k (seg_data code))
    \<longleftrightarrow> (\<forall>i. k \<le> i \<and> i < length (seg_data code) \<and> i < k + BLOCK_SIZE \<longrightarrow> program_memory fw (seg_start code + i) = seg_data code ! i)"
proof -
  have addr: "unat (word_of_nat (seg_start code + k) + word_of_nat i :: u16) = seg_start code + (k + i)" if "k + i < length (seg_data code)" for i
  proof -
    have "unat (SPM_PAGESIZE cfg) < 2 ^ 8" using unsigned_less [of "SPM_PAGESIZE cfg", where ?'a = nat] by simp
    then have "seg_start code + (k + i) < 65536" using that assms(1,2) by (simp add: code_fits_def)
    then have "unat (word_of_nat (seg_start code + (k + i)) :: u16) = seg_start code + (k + i)" by (simp only: unat_of_nat) simp
    then show ?thesis by (simp add: add.assoc)
  qed
  have "ubh_impl_read_code (word_of_nat (seg_start code + k)) n fw = take n (drop k (seg_data code))
    \<longleftrightarrow> (\<forall>i < n. program_memory fw (seg_start code + (k + i)) = seg_data code ! (k + i))"
    using addr assms(3) by (auto simp: ubh_impl_read_code_def list_eq_iff_nth_eq)
  also have "\<dots> \<longleftrightarrow> (\<forall>i. k \<le> i \<and> i < length (seg_data code) \<and> i < k + BLOCK_SIZE \<longrightarrow> program_memory fw (seg_start code + i) = seg_data code ! i)"
    using assms(3) by (auto simp: less_diff_conv2 dest: le_Suc_ex)
  finally show ?thesis .
qed

lemma verify_loop_result:
  assumes cfg: "code_fits cfg (seg_data code)" and start: "seg_start code = unat (APP_START_ADDRESS cfg)"
    and "verify_loop (link_ops cfg) retry code (seg_start code + k) d = (r, d')"
  defines "same \<equiv> \<forall>i. k \<le> i \<and> i < length (seg_data code) \<longrightarrow> program_memory (ld_firmware d) (seg_start code + i) = seg_data code ! i"
  shows "ld_firmware d' = ld_firmware d \<and> ld_fates d' = ld_fates d
    \<and> (case r of Inl e \<Rightarrow> 0 < retry \<longrightarrow> lossy (ld_fates d) \<or> \<not> same | Inr _ \<Rightarrow> same)"
  using assms(3) unfolding same_def
proof (induction "length (seg_data code) - k" arbitrary: k d r d' rule: less_induct)
  case less
  show ?case
  proof (cases "k < length (seg_data code)")
    case False
    then show ?thesis using less.prems by (auto simp: verify_loop.simps)
  next
    case True
    obtain r1 d1 where t: "transaction retry (verify_step (link_ops cfg) code (seg_start code + k)) d = (r1, d1)"
      by (cases "transaction retry (verify_step (link_ops cfg) code (seg_start code + k)) d")
    note one = verify_step_transaction [OF cfg start True refl t, unfolded read_code_bytes [OF cfg start refl]]
    show ?thesis
    proof (cases r1)
      case (Inl e)
      then show ?thesis using less.prems True t one by (auto simp: verify_loop.simps)
    next
      case (Inr u)
      then have "verify_loop (link_ops cfg) retry code (seg_start code + (k + BLOCK_SIZE)) d1 = (r, d')"
        using less.prems True t by (simp add: verify_loop.simps [of _ _ _ "seg_start code + k"] add.assoc)
      note rest = less.hyps [OF _ this]
      have "length (seg_data code) - (k + BLOCK_SIZE) < length (seg_data code) - k" using True by (simp add: BLOCK_SIZE_def)
      moreover have "(\<forall>i. k \<le> i \<and> i < length (seg_data code) \<longrightarrow> P i) \<longleftrightarrow>
          (\<forall>i. k \<le> i \<and> i < length (seg_data code) \<and> i < k + BLOCK_SIZE \<longrightarrow> P i)
          \<and> (\<forall>i. k + BLOCK_SIZE \<le> i \<and> i < length (seg_data code) \<longrightarrow> P i)" for P
        by (auto simp: not_less [symmetric])
      ultimately show ?thesis using rest one Inr by (cases r) simp_all
    qed
  qed
qed

lemma verify_code_result:
  assumes "code_fits cfg (seg_data code)" and "seg_start code = unat (APP_START_ADDRESS cfg)"
    and "verify_code (link_ops cfg) retry code (APP_START_ADDRESS cfg) d = (r, d')"
  shows "ld_firmware d' = ld_firmware d" and "ld_fates d' = ld_fates d"
    and "case r of Inl e \<Rightarrow> 0 < retry \<longrightarrow> lossy (ld_fates d) \<or> \<not> flashed cfg (seg_data code) (ld_firmware d)
      | Inr _ \<Rightarrow> flashed cfg (seg_data code) (ld_firmware d)"
  using verify_loop_result [OF assms(1,2), of retry 0 d r d'] assms(3)
  by (cases r; simp add: verify_code_def flashed_def assms(2))+

text \<open>The verification after an upload accepts a device only if its program memory holds the code, and it rejects
  a device that holds it only if the bus loses a packet.\<close>

lemma verify_code_compares_the_memory:
  assumes "code_fits cfg (seg_data code)" and "seg_start code = unat (APP_START_ADDRESS cfg)"
    and "verify_code (link_ops cfg) retry code (APP_START_ADDRESS cfg) d = (r, d')"
  shows "(r = Inr () \<longrightarrow> flashed cfg (seg_data code) (ld_firmware d))
    \<and> (0 < retry \<and> (\<forall>i. ld_fates d i = Delivered) \<and> flashed cfg (seg_data code) (ld_firmware d) \<longrightarrow> r = Inr ())"
  using verify_code_result(3) [OF assms] by (cases r) (auto simp: lossy_def)

text \<open>The middle of the upload: pushing and, unless it is switched off, verifying.\<close>

lemma push_and_verify_result:
  assumes cfg: "config_ok cfg" "code_fits cfg (seg_data code)"
    and d: "flash_stage (ld_firmware d) = 0" "length (flash_tmp (ld_firmware d)) = unat (SPM_PAGESIZE cfg)"
  shows "\<exists>p r d'. push_code (link_ops cfg) retry code d = Some p
    \<and> and_then p (\<lambda>start s. if no_verify then (Inr (), s) else verify_code (link_ops cfg) retry code start s) = (r, d')
    \<and> ld_fates d' = ld_fates d
    \<and> (r = Inr () \<longrightarrow> seg_start code = unat (APP_START_ADDRESS cfg) \<and> flashed cfg (seg_data code) (ld_firmware d'))
    \<and> (0 < retry \<and> seg_start code = unat (APP_START_ADDRESS cfg) \<and> \<not> lossy (ld_fates d) \<longrightarrow> r = Inr ())"
proof -
  from push_code_result [OF cfg d, of retry] obtain r1 d1 where push: "push_code (link_ops cfg) retry code d = Some (r1, d1)"
    and d1: "ld_fates d1 = ld_fates d"
    and r1: "if seg_start code = unat (APP_START_ADDRESS cfg)
       then ends_well (ld_fates d) retry (\<lambda>start. start = APP_START_ADDRESS cfg \<and> flash_stage (ld_firmware d1) = 0
              \<and> flashed cfg (seg_data code) (ld_firmware d1)) r1
       else \<exists>e. r1 = Inl e" by blast
  show ?thesis
  proof (cases r1)
    case (Inl e)
    then show ?thesis using push d1 r1 by (auto simp: and_then_def split: if_splits)
  next
    case (Inr start)
    then have start: "start = APP_START_ADDRESS cfg" "seg_start code = unat (APP_START_ADDRESS cfg)"
      "flashed cfg (seg_data code) (ld_firmware d1)" using r1 by (auto split: if_splits)
    obtain r2 d2 where ver: "verify_code (link_ops cfg) retry code (APP_START_ADDRESS cfg) d1 = (r2, d2)"
      by (cases "verify_code (link_ops cfg) retry code (APP_START_ADDRESS cfg) d1")
    show ?thesis
      using push d1 Inr start ver verify_code_result [OF cfg(2) start(2) ver]
      by (cases no_verify; cases r2) (auto simp: and_then_def)
  qed
qed

text \<open>C26: whatever requests and replies the bus loses, the upload ends; when it reports success, the program
  memory of the device holds the code from the start of the application on and the application runs.
  On a bus without losses the upload of a code for this device does report success.\<close>

theorem upload_flashes_the_code:
  assumes "config_ok cfg" and "code_fits cfg (seg_data code)"
    and "length (flash_tmp (ld_firmware d)) = unat (SPM_PAGESIZE cfg)" and "\<not> ld_started d"
  shows "\<exists>out d'. upload_device (link_ops cfg) retry no_verify code d = Some (out, d')
    \<and> (out = Inr (Inr ()) \<longrightarrow> seg_start code = unat (APP_START_ADDRESS cfg)
        \<and> flashed cfg (seg_data code) (ld_firmware d') \<and> app_run (ld_firmware d'))
    \<and> (0 < retry \<and> seg_start code = unat (APP_START_ADDRESS cfg) \<and> (\<forall>i. ld_fates d i = Delivered) \<longrightarrow> out = Inr (Inr ()))"
proof -
  let ?F = "ld_fates d"
  obtain r1 d1 where ping: "op_ping (link_ops cfg) d = (r1, d1)" by (cases "op_ping (link_ops cfg) d")
  obtain r2 d2 where grab: "restart_grab_device (link_ops cfg) retry d1 = (r2, d2)" by (cases "restart_grab_device (link_ops cfg) retry d1")
  have d1: "ld_firmware d1 = ld_firmware d" "\<not> ld_started d1" "ld_fates d1 = ?F" "r1 = Inl e \<Longrightarrow> lossy ?F" for e
    using lossy_call_result [OF ping [unfolded link_ops_def, simplified]] assms(4) by (auto simp: reply_void)
  note grabbed = runs_restart_grab [OF d1(2), of retry cfg, unfolded grab runs_def split]
  show ?thesis
  proof (cases "r1 = Inr () \<and> r2 = Inr ()")
    case False
    then show ?thesis using ping grab d1 grabbed by (cases r1; cases r2) (auto simp: upload_device_def lossy_def)
  next
    case True
    then have d2: "flash_stage (ld_firmware d2) = 0" "length (flash_tmp (ld_firmware d2)) = unat (SPM_PAGESIZE cfg)" "ld_fates d2 = ?F"
      using grabbed d1 assms(3) by (simp_all add: keeps_code_def)
    from push_and_verify_result [OF assms(1,2) d2(1,2), of retry no_verify] obtain p r3 d3
      where push: "push_code (link_ops cfg) retry code d2 = Some p"
        "and_then p (\<lambda>start s. if no_verify then (Inr (), s) else verify_code (link_ops cfg) retry code start s) = (r3, d3)"
        and r3: "ld_fates d3 = ?F" "r3 = Inr () \<Longrightarrow> seg_start code = unat (APP_START_ADDRESS cfg) \<and> flashed cfg (seg_data code) (ld_firmware d3)"
          "0 < retry \<and> seg_start code = unat (APP_START_ADDRESS cfg) \<and> \<not> lossy ?F \<longrightarrow> r3 = Inr ()"
      using d2(3) by auto
    obtain r4 d4 where re: "restart_device (link_ops cfg) retry False d3 = (r4, d4)" by (cases "restart_device (link_ops cfg) retry False d3")
    show ?thesis
    proof (cases r3)
      case (Inl e)
      then show ?thesis using True ping grab push r3 by (auto simp: upload_device_def lossy_def split: prod.splits)
    next
      case (Inr u)
      then show ?thesis
        using True ping grab push r3 re runs_restart [of d3 retry cfg, unfolded re runs_def split] keeps_code_flashed [of d3 d4 cfg "seg_data code"]
        by (cases r4) (auto simp: upload_device_def lossy_def)
    qed
  qed
qed

text \<open>C27: when the device commits the code and only its reply is lost, the retry gets \<^verbatim>\<open>EBADFD\<close> and the upload fails
  although the program memory holds the code.\<close>

theorem lost_commit_reply_fails:
  assumes "config_ok cfg" and "code_fits cfg code" and "all_pushed cfg code fates d" and "2 \<le> retry"
    and "fates (ld_calls d) = ReplyLost" and "fates (ld_calls d + 1) = Delivered"
  shows "\<exists>d'. transaction retry (op_flash_commit (link_ops cfg)) d = (Inl (RpcPosix fw_EBADFD), d')
    \<and> flashed cfg code (ld_firmware d')"
proof -
  obtain fw' where fw': "commit_flash cfg (ld_firmware d) = ([[0]], fw')" "flash_stage fw' = 0" "flashed cfg code fw'"
    using assms(3) commit_writes_the_code [OF assms(1,2), of "ld_firmware d"] by (auto simp: flashed_def all_pushed_def)
  obtain n where "retry = Suc (Suc n)" using assms(4) by (metis One_nat_def Suc_1 Suc_le_D Suc_le_mono)
  then show ?thesis
    using assms(3,5,6) fw' reply_errno [of fw_EBADFD "UbFunction_new 4 RetVoid" unit_result]
    by (simp add: transaction_def link_ops_def lossy_call_def no_answer_def all_pushed_def commit_flash_def
        fw_EBADFD_def reply_result_def)
qed

subsection \<open>An instance\<close>

text \<open>The ATmega328 with 128 byte pages and the application at 0x2000.\<close>

definition spm_page :: "nat \<Rightarrow> u16 list \<Rightarrow> (nat \<Rightarrow> u8) \<Rightarrow> nat \<Rightarrow> u8" where
  "spm_page page ws mem a =
     (if page \<le> a \<and> a < page + 2 * length ws
      then (if even (a - page) then ucast (ws ! ((a - page) div 2)) else ucast (drop_bit 8 (ws ! ((a - page) div 2))))
      else if page \<le> a \<and> a < page + 128 then 0xff
      else mem a)"

definition atmega328 :: FirmwareConfig where
  "atmega328 = \<lparr>APP_START_ADDRESS = 0x2000, SPM_PAGESIZE = 128, spm_write = spm_page\<rparr>"

definition blank_firmware :: Firmware where
  "blank_firmware = \<lparr>app_run = False, reset_flag = 0, flash_stage = 0, flash_crnt_address = 0,
     flash_tmp = replicate 128 0, program_memory = \<lambda>_. 0xff\<rparr>"

definition blank_device :: "(nat \<Rightarrow> Fate) \<Rightarrow> LossyDevice" where
  "blank_device fates = \<lparr>ld_firmware = blank_firmware, ld_fates = fates, ld_calls = 0, ld_started = False\<rparr>"

definition small_code :: CodeSegment where
  "small_code = \<lparr>seg_start = 0x2000, seg_end = 0x2003, seg_data = [12, 148, 52], seg_building = False\<rparr>"

lemma atmega328_ok: "config_ok atmega328"
  by (auto simp: config_ok_def atmega328_def spm_writes_pages_def spm_page_def intro: exI [of _ 7])

theorem upload_flashes_the_code_witness:
  "\<exists>d'. upload_device (link_ops atmega328) 100 False small_code (blank_device (\<lambda>_. Delivered)) = Some (Inr (Inr ()), d')
    \<and> flashed atmega328 [12, 148, 52] (ld_firmware d') \<and> app_run (ld_firmware d')"
  using upload_flashes_the_code [OF atmega328_ok, of small_code "blank_device (\<lambda>_. Delivered)" 100 False]
  by (simp add: code_fits_def atmega328_def small_code_def blank_device_def blank_firmware_def)

theorem lost_commit_reply_fails_witness:
  "\<exists>d'. transaction 100 (op_flash_commit (link_ops atmega328))
      \<lparr>ld_firmware = blank_firmware\<lparr>flash_stage := 1, flash_crnt_address := 0x2002, flash_tmp := [12, 148] @ replicate 126 0\<rparr>,
       ld_fates = \<lambda>i. if i = 0 then ReplyLost else Delivered, ld_calls = 0, ld_started = False\<rparr>
    = (Inl (RpcPosix fw_EBADFD), d') \<and> flashed atmega328 [12, 148] (ld_firmware d')"
  by (rule lost_commit_reply_fails [OF atmega328_ok, where fates = "\<lambda>i. if i = 0 then ReplyLost else Delivered"])
    (simp_all add: code_fits_def atmega328_def all_pushed_def holds_code_def blank_firmware_def All_less_Suc)

end
