(* ===== verification/Framing.thy ===== *)
theory Framing
  imports Interfaces
begin

text \<open>
  The escaped framing of packets on the stream between the PC and the bus gateway,
  \<^verbatim>\<open>framing.rs\<close>: \<^verbatim>\<open>frame_bytes\<close> and the state machine \<^verbatim>\<open>FramedPacketCutter\<close>.  The callback
  \<^verbatim>\<open>on_packet\<close> of \<^verbatim>\<open>feed_bytes\<close> is the list of the packets it is called with.
\<close>

subsection \<open>Definitions\<close>

fun frame_data :: "bytes \<Rightarrow> u8 \<Rightarrow> bytes" where
  "frame_data [] escape = []"
| "frame_data (byte # data) escape =
     (if byte = escape then [escape] else []) @ [byte] @ frame_data data escape"

definition frame_bytes :: "bytes \<Rightarrow> u8 \<Rightarrow> bytes" where
  "frame_bytes data escape = frame_data data escape @ [escape, NOT escape]"

record FramedPacketCutter =
  cutter_escape :: u8
  may_cut :: bool
  cutter_packet :: bytes

definition cutter_new :: "u8 \<Rightarrow> FramedPacketCutter" where
  "cutter_new escape = \<lparr>cutter_escape = escape, may_cut = False, cutter_packet = []\<rparr>"

definition cutter_clear :: "FramedPacketCutter \<Rightarrow> FramedPacketCutter" where
  "cutter_clear c = c\<lparr>cutter_packet := []\<rparr>"

fun feed_bytes :: "FramedPacketCutter \<Rightarrow> bytes \<Rightarrow> FramedPacketCutter \<times> bytes list" where
  "feed_bytes c [] = (c, [])"
| "feed_bytes c (byte # data) =
     (if may_cut c then
        if byte = cutter_escape c then
          feed_bytes (c\<lparr>cutter_packet := cutter_packet c @ [cutter_escape c], may_cut := False\<rparr>) data
        else
          (let (c', packets) = feed_bytes (c\<lparr>cutter_packet := [], may_cut := False\<rparr>) data
           in (c', cutter_packet c # packets))
      else if byte = cutter_escape c then feed_bytes (c\<lparr>may_cut := True\<rparr>) data
      else feed_bytes (c\<lparr>cutter_packet := cutter_packet c @ [byte]\<rparr>) data)"

subsection \<open>Lemmas\<close>

lemma not_escape: "NOT (e :: u8) \<noteq> e"
proof
  assume "NOT e = e"
  then have "bit (NOT e) 0 \<longleftrightarrow> bit e 0" by simp
  then show False by (simp add: bit_not_iff)
qed

lemma feed_bytes_append:
  "feed_bytes c (xs @ ys) =
     (let (c', ps) = feed_bytes c xs; (c'', ps') = feed_bytes c' ys in (c'', ps @ ps'))"
  by (induction xs arbitrary: c) (simp_all split: prod.splits)

lemma feed_frame_data:
  "\<not> may_cut c \<Longrightarrow> cutter_escape c = e \<Longrightarrow>
     feed_bytes c (frame_data data e) = (c\<lparr>cutter_packet := cutter_packet c @ data\<rparr>, [])"
proof (induction data arbitrary: c)
  case (Cons b data)
  have "c\<lparr>cutter_packet := p, may_cut := False\<rparr> = c\<lparr>cutter_packet := p\<rparr>" for p
    using Cons.prems by (cases c) simp
  with Cons show ?case by simp
qed simp

text \<open>A frame that arrives after other bytes of a packet ends that packet.\<close>

lemma feed_frame:
  assumes "\<not> may_cut c"
  shows "feed_bytes c (frame_bytes data (cutter_escape c)) =
    (c\<lparr>cutter_packet := []\<rparr>, [cutter_packet c @ data])"
  using assms by (simp add: frame_bytes_def feed_bytes_append feed_frame_data not_escape)

interpretation cutter: message_stream feed_bytes "cutter_new e" "\<lambda>p. frame_bytes p e" "\<lambda>p. True" for e
proof
  show "feed_bytes (cutter_new e) (frame_bytes m e) = (cutter_new e, [m])" for m
    using feed_frame [of "cutter_new e" m] by (simp add: cutter_new_def)
qed (simp_all add: feed_bytes_append)

lemma feed_bytes_escape [simp]: "cutter_escape (fst (feed_bytes c xs)) = cutter_escape c"
  by (induction xs arbitrary: c) (simp_all add: case_prod_beta)

text \<open>From any state the end of a frame leaves the cutter outside of an escape sequence.\<close>

lemma feed_frame_may_cut: "\<not> may_cut (fst (feed_bytes c (frame_bytes data (cutter_escape c))))"
proof (cases "may_cut c")
  case False
  then show ?thesis by (simp add: feed_frame)
next
  case True
  then show ?thesis
  proof (induction data arbitrary: c)
    case Nil
    then show ?case by (simp add: frame_bytes_def not_escape)
  next
    case (Cons b data)
    show ?case
    proof (cases "b = cutter_escape c")
      case True
      then show ?thesis
        using Cons.prems
          Cons.IH [of "c\<lparr>cutter_packet := cutter_packet c @ [cutter_escape c], may_cut := True\<rparr>"]
        by (simp add: frame_bytes_def)
    next
      case False
      then show ?thesis
        using Cons.prems feed_frame [of "c\<lparr>cutter_packet := [], may_cut := False\<rparr>" data]
        by (simp add: frame_bytes_def split: prod.splits)
    qed
  qed
qed

lemma feed_frame_end_may_cut:
  "\<not> may_cut c \<Longrightarrow> \<not> may_cut (fst (feed_bytes c (drop k (frame_bytes data (cutter_escape c)))))"
proof (induction data arbitrary: k)
  case Nil
  then show ?case
    by (cases k; cases "k - 1"; cases "k - 2") (auto simp: frame_bytes_def not_escape)
next
  case (Cons b data)
  show ?case
  proof (cases k)
    case 0
    then show ?thesis using feed_frame_may_cut [of c "b # data"] by simp
  next
    case (Suc k1)
    show ?thesis
    proof (cases "b = cutter_escape c")
      case b: True
      show ?thesis
      proof (cases k1)
        case 0
        then show ?thesis
          using Suc b Cons.prems feed_frame_may_cut [of "c\<lparr>may_cut := True\<rparr>" data]
          by (simp add: frame_bytes_def)
      next
        case (Suc k2)
        then show ?thesis
          using \<open>k = Suc k1\<close> b Cons.IH [OF Cons.prems, of k2] by (simp add: frame_bytes_def)
      qed
    next
      case False
      then show ?thesis
        using Suc Cons.IH [OF Cons.prems, of k1] by (simp add: frame_bytes_def)
    qed
  qed
qed

subsection \<open>Properties\<close>

text \<open>
  C5: Whatever packets are framed with \<^verbatim>\<open>frame_bytes\<close> and however the stream of the frames is cut
  into pieces, the cutter delivers exactly these packets in this order and is then in its initial
  state.
\<close>

theorem cutter_delivers_framed_packets:
  assumes "concat pieces = concat (map (\<lambda>p. frame_bytes p escape) packets)"
  shows "feed_pieces feed_bytes (cutter_new escape) pieces = (cutter_new escape, packets)"
  using assms by (intro cutter.pieces_deliver_messages) (simp add: list_all_iff)

theorem cutter_delivers_framed_packets_witness:
  "feed_pieces feed_bytes (cutter_new 0xff) [[1, 0xff], [0xff, 2, 0xff], [], [0, 0xff, 0]] =
     (cutter_new 0xff, [[1, 0xff, 2], []])"
  by (rule cutter_delivers_framed_packets) (simp add: frame_bytes_def)

text \<open>
  C6: A cutter that starts to listen in the middle of a frame loses at most the first whole packet
  after it: all later packets are delivered unchanged.
\<close>

theorem cutter_resynchronizes:
  "\<exists>garbage. feed_bytes (cutter_new escape)
       (drop k (frame_bytes cut_packet escape) @ concat (map (\<lambda>p. frame_bytes p escape) (p # packets))) =
     (cutter_new escape, garbage @ packets)"
proof -
  obtain c gs where first: "feed_bytes (cutter_new escape) (drop k (frame_bytes cut_packet escape)) = (c, gs)"
    by force
  have c: "\<not> may_cut c" "cutter_escape c = escape"
    using feed_frame_end_may_cut [of "cutter_new escape" k cut_packet]
      feed_bytes_escape [of "cutter_new escape" "drop k (frame_bytes cut_packet escape)"]
    by (simp_all add: first) (simp_all add: cutter_new_def first [unfolded cutter_new_def])
  have "c\<lparr>cutter_packet := []\<rparr> = cutter_new escape" using c by (cases c) (simp add: cutter_new_def)
  moreover have "feed_bytes (cutter_new escape) (concat (map (\<lambda>p. frame_bytes p escape) packets)) =
      (cutter_new escape, packets)"
    by (rule cutter.feed_frames) (simp add: list_all_iff)
  ultimately show ?thesis
    using first feed_frame [OF c(1), of p] c(2) by (auto simp: feed_bytes_append)
qed

text \<open>
  C7: \<^verbatim>\<open>clear\<close> does not forget a pending escape byte: if the stream broke after an escape, the first
  frame of the new stream is delivered as an empty packet and a packet without its first byte.
\<close>

theorem clear_keeps_pending_escape:
  assumes "may_cut c" and "b \<noteq> cutter_escape c"
  shows "snd (feed_bytes (cutter_clear c) (frame_bytes (b # packet) (cutter_escape c))) = [[], packet]"
  using assms feed_frame [of "c\<lparr>cutter_packet := [], may_cut := False\<rparr>" packet]
  by (simp add: cutter_clear_def frame_bytes_def)

theorem clear_keeps_pending_escape_witness:
  "snd (feed_bytes (cutter_clear (fst (feed_bytes (cutter_new 0xff) [1, 2, 0xff]))) (frame_bytes [5, 6] 0xff)) =
     [[], [6]]"
  using clear_keeps_pending_escape [of "fst (feed_bytes (cutter_new 0xff) [1, 2, 0xff])" 5 "[6]"]
  by (simp add: cutter_new_def)

end
