(* ===== verification/Connector.thy ===== *)
theory Connector
  imports Framing Crc8 Text
begin

text \<open>
  The connection between the RPC server and the gateway, \<^verbatim>\<open>EscapedStreamPacketConnector\<close> of
  \<^verbatim>\<open>connector.rs\<close>, as a system of threads: the receive loops started by \<^verbatim>\<open>start_listen\<close> and the calls
  of \<^verbatim>\<open>send_packet\<close>.  A step of a thread is what it does between two points where another thread can
  come in: a look at the flag \<^verbatim>\<open>run\<close>, or the work under the lock of the stream state.

  The streams are numbered in the order the factory opened them.  What a read or a write gives and
  whether the factory opens a stream are inputs of the steps, so the theorems hold for every
  behaviour of the communication process.  The model keeps what was written to and read from each
  stream and the calls of the packet hook with the stream the packet came from.  Log messages and
  the sleeps are left out.
\<close>

subsection \<open>Definitions\<close>

datatype OnStreamClosed = Reconnect | CallHandler

text \<open>What the factory gives: an error, or a stream that may have a child process.\<close>

type_synonym factory_result = "string + bool"

datatype ReadResult = ReadData bytes | ReadInterrupted | ReadFailed string

text \<open>A failed write may have written some of the bytes.\<close>

datatype WriteResult = WriteDone | WriteFailed nat string

record Connector =
  cn_escape :: u8
  cn_on_closed :: OnStreamClosed
  cn_generation :: u64
  cn_reader :: "nat option"
  cn_writer :: nat
  cn_child :: "nat option"
  cn_hook :: bool
  cn_run :: bool
  cn_opened :: nat
  cn_written :: "nat \<Rightarrow> bytes"
  cn_read :: "nat \<Rightarrow> bytes"
  cn_dispatched :: "(nat \<times> bytes) list"
  cn_killed :: "nat list"
  cn_handler_calls :: nat

definition child_of :: "bool \<Rightarrow> nat \<Rightarrow> nat option" where
  "child_of has_child s = (if has_child then Some s else None)"

definition connector_new :: "factory_result \<Rightarrow> u8 \<Rightarrow> OnStreamClosed \<Rightarrow> string + Connector" where
  "connector_new factory escape on_closed =
     map_sum id (\<lambda>has_child.
       \<lparr>cn_escape = escape, cn_on_closed = on_closed, cn_generation = 0, cn_reader = Some 0, cn_writer = 0,
        cn_child = child_of has_child 0, cn_hook = False, cn_run = False, cn_opened = 1, cn_written = (\<lambda>_. []),
        cn_read = (\<lambda>_. []), cn_dispatched = [], cn_killed = [], cn_handler_calls = 0\<rparr>) factory"

definition kill_child :: "Connector \<Rightarrow> Connector" where
  "kill_child c =
     (case cn_child c of None \<Rightarrow> c | Some child \<Rightarrow> c\<lparr>cn_child := None, cn_killed := cn_killed c @ [child]\<rparr>)"

definition dispatch_packet :: "nat \<Rightarrow> bytes \<Rightarrow> Connector \<Rightarrow> Connector" where
  "dispatch_packet s data c = (if cn_hook c then c\<lparr>cn_dispatched := cn_dispatched c @ [(s, data)]\<rparr> else c)"

definition manage_closed_connection :: "factory_result \<Rightarrow> u64 \<Rightarrow> Connector \<Rightarrow> bool \<times> Connector" where
  "manage_closed_connection factory generation c =
     (if cn_generation c \<noteq> generation then (True, c)
      else case cn_on_closed c of
        CallHandler \<Rightarrow> (False, c\<lparr>cn_handler_calls := cn_handler_calls c + 1\<rparr>)
      | Reconnect \<Rightarrow>
          (let c = kill_child c
           in case factory of
                Inr has_child \<Rightarrow>
                  (True, c\<lparr>cn_generation := cn_generation c + 1, cn_reader := Some (cn_opened c), cn_writer := cn_opened c,
                           cn_child := child_of has_child (cn_opened c), cn_opened := cn_opened c + 1\<rparr>)
              | Inl err \<Rightarrow> (False, c)))"

text \<open>
  The receive loop: before the test of \<^verbatim>\<open>run\<close>, before it takes the reader, inside the inner loop with
  the generation and the stream, after the inner loop, and before it reports the broken stream.
\<close>

datatype Receiver =
    RxHead FramedPacketCutter
  | RxTake FramedPacketCutter
  | RxRead u64 nat FramedPacketCutter
  | RxBroken u64 FramedPacketCutter
  | RxManage u64 FramedPacketCutter
  | RxStopped

fun receive_step :: "ReadResult \<Rightarrow> factory_result \<Rightarrow> Receiver \<Rightarrow> Connector \<Rightarrow> Receiver \<times> Connector" where
  "receive_step result factory (RxHead cutter) c = (if cn_run c then RxTake cutter else RxStopped, c)"
| "receive_step result factory (RxTake cutter) c =
     (case cn_reader c of
        None \<Rightarrow> (RxHead cutter, c)
      | Some reader \<Rightarrow> (RxRead (cn_generation c) reader (cutter_clear cutter), c\<lparr>cn_reader := None\<rparr>))"
| "receive_step result factory (RxRead generation s cutter) c =
     (case result of
        ReadData data \<Rightarrow>
          if data = [] then (RxBroken generation cutter, c)
          else (let (cutter', packets) = feed_bytes cutter data
                in (RxRead generation s cutter',
                    fold (dispatch_packet s) packets (c\<lparr>cn_read := (cn_read c)(s := cn_read c s @ data)\<rparr>)))
      | ReadInterrupted \<Rightarrow> (RxRead generation s cutter, c)
      | ReadFailed err \<Rightarrow> (RxBroken generation cutter, c))"
| "receive_step result factory (RxBroken generation cutter) c =
     (if cn_run c then RxManage generation cutter else RxStopped, c)"
| "receive_step result factory (RxManage generation cutter) c =
     (let (continue, c) = manage_closed_connection factory generation c
      in (if continue then RxHead cutter else RxStopped, c))"
| "receive_step result factory RxStopped c = (RxStopped, c)"

definition NOT_RUNNING :: string where
  "NOT_RUNNING = ''This UartbusPacketConnector is not running, can't send packet to the network. Call start_listen() to run this instance.''"

text \<open>
  A call of \<^verbatim>\<open>send_packet\<close>: before the test of \<^verbatim>\<open>run\<close>, before the write, before it reports the broken
  stream, and what it returned.
\<close>

datatype Sender = TxCheck | TxWrite | TxManage u64 string | TxReturned "string + unit"

fun send_step :: "WriteResult \<Rightarrow> factory_result \<Rightarrow> bytes \<Rightarrow> Sender \<Rightarrow> Connector \<Rightarrow> Sender \<times> Connector" where
  "send_step result factory framed TxCheck c =
     (if cn_run c then (TxWrite, c) else (TxReturned (Inl NOT_RUNNING), c))"
| "send_step result factory framed TxWrite c =
     (let write = (\<lambda>data. c\<lparr>cn_written := (cn_written c)(cn_writer c := cn_written c (cn_writer c) @ data)\<rparr>)
      in case result of
           WriteDone \<Rightarrow> (TxReturned (Inr ()), write framed)
         | WriteFailed n err \<Rightarrow> (TxManage (cn_generation c) err, write (take n framed)))"
| "send_step result factory framed (TxManage generation err) c =
     (let (continue, c) = manage_closed_connection factory generation c
      in (if continue then TxCheck else TxReturned (Inl err), c))"
| "send_step result factory framed (TxReturned r) c = (TxReturned r, c)"

text \<open>The connector with its receive loops and its calls of \<^verbatim>\<open>send_packet\<close>, each with its packet.\<close>

record ConnectorSystem =
  sys_connector :: Connector
  sys_receivers :: "Receiver list"
  sys_senders :: "(bytes \<times> Sender) list"

definition set_packet_hook :: "ConnectorSystem \<Rightarrow> ConnectorSystem" where
  "set_packet_hook sys = sys\<lparr>sys_connector := (sys_connector sys)\<lparr>cn_hook := True\<rparr>\<rparr>"

definition start_listen :: "ConnectorSystem \<Rightarrow> (string + unit) \<times> ConnectorSystem" where
  "start_listen sys =
     (let c = sys_connector sys
      in if cn_run c then (Inl ''Listening already started'', sys)
         else (Inr (), sys\<lparr>sys_connector := c\<lparr>cn_run := True\<rparr>,
                          sys_receivers := sys_receivers sys @ [RxHead (cutter_new (cn_escape c))]\<rparr>))"

definition connector_close :: "ConnectorSystem \<Rightarrow> ConnectorSystem" where
  "connector_close sys = sys\<lparr>sys_connector := kill_child ((sys_connector sys)\<lparr>cn_run := False\<rparr>)\<rparr>"

definition send_packet :: "bytes \<Rightarrow> ConnectorSystem \<Rightarrow> ConnectorSystem" where
  "send_packet data sys = sys\<lparr>sys_senders := sys_senders sys @ [(data, TxCheck)]\<rparr>"

definition send_with_crc8 :: "bytes \<Rightarrow> ConnectorSystem \<Rightarrow> ConnectorSystem" where
  "send_with_crc8 data sys = send_packet (data @ [crc8 data]) sys"

datatype ConnectorEvent =
    SetHook
  | Listen
  | Close
  | Send bytes
  | SendWithCrc8 bytes
  | ReceiverStep nat ReadResult factory_result
  | SenderStep nat WriteResult factory_result

definition receiver_step :: "nat \<Rightarrow> ReadResult \<Rightarrow> factory_result \<Rightarrow> ConnectorSystem \<Rightarrow> ConnectorSystem" where
  "receiver_step i result factory sys =
     (if i < length (sys_receivers sys) then
        let (rx, c) = receive_step result factory (sys_receivers sys ! i) (sys_connector sys)
        in sys\<lparr>sys_connector := c, sys_receivers := (sys_receivers sys)[i := rx]\<rparr>
      else sys)"

definition sender_step :: "nat \<Rightarrow> WriteResult \<Rightarrow> factory_result \<Rightarrow> ConnectorSystem \<Rightarrow> ConnectorSystem" where
  "sender_step i result factory sys =
     (if i < length (sys_senders sys) then
        let (data, tx) = sys_senders sys ! i;
            (tx, c) = send_step result factory (frame_bytes data (cn_escape (sys_connector sys))) tx (sys_connector sys)
        in sys\<lparr>sys_connector := c, sys_senders := (sys_senders sys)[i := (data, tx)]\<rparr>
      else sys)"

fun connector_step :: "ConnectorEvent \<Rightarrow> ConnectorSystem \<Rightarrow> ConnectorSystem" where
  "connector_step SetHook sys = set_packet_hook sys"
| "connector_step Listen sys = snd (start_listen sys)"
| "connector_step Close sys = connector_close sys"
| "connector_step (Send data) sys = send_packet data sys"
| "connector_step (SendWithCrc8 data) sys = send_with_crc8 data sys"
| "connector_step (ReceiverStep i result factory) sys = receiver_step i result factory sys"
| "connector_step (SenderStep i result factory) sys = sender_step i result factory sys"

definition connector_run :: "ConnectorEvent list \<Rightarrow> ConnectorSystem \<Rightarrow> ConnectorSystem" where
  "connector_run events sys = fold connector_step events sys"

definition fresh_system :: "Connector \<Rightarrow> ConnectorSystem" where
  "fresh_system c = \<lparr>sys_connector = c, sys_receivers = [], sys_senders = []\<rparr>"

subsection \<open>The communication process\<close>

definition serial_socat_args :: "string \<Rightarrow> u32 \<Rightarrow> string list" where
  "serial_socat_args device baud = [device @ '',b'' @ show_nat (unat baud) @ '',raw,echo=0'', ''-'']"

text \<open>The program with its arguments that provides the stream.\<close>

definition open_serial :: "string \<Rightarrow> u32 \<Rightarrow> string \<times> string list" where
  "open_serial device baud = (''socat'', serial_socat_args device baud)"

definition open_direct_serial :: "string \<Rightarrow> string \<Rightarrow> u32 \<Rightarrow> string \<times> string list" where
  "open_direct_serial program device baud = (program, [device, show_nat (unat baud)])"

subsection \<open>The streams\<close>

text \<open>The receive loop is inside the inner loop with this stream.\<close>

fun reading :: "nat \<Rightarrow> Receiver \<Rightarrow> bool" where
  "reading s (RxRead generation s' cutter) = (s' = s)"
| "reading s _ = False"

definition stream_inv :: "Connector \<Rightarrow> Receiver list \<Rightarrow> bool" where
  "stream_inv c rxs \<longleftrightarrow>
     0 < cn_opened c \<and> cn_generation c = of_nat (cn_opened c - 1) \<and> cn_writer c = cn_opened c - 1
     \<and> (\<forall>s. cn_reader c = Some s \<longrightarrow> s = cn_opened c - 1)
     \<and> (\<forall>i<length rxs. \<forall>s. reading s (rxs ! i) \<longrightarrow> s < cn_opened c \<and> cn_reader c \<noteq> Some s)
     \<and> (\<forall>i<length rxs. \<forall>j<length rxs. \<forall>s. reading s (rxs ! i) \<longrightarrow> reading s (rxs ! j) \<longrightarrow> i = j)
     \<and> (\<forall>s\<ge>cn_opened c. cn_read c s = [] \<and> cn_written c s = [])"

lemma dispatch_packets_simps [simp]:
  "cn_escape (fold (dispatch_packet s) ps c) = cn_escape c"
  "cn_on_closed (fold (dispatch_packet s) ps c) = cn_on_closed c"
  "cn_generation (fold (dispatch_packet s) ps c) = cn_generation c"
  "cn_reader (fold (dispatch_packet s) ps c) = cn_reader c"
  "cn_writer (fold (dispatch_packet s) ps c) = cn_writer c"
  "cn_child (fold (dispatch_packet s) ps c) = cn_child c"
  "cn_hook (fold (dispatch_packet s) ps c) = cn_hook c"
  "cn_run (fold (dispatch_packet s) ps c) = cn_run c"
  "cn_opened (fold (dispatch_packet s) ps c) = cn_opened c"
  "cn_written (fold (dispatch_packet s) ps c) = cn_written c"
  "cn_read (fold (dispatch_packet s) ps c) = cn_read c"
  "cn_killed (fold (dispatch_packet s) ps c) = cn_killed c"
  by (induction ps arbitrary: c) (simp_all add: dispatch_packet_def)

lemma dispatch_packets_eq:
  "cn_hook c \<Longrightarrow> cn_dispatched (fold (dispatch_packet s) ps c) = cn_dispatched c @ map (Pair s) ps"
  by (induction ps arbitrary: c) (simp_all add: dispatch_packet_def)

lemma kill_child_simps [simp]:
  "cn_escape (kill_child c) = cn_escape c" "cn_on_closed (kill_child c) = cn_on_closed c"
  "cn_generation (kill_child c) = cn_generation c" "cn_reader (kill_child c) = cn_reader c"
  "cn_writer (kill_child c) = cn_writer c" "cn_hook (kill_child c) = cn_hook c" "cn_run (kill_child c) = cn_run c"
  "cn_opened (kill_child c) = cn_opened c" "cn_written (kill_child c) = cn_written c" "cn_read (kill_child c) = cn_read c"
  "cn_dispatched (kill_child c) = cn_dispatched c" "cn_child (kill_child c) = None"
  "cn_killed (kill_child c) = cn_killed c @ (case cn_child c of None \<Rightarrow> [] | Some s \<Rightarrow> [s])"
  by (auto simp: kill_child_def split: option.splits)

text \<open>What a report of a broken stream does: nothing to the stream, or it opens the next one.\<close>

lemma manage_cases:
  assumes "manage_closed_connection factory generation c = (continue, c')"
  obtains (same) "cn_generation c' = cn_generation c" "cn_reader c' = cn_reader c" "cn_writer c' = cn_writer c"
      "cn_opened c' = cn_opened c" "cn_written c' = cn_written c" "cn_read c' = cn_read c" "cn_dispatched c' = cn_dispatched c"
      "cn_escape c' = cn_escape c" "cn_hook c' = cn_hook c" "cn_on_closed c' = cn_on_closed c" "cn_run c' = cn_run c"
      "cn_generation c = generation \<longrightarrow> \<not> continue"
  | (opened) "cn_generation c' = cn_generation c + 1" "cn_reader c' = Some (cn_opened c)" "cn_writer c' = cn_opened c"
      "cn_opened c' = Suc (cn_opened c)" "cn_written c' = cn_written c" "cn_read c' = cn_read c" "cn_dispatched c' = cn_dispatched c"
      "cn_escape c' = cn_escape c" "cn_hook c' = cn_hook c" "cn_on_closed c' = cn_on_closed c" "cn_run c' = cn_run c" "continue"
      "cn_generation c = generation"
  using assms
  by (auto simp: manage_closed_connection_def Let_def split: if_splits OnStreamClosed.splits sum.splits)

lemma stream_inv_update:
  assumes inv: "stream_inv c rxs" and i: "i < length rxs"
    and c: "cn_generation c' = cn_generation c" "cn_writer c' = cn_writer c" "cn_opened c' = cn_opened c"
      "\<forall>s\<ge>cn_opened c. cn_read c' s = [] \<and> cn_written c' s = []"
    and rd: "cn_reader c' = cn_reader c \<and> (\<forall>s. reading s rx \<longrightarrow> reading s (rxs ! i)) \<or>
      cn_reader c' = None \<and> (\<forall>s. reading s rx \<longrightarrow> cn_reader c = Some s)"
  shows "stream_inv c' (rxs[i := rx])"
  using rd inv i unfolding stream_inv_def
  by (elim disjE) (auto simp: c nth_list_update)

lemma stream_inv_not_reading:
  "stream_inv c rxs \<Longrightarrow> i < length rxs \<Longrightarrow> (\<And>s. \<not> reading s rx) \<Longrightarrow> stream_inv c (rxs[i := rx])"
  by (rule stream_inv_update) (auto simp: stream_inv_def)

lemma stream_inv_manage:
  assumes inv: "stream_inv c rxs" and m: "manage_closed_connection factory generation c = (continue, c')"
  shows "stream_inv c' rxs"
  using m
proof (cases rule: manage_cases)
  case same
  then show ?thesis using inv by (simp add: stream_inv_def)
next
  case opened
  obtain n where n: "cn_opened c = Suc n" using inv by (cases "cn_opened c") (auto simp: stream_inv_def)
  have "\<forall>i<length rxs. \<forall>s. reading s (rxs ! i) \<longrightarrow> s < cn_opened c" using inv by (simp add: stream_inv_def)
  then have "\<forall>i<length rxs. \<forall>s. reading s (rxs ! i) \<longrightarrow> s < Suc (cn_opened c) \<and> cn_opened c \<noteq> s" by fastforce
  then show ?thesis using inv opened(1-6) n unfolding stream_inv_def by (simp add: add.commute)
qed

lemma stream_inv_receiver:
  assumes inv: "stream_inv c rxs" and i: "i < length rxs"
    and step: "receive_step result factory (rxs ! i) c = (rx, c')"
  shows "stream_inv c' (rxs[i := rx])"
proof (cases "rxs ! i")
  case (RxManage generation cutter)
  then obtain continue where "manage_closed_connection factory generation c = (continue, c')"
      "rx = (if continue then RxHead cutter else RxStopped)"
    using step by (auto split: prod.splits)
  then show ?thesis using stream_inv_manage [OF inv] i by (auto intro: stream_inv_not_reading)
next
  case (RxRead generation s cutter)
  then have "s < cn_opened c" using inv i by (auto simp: stream_inv_def)
  then have "cn_generation c' = cn_generation c \<and> cn_writer c' = cn_writer c \<and> cn_opened c' = cn_opened c
      \<and> cn_reader c' = cn_reader c \<and> (\<forall>s'. reading s' rx \<longrightarrow> s' = s)
      \<and> (\<forall>s\<ge>cn_opened c. cn_read c' s = [] \<and> cn_written c' s = [])"
    using step inv unfolding RxRead by (auto simp: stream_inv_def split: ReadResult.splits prod.splits if_splits)
  then show ?thesis by (intro stream_inv_update [OF inv i]) (auto simp: RxRead)
next
  case (RxTake cutter)
  then have "cn_generation c' = cn_generation c \<and> cn_writer c' = cn_writer c \<and> cn_opened c' = cn_opened c
      \<and> cn_reader c' = None \<and> (\<forall>s. reading s rx \<longrightarrow> cn_reader c = Some s)
      \<and> cn_read c' = cn_read c \<and> cn_written c' = cn_written c"
    using step by (auto split: option.splits)
  then show ?thesis using inv by (intro stream_inv_update [OF inv i]) (auto simp: stream_inv_def)
qed (use step inv i in \<open>auto intro!: stream_inv_not_reading split: if_splits\<close>)

lemma stream_inv_sender:
  assumes inv: "stream_inv c rxs" and step: "send_step result factory framed tx c = (tx', c')"
  shows "stream_inv c' rxs"
proof (cases tx)
  case (TxManage generation err)
  then show ?thesis using step stream_inv_manage [OF inv] by (auto split: prod.splits)
next
  case TxWrite
  then show ?thesis using step inv by (auto simp: stream_inv_def Let_def split: WriteResult.splits)
qed (use step inv in \<open>auto split: if_splits\<close>)

abbreviation system_inv :: "(Connector \<Rightarrow> Receiver list \<Rightarrow> bool) \<Rightarrow> ConnectorSystem \<Rightarrow> bool" where
  "system_inv I sys \<equiv> I (sys_connector sys) (sys_receivers sys)"

lemma stream_inv_step: "system_inv stream_inv sys \<Longrightarrow> system_inv stream_inv (connector_step ev sys)"
proof (cases ev)
  case (ReceiverStep i result factory)
  then show "system_inv stream_inv sys \<Longrightarrow> ?thesis"
    by (auto simp: receiver_step_def intro: stream_inv_receiver split: prod.splits)
next
  case (SenderStep i result factory)
  then show "system_inv stream_inv sys \<Longrightarrow> ?thesis"
    by (auto simp: sender_step_def intro: stream_inv_sender split: prod.splits)
qed (auto simp: set_packet_hook_def start_listen_def connector_close_def send_packet_def send_with_crc8_def
      stream_inv_def Let_def nth_append less_Suc_eq)

lemma connector_run_simps [simp]:
  "connector_run [] sys = sys" "connector_run (ev # evs) sys = connector_run evs (connector_step ev sys)"
  "connector_run (evs @ evs') sys = connector_run evs' (connector_run evs sys)"
  by (simp_all add: connector_run_def)

lemma stream_inv_run: "system_inv stream_inv sys \<Longrightarrow> system_inv stream_inv (connector_run evs sys)"
  by (induction evs arbitrary: sys) (simp_all add: stream_inv_step)

lemma stream_inv_new: "connector_new factory escape on_closed = Inr c \<Longrightarrow> system_inv stream_inv (fresh_system c)"
  by (cases factory) (auto simp: connector_new_def fresh_system_def stream_inv_def)

subsection \<open>The communication processes\<close>

text \<open>The factory result of an event, and that a stream it opens has a child process.\<close>

fun event_factory :: "ConnectorEvent \<Rightarrow> factory_result option" where
  "event_factory (ReceiverStep i result factory) = Some factory"
| "event_factory (SenderStep i result factory) = Some factory"
| "event_factory _ = None"

definition opens_process :: "ConnectorEvent \<Rightarrow> bool" where
  "opens_process ev \<longleftrightarrow> event_factory ev \<noteq> Some (Inr False)"

definition child_inv :: "Connector \<Rightarrow> bool" where
  "child_inv c \<longleftrightarrow> cn_killed c @ (case cn_child c of None \<Rightarrow> [] | Some s \<Rightarrow> [s]) = [0..<cn_opened c]"

lemma child_inv_kill: "child_inv c \<Longrightarrow> child_inv (kill_child c)"
  by (simp add: child_inv_def)

lemma child_inv_manage:
  assumes "child_inv c" and "factory \<noteq> Inr False"
  shows "child_inv (snd (manage_closed_connection factory generation c))"
proof -
  have "cn_child (kill_child c) = None \<and> cn_killed (kill_child c) = [0..<cn_opened c]"
    using assms(1) by (simp add: child_inv_def)
  then show ?thesis using assms
    by (auto simp: manage_closed_connection_def child_inv_def child_of_def Let_def split: OnStreamClosed.splits sum.splits)
qed

lemma child_inv_receiver:
  assumes "child_inv c" and "factory \<noteq> Inr False"
  shows "child_inv (snd (receive_step result factory rx c))"
proof (cases rx)
  case (RxManage generation cutter)
  then show ?thesis using child_inv_manage [OF assms, of generation] by (auto split: prod.splits)
qed (use assms(1) in \<open>auto simp: child_inv_def split: option.splits ReadResult.splits prod.splits\<close>)

lemma child_inv_sender:
  assumes "child_inv c" and "factory \<noteq> Inr False"
  shows "child_inv (snd (send_step result factory framed tx c))"
proof (cases tx)
  case (TxManage generation err)
  then show ?thesis using child_inv_manage [OF assms, of generation] by (auto split: prod.splits)
qed (use assms(1) in \<open>auto simp: child_inv_def Let_def split: WriteResult.splits\<close>)

lemma child_inv_step:
  assumes "child_inv (sys_connector sys)" and "opens_process ev"
  shows "child_inv (sys_connector (connector_step ev sys))"
proof (cases ev)
  case (ReceiverStep i result factory)
  then show ?thesis using assms child_inv_receiver [of "sys_connector sys" factory result "sys_receivers sys ! i"]
    by (auto simp: receiver_step_def opens_process_def split: prod.splits)
next
  case (SenderStep i result factory)
  obtain data tx where "sys_senders sys ! i = (data, tx)" by force
  then show ?thesis using SenderStep assms
      child_inv_sender [of "sys_connector sys" factory result "frame_bytes data (cn_escape (sys_connector sys))" tx]
    by (auto simp: sender_step_def opens_process_def split: prod.splits)
next
  case Close
  then show ?thesis using assms(1) child_inv_kill [of "(sys_connector sys)\<lparr>cn_run := False\<rparr>"]
    by (simp add: connector_close_def) (simp add: child_inv_def)
qed (use assms(1) in \<open>auto simp: set_packet_hook_def start_listen_def send_packet_def send_with_crc8_def child_inv_def Let_def\<close>)

lemma child_inv_run:
  "child_inv (sys_connector sys) \<Longrightarrow> list_all opens_process evs \<Longrightarrow> child_inv (sys_connector (connector_run evs sys))"
  by (induction evs arbitrary: sys) (simp_all add: child_inv_step)

text \<open>
  C32: Whatever the threads do and however the streams break, the communication processes are not
  lost: every process that was started is the current one or was killed, each once and in order.
  Packets are always written to the newest stream, at most one receive loop reads a stream, and a
  reader that nobody has taken is the one of the newest stream.
\<close>

theorem connector_owns_its_processes:
  assumes "connector_new (Inr True) escape on_closed = Inr c" and "list_all opens_process events"
    and "sys = connector_run events (fresh_system c)"
  shows "cn_killed (sys_connector sys) @ (case cn_child (sys_connector sys) of None \<Rightarrow> [] | Some s \<Rightarrow> [s]) =
      [0..<cn_opened (sys_connector sys)]
    \<and> Suc (cn_writer (sys_connector sys)) = cn_opened (sys_connector sys)
    \<and> (\<forall>i<length (sys_receivers sys). \<forall>j<length (sys_receivers sys). \<forall>s.
         reading s (sys_receivers sys ! i) \<and> reading s (sys_receivers sys ! j) \<longrightarrow> i = j)
    \<and> (\<forall>s. cn_reader (sys_connector sys) = Some s \<longrightarrow>
         Suc s = cn_opened (sys_connector sys) \<and> (\<forall>rx \<in> set (sys_receivers sys). \<not> reading s rx))"
proof -
  have "child_inv (sys_connector (fresh_system c))"
    using assms(1) by (auto simp: connector_new_def fresh_system_def child_inv_def child_of_def)
  then have "child_inv (sys_connector sys)" using child_inv_run assms(2,3) by simp
  moreover have inv: "system_inv stream_inv sys" using stream_inv_run [OF stream_inv_new [OF assms(1)]] assms(3) by simp
  moreover have "\<not> reading s rx" if "cn_reader (sys_connector sys) = Some s" "rx \<in> set (sys_receivers sys)" for s rx
    using inv that by (auto simp: stream_inv_def in_set_conv_nth)
  moreover have "Suc (cn_writer (sys_connector sys)) = cn_opened (sys_connector sys)" using inv by (auto simp: stream_inv_def)
  moreover have "Suc s = cn_opened (sys_connector sys)" if "cn_reader (sys_connector sys) = Some s" for s
    using inv that by (auto simp: stream_inv_def)
  moreover have "\<forall>i<length (sys_receivers sys). \<forall>j<length (sys_receivers sys). \<forall>s.
      reading s (sys_receivers sys ! i) \<and> reading s (sys_receivers sys ! j) \<longrightarrow> i = j"
    using inv unfolding stream_inv_def by blast
  ultimately show ?thesis unfolding child_inv_def by blast
qed

subsection \<open>Sending\<close>

definition sent_inv :: "ConnectorSystem \<Rightarrow> bool" where
  "sent_inv sys \<longleftrightarrow>
     (\<forall>data. (data, TxReturned (Inr ())) \<in> set (sys_senders sys) \<longrightarrow>
        (\<exists>s before after. cn_written (sys_connector sys) s =
           before @ frame_bytes data (cn_escape (sys_connector sys)) @ after))"

lemma manage_written:
  "cn_written (snd (manage_closed_connection factory generation c)) = cn_written c"
  "cn_escape (snd (manage_closed_connection factory generation c)) = cn_escape c"
  by (auto simp: manage_closed_connection_def Let_def split: OnStreamClosed.splits sum.splits)

lemma receive_step_written:
  "cn_written (snd (receive_step result factory rx c)) = cn_written c \<and>
   cn_escape (snd (receive_step result factory rx c)) = cn_escape c"
proof (cases rx)
  case (RxManage generation cutter)
  then show ?thesis using manage_written [of factory generation c] by (auto split: prod.splits)
qed (auto split: option.splits ReadResult.splits prod.splits)

lemma send_step_written:
  "\<exists>more. cn_written (snd (send_step result factory framed tx c)) s = cn_written c s @ more"
  "cn_escape (snd (send_step result factory framed tx c)) = cn_escape c"
proof -
  have *: "(\<exists>more. cn_written (snd (send_step result factory framed tx c)) s = cn_written c s @ more) \<and>
      cn_escape (snd (send_step result factory framed tx c)) = cn_escape c"
  proof (cases tx)
    case (TxManage generation err)
    then show ?thesis using manage_written [of factory generation c] by (auto split: prod.splits)
  qed (auto simp: Let_def split: WriteResult.splits)
  then show "\<exists>more. cn_written (snd (send_step result factory framed tx c)) s = cn_written c s @ more"
    "cn_escape (snd (send_step result factory framed tx c)) = cn_escape c" by simp_all
qed

lemma send_step_returned:
  assumes "send_step result factory framed tx c = (TxReturned (Inr ()), c')" and "tx \<noteq> TxReturned (Inr ())"
  shows "cn_written c' (cn_writer c) = cn_written c (cn_writer c) @ framed"
  using assms by (cases tx) (auto simp: Let_def split: WriteResult.splits prod.splits if_splits)

lemma sent_inv_sender:
  assumes inv: "sent_inv sys" and i: "i < length (sys_senders sys)" and tx: "sys_senders sys ! i = (data, tx)"
    and step: "send_step result factory (frame_bytes data (cn_escape (sys_connector sys))) tx (sys_connector sys) = (tx', c')"
  shows "sent_inv (sys\<lparr>sys_connector := c', sys_senders := (sys_senders sys)[i := (data, tx')]\<rparr>)"
proof -
  note written = send_step_written [of result factory "frame_bytes data (cn_escape (sys_connector sys))" tx "sys_connector sys", unfolded step snd_conv]
  then have more: "\<exists>more. cn_written c' s = cn_written (sys_connector sys) s @ more" for s by simp
  have esc: "cn_escape c' = cn_escape (sys_connector sys)" using written(2) .
  have old: "\<exists>s before after. cn_written c' s = before @ frame_bytes d (cn_escape c') @ after"
    if d: "(d, TxReturned (Inr ())) \<in> set (sys_senders sys)" for d
  proof -
    obtain s before after where "cn_written (sys_connector sys) s = before @ frame_bytes d (cn_escape (sys_connector sys)) @ after"
      using inv d unfolding sent_inv_def by blast
    moreover obtain more where "cn_written c' s = cn_written (sys_connector sys) s @ more" using more by blast
    ultimately have "cn_written c' s = before @ frame_bytes d (cn_escape c') @ (after @ more)" by (simp add: esc)
    then show ?thesis by blast
  qed
  have "\<exists>s before after. cn_written c' s = before @ frame_bytes data (cn_escape c') @ after" if "tx' = TxReturned (Inr ())"
  proof (cases "tx = TxReturned (Inr ())")
    case True
    then show ?thesis using old [of data] nth_mem [OF i] tx by simp
  next
    case False
    then have "cn_written c' (cn_writer (sys_connector sys)) =
        cn_written (sys_connector sys) (cn_writer (sys_connector sys)) @ frame_bytes data (cn_escape c') @ []"
      using send_step_returned step that esc by simp
    then show ?thesis by blast
  qed
  then show ?thesis using old by (auto simp: sent_inv_def dest!: set_update_subset_insert [THEN subsetD])
qed

lemma sent_inv_step: "sent_inv sys \<Longrightarrow> sent_inv (connector_step ev sys)"
proof (cases ev)
  case (ReceiverStep i result factory)
  then show "sent_inv sys \<Longrightarrow> ?thesis"
    using receive_step_written [of result factory "sys_receivers sys ! i" "sys_connector sys"]
    by (auto simp: receiver_step_def sent_inv_def split: prod.splits)
next
  case (SenderStep i result factory)
  then show "sent_inv sys \<Longrightarrow> ?thesis"
    by (auto simp: sender_step_def intro: sent_inv_sender split: prod.splits)
qed (auto simp: set_packet_hook_def start_listen_def connector_close_def send_packet_def send_with_crc8_def sent_inv_def Let_def)

lemma sent_inv_run: "sent_inv sys \<Longrightarrow> sent_inv (connector_run evs sys)"
  by (induction evs arbitrary: sys) (simp_all add: sent_inv_step)

subsection \<open>Receiving\<close>

text \<open>The cutter when the reading of a stream starts.\<close>

definition start_cutter :: "u8 \<Rightarrow> bool \<Rightarrow> FramedPacketCutter" where
  "start_cutter escape pending = \<lparr>cutter_escape = escape, may_cut = pending, cutter_packet = []\<rparr>"

definition packets_of :: "nat \<Rightarrow> Connector \<Rightarrow> bytes list" where
  "packets_of s c = map snd (filter (\<lambda>(s', _). s' = s) (cn_dispatched c))"

text \<open>Nobody will read the stream any more, and the last byte that was read is the escape byte.\<close>

definition broke_off :: "Connector \<Rightarrow> Receiver list \<Rightarrow> nat \<Rightarrow> bool" where
  "broke_off c rxs s \<longleftrightarrow> s < cn_opened c \<and> cn_reader c \<noteq> Some s \<and> (\<forall>i<length rxs. \<not> reading s (rxs ! i))
     \<and> cn_read c s \<noteq> [] \<and> last (cn_read c s) = cn_escape c"

fun idle_cutter :: "Receiver \<Rightarrow> FramedPacketCutter option" where
  "idle_cutter (RxHead k) = Some k"
| "idle_cutter (RxTake k) = Some k"
| "idle_cutter (RxBroken g k) = Some k"
| "idle_cutter (RxManage g k) = Some k"
| "idle_cutter _ = None"

definition stream_received :: "Connector \<Rightarrow> Receiver list \<Rightarrow> nat \<Rightarrow> bool \<Rightarrow> bool" where
  "stream_received c rxs s b \<longleftrightarrow>
     (b \<longrightarrow> (\<exists>s'. s' \<noteq> s \<and> broke_off c rxs s'))
     \<and> packets_of s c = snd (feed_bytes (start_cutter (cn_escape c) b) (cn_read c s))
     \<and> (\<forall>i<length rxs. \<forall>g k. rxs ! i = RxRead g s k \<longrightarrow> k = fst (feed_bytes (start_cutter (cn_escape c) b) (cn_read c s)))"

definition receive_inv :: "Connector \<Rightarrow> Receiver list \<Rightarrow> bool" where
  "receive_inv c rxs \<longleftrightarrow> cn_hook c
     \<and> (\<forall>s. cn_reader c = Some s \<longrightarrow> cn_read c s = [])
     \<and> (\<forall>s. \<exists>b. stream_received c rxs s b)
     \<and> (\<forall>i<length rxs. \<forall>k. idle_cutter (rxs ! i) = Some k \<longrightarrow>
          cutter_escape k = cn_escape c \<and> (may_cut k \<longrightarrow> (\<exists>s. broke_off c rxs s)))"

lemma may_cut_last: "may_cut (fst (feed_bytes k bs)) \<Longrightarrow> bs \<noteq> [] \<Longrightarrow> last bs = cutter_escape k"
proof (induction bs rule: rev_induct)
  case (snoc b bs)
  then show ?case by (auto simp: feed_bytes_append split: prod.splits if_splits) (metis feed_bytes_escape fst_conv)+
qed simp

text \<open>
  An event that leaves the reading of a stream alone: the reads, the dispatched packets and the
  receivers inside the inner loop stay, and no stream that was left is taken up again.
\<close>

lemma stream_received_keep:
  assumes "stream_received c rxs s b" and "cn_escape c' = cn_escape c" and "packets_of s c' = packets_of s c"
    and "cn_read c' s = cn_read c s" and "\<And>s. broke_off c rxs s \<Longrightarrow> broke_off c' rxs' s"
    and "\<And>i g k. i < length rxs' \<Longrightarrow> rxs' ! i = RxRead g s k \<Longrightarrow> i < length rxs \<and> rxs ! i = RxRead g s k"
  shows "stream_received c' rxs' s b"
  using assms unfolding stream_received_def by (metis (no_types, lifting))

lemma receive_inv_keep:
  assumes inv: "receive_inv c rxs"
    and c: "cn_escape c' = cn_escape c" "cn_dispatched c' = cn_dispatched c" "cn_read c' = cn_read c" "cn_hook c'"
    and reader: "\<And>s. cn_reader c' = Some s \<Longrightarrow> cn_read c s = []"
    and broke: "\<And>s. broke_off c rxs s \<Longrightarrow> broke_off c' rxs' s"
    and rx: "\<And>i g s k. i < length rxs' \<Longrightarrow> rxs' ! i = RxRead g s k \<Longrightarrow> i < length rxs \<and> rxs ! i = RxRead g s k"
    and idle: "\<And>i k. i < length rxs' \<Longrightarrow> idle_cutter (rxs' ! i) = Some k \<Longrightarrow>
       cutter_escape k = cn_escape c \<and> (may_cut k \<longrightarrow> (\<exists>s. broke_off c' rxs' s))"
  shows "receive_inv c' rxs'"
proof -
  have "\<exists>b. stream_received c' rxs' s b" for s
  proof -
    obtain b where "stream_received c rxs s b" using inv unfolding receive_inv_def by blast
    then have "stream_received c' rxs' s b"
      by (rule stream_received_keep) (use c broke rx in \<open>auto simp: packets_of_def\<close>)
    then show ?thesis ..
  qed
  then show ?thesis using c reader idle by (auto simp: receive_inv_def)
qed

lemma broke_off_update:
  "broke_off c rxs s \<Longrightarrow> \<not> reading s rx \<Longrightarrow> broke_off c (rxs[i := rx]) s"
  by (cases "i < length rxs") (auto simp: broke_off_def nth_list_update)

lemma broke_off_manage:
  assumes "stream_inv c rxs" and "manage_closed_connection factory generation c = (continue, c')" and "broke_off c rxs s"
  shows "broke_off c' rxs s"
  using assms(2) by (cases rule: manage_cases) (use assms in \<open>auto simp: broke_off_def\<close>)

lemma receive_inv_manage:
  assumes "stream_inv c rxs" and "receive_inv c rxs" and m: "manage_closed_connection factory generation c = (continue, c')"
  shows "receive_inv c' rxs"
proof -
  have fresh: "cn_read c (cn_opened c) = []" using assms(1) by (simp add: stream_inv_def)
  have broke: "broke_off c rxs s \<Longrightarrow> broke_off c' rxs s" for s using broke_off_manage [OF assms(1) m] .
  have old: "\<forall>s. cn_reader c = Some s \<longrightarrow> cn_read c s = []"
    "cn_hook c" using assms(2) by (auto simp: receive_inv_def)
  have idle: "cutter_escape k = cn_escape c \<and> (may_cut k \<longrightarrow> (\<exists>s. broke_off c' rxs s))"
    if "i < length rxs" "idle_cutter (rxs ! i) = Some k" for i k
    using assms(2) that broke unfolding receive_inv_def by blast
  show ?thesis
    using m
  proof (cases rule: manage_cases)
    case same
    show ?thesis by (rule receive_inv_keep [OF assms(2) _ _ _ _ _ broke _ idle]) (use same old in simp_all)
  next
    case opened
    show ?thesis by (rule receive_inv_keep [OF assms(2) _ _ _ _ _ broke _ idle]) (use opened old fresh in simp_all)
  qed
qed

lemma receive_inv_idle:
  assumes inv: "receive_inv c rxs" and i: "i < length rxs"
    and rx: "idle_cutter rx = None \<or> idle_cutter rx = idle_cutter (rxs ! i)" "\<And>s. \<not> reading s rx"
  shows "receive_inv c (rxs[i := rx])"
proof (rule receive_inv_keep [OF inv])
  fix j k
  assume j: "j < length (rxs[i := rx])" "idle_cutter (rxs[i := rx] ! j) = Some k"
  then have "idle_cutter (rxs ! j) = Some k" using rx i by (auto simp: nth_list_update split: if_splits)
  then show "cutter_escape k = cn_escape c \<and> (may_cut k \<longrightarrow> (\<exists>s. broke_off c (rxs[i := rx]) s))"
    using inv j broke_off_update [OF _ rx(2)] unfolding receive_inv_def by (metis length_list_update)
next
  fix j g s k
  assume "j < length (rxs[i := rx])" "rxs[i := rx] ! j = RxRead g s k"
  then show "j < length rxs \<and> rxs ! j = RxRead g s k" using rx(2) [of s] i by (auto simp: nth_list_update split: if_splits)
qed (use inv rx broke_off_update in \<open>auto simp: receive_inv_def\<close>)

lemma stream_received_other:
  assumes "stream_received c rxs s' b" and "s' \<noteq> s" and "i < length rxs" and "\<And>t. t \<noteq> s \<Longrightarrow> \<not> reading t rx" "\<And>t. t \<noteq> s \<Longrightarrow> \<not> reading t (rxs ! i)"
    and "cn_escape c' = cn_escape c" "packets_of s' c' = packets_of s' c" "cn_read c' s' = cn_read c s'"
    and "\<And>s. broke_off c rxs s \<Longrightarrow> broke_off c' (rxs[i := rx]) s"
  shows "stream_received c' (rxs[i := rx]) s' b"
proof (rule stream_received_keep [OF assms(1) assms(6-9)])
  fix j g k
  assume "j < length (rxs[i := rx])" "rxs[i := rx] ! j = RxRead g s' k"
  then show "j < length rxs \<and> rxs ! j = RxRead g s' k"
    using assms(2-4) by (auto simp: nth_list_update split: if_splits)
qed

lemma receive_inv_take:
  assumes st: "stream_inv c rxs" and inv: "receive_inv c rxs" and i: "i < length rxs" and k: "rxs ! i = RxTake k"
    and s: "cn_reader c = Some s"
  shows "receive_inv (c\<lparr>cn_reader := None\<rparr>) (rxs[i := RxRead (cn_generation c) s (cutter_clear k)])"
    (is "receive_inv ?c ?rxs")
proof -
  have broke: "broke_off c rxs t \<Longrightarrow> broke_off ?c ?rxs t" for t
    using broke_off_update [of c rxs t "RxRead (cn_generation c) s (cutter_clear k)" i] s by (auto simp: broke_off_def)
  have empty: "cn_read c s = []" using inv s by (simp add: receive_inv_def)
  have pending: "cutter_escape k = cn_escape c" "may_cut k \<longrightarrow> (\<exists>t. broke_off c rxs t)"
    using inv i k by (auto simp: receive_inv_def)
  obtain b where "stream_received c rxs s b" using inv unfolding receive_inv_def by blast
  then have "packets_of s c = []" using empty by (simp add: stream_received_def)
  moreover have "rxs ! j \<noteq> RxRead g s k'" if "j < length rxs" for j g k' using st s that unfolding stream_inv_def by (metis reading.simps(1))
  moreover have "cutter_clear k = start_cutter (cn_escape c) (may_cut k)"
    using pending(1) by (cases k) (simp add: cutter_clear_def start_cutter_def)
  moreover have "may_cut k \<longrightarrow> (\<exists>t. t \<noteq> s \<and> broke_off ?c ?rxs t)" using pending(2) broke s by (fastforce simp: broke_off_def)
  ultimately have this_stream: "stream_received ?c ?rxs s (may_cut k)"
    using empty i by (auto simp: stream_received_def packets_of_def nth_list_update split: if_splits)
  have "\<exists>b. stream_received ?c ?rxs t b" for t
  proof (cases "t = s")
    case False
    obtain b where "stream_received c rxs t b" using inv unfolding receive_inv_def by blast
    then have "stream_received ?c ?rxs t b"
      by (rule stream_received_other [OF _ False i]) (use k broke in \<open>auto simp: packets_of_def\<close>)
    then show ?thesis ..
  qed (use this_stream in blast)
  moreover have "cutter_escape k' = cn_escape c \<and> (may_cut k' \<longrightarrow> (\<exists>s. broke_off ?c ?rxs s))"
    if "j < length rxs" "idle_cutter (?rxs ! j) = Some k'" for j k'
  proof -
    have "idle_cutter (rxs ! j) = Some k'" using that i by (auto simp: nth_list_update split: if_splits)
    then show ?thesis using inv that(1) broke unfolding receive_inv_def by blast
  qed
  ultimately show ?thesis using inv by (auto simp: receive_inv_def)
qed

lemma packets_of_dispatch:
  assumes "cn_hook c"
  shows "packets_of t (fold (dispatch_packet s) ps (c\<lparr>cn_read := f\<rparr>)) = packets_of t c @ (if t = s then ps else [])"
  using assms by (auto simp: packets_of_def dispatch_packets_eq filter_map comp_def)

lemma receive_inv_read:
  assumes st: "stream_inv c rxs" and inv: "receive_inv c rxs" and i: "i < length rxs" and rx: "rxs ! i = RxRead g s k"
    and feed: "feed_bytes k data = (k', packets)"
  shows "receive_inv (fold (dispatch_packet s) packets (c\<lparr>cn_read := (cn_read c)(s := cn_read c s @ data)\<rparr>)) (rxs[i := RxRead g s k'])"
    (is "receive_inv ?c ?rxs")
proof -
  have hook: "cn_hook c" using inv by (simp add: receive_inv_def)
  have broke: "broke_off c rxs t \<Longrightarrow> broke_off ?c ?rxs t" for t
    using i rx by (cases "t = s") (auto simp: broke_off_def nth_list_update)
  obtain b where b: "stream_received c rxs s b" using inv unfolding receive_inv_def by blast
  have k: "k = fst (feed_bytes (start_cutter (cn_escape c) b) (cn_read c s))" using b i rx by (auto simp: stream_received_def)
  have only: "rxs ! j \<noteq> RxRead g' s k'" if "j < length rxs" "j \<noteq> i" for j g' k'
    using st i rx that unfolding stream_inv_def by (metis reading.simps(1))
  have "b \<longrightarrow> (\<exists>t. t \<noteq> s \<and> broke_off ?c ?rxs t)" using b broke unfolding stream_received_def by blast
  then have this_stream: "stream_received ?c ?rxs s b"
    using b feed k only i hook
    by (auto simp: stream_received_def packets_of_dispatch feed_bytes_append nth_list_update split: prod.splits if_splits)
  have "\<exists>b. stream_received ?c ?rxs t b" for t
  proof (cases "t = s")
    case False
    obtain b where "stream_received c rxs t b" using inv unfolding receive_inv_def by blast
    then have "stream_received ?c ?rxs t b"
      by (rule stream_received_other [OF _ False i]) (use rx broke False hook in \<open>auto simp: packets_of_dispatch\<close>)
    then show ?thesis ..
  qed (use this_stream in blast)
  moreover have "cutter_escape k' = cn_escape c \<and> (may_cut k' \<longrightarrow> (\<exists>s. broke_off ?c ?rxs s))"
    if "j < length rxs" "idle_cutter (?rxs ! j) = Some k'" for j k'
  proof -
    have "idle_cutter (rxs ! j) = Some k'" using that i by (auto simp: nth_list_update split: if_splits)
    then show ?thesis using inv that(1) broke unfolding receive_inv_def by blast
  qed
  moreover have "cn_reader c \<noteq> Some s" using st i rx unfolding stream_inv_def by (metis reading.simps(1))
  ultimately show ?thesis using inv hook by (auto simp: receive_inv_def)
qed

lemma receive_inv_left:
  assumes st: "stream_inv c rxs" and inv: "receive_inv c rxs" and i: "i < length rxs" and rx: "rxs ! i = RxRead g s k"
  shows "receive_inv c (rxs[i := RxBroken g k])"
proof (rule receive_inv_keep [OF inv])
  show broke: "broke_off c (rxs[i := RxBroken g k]) t" if "broke_off c rxs t" for t
    using broke_off_update [OF that] by simp
  obtain b where b: "stream_received c rxs s b" using inv unfolding receive_inv_def by blast
  have k: "k = fst (feed_bytes (start_cutter (cn_escape c) b) (cn_read c s))" using b i rx by (auto simp: stream_received_def)
  have left: "s < cn_opened c \<and> cn_reader c \<noteq> Some s \<and> (\<forall>j<length rxs. \<not> reading s (rxs[i := RxBroken g k] ! j))"
    using st i rx unfolding stream_inv_def by (simp add: nth_list_update) (metis reading.simps(1))
  have pending: "\<exists>t. broke_off c (rxs[i := RxBroken g k]) t" if "may_cut k"
  proof (cases "cn_read c s = []")
    case True
    then have "b" using k that by (simp add: start_cutter_def)
    then show ?thesis using b broke unfolding stream_received_def by blast
  next
    case False
    then have "last (cn_read c s) = cn_escape c"
      using may_cut_last [of "start_cutter (cn_escape c) b" "cn_read c s"] k that by (simp add: start_cutter_def)
    then have "broke_off c (rxs[i := RxBroken g k]) s" using left False by (simp add: broke_off_def)
    then show ?thesis ..
  qed
  fix j k'
  assume j: "j < length (rxs[i := RxBroken g k])" "idle_cutter (rxs[i := RxBroken g k] ! j) = Some k'"
  show "cutter_escape k' = cn_escape c \<and> (may_cut k' \<longrightarrow> (\<exists>t. broke_off c (rxs[i := RxBroken g k]) t))"
  proof (cases "j = i")
    case True
    then show ?thesis using j i pending k by (auto simp: start_cutter_def)
  next
    case False
    then show ?thesis using inv j broke unfolding receive_inv_def by (metis length_list_update nth_list_update_neq)
  qed
qed (use inv i in \<open>auto simp: receive_inv_def nth_list_update split: if_splits\<close>)

lemma receive_inv_receiver:
  assumes st: "stream_inv c rxs" and inv: "receive_inv c rxs" and i: "i < length rxs"
    and step: "receive_step result factory (rxs ! i) c = (rx, c')"
  shows "receive_inv c' (rxs[i := rx])"
proof (cases "rxs ! i")
  case (RxManage generation cutter)
  then obtain continue where "manage_closed_connection factory generation c = (continue, c')"
      "rx = (if continue then RxHead cutter else RxStopped)"
    using step by (auto split: prod.splits)
  then show ?thesis using receive_inv_manage [OF st inv] i RxManage by (auto intro!: receive_inv_idle)
next
  case (RxRead generation s cutter)
  show ?thesis
  proof (cases "\<exists>data. result = ReadData data \<and> data \<noteq> []")
    case True
    then show ?thesis using step RxRead by (auto split: prod.splits intro: receive_inv_read [OF st inv i])
  next
    case False
    then have "c' = c \<and> (rx = rxs ! i \<or> rx = RxBroken generation cutter)"
      using step RxRead by (auto split: ReadResult.splits if_splits)
    then show ?thesis using receive_inv_left [OF st inv i RxRead] inv by (metis list_update_id)
  qed
next
  case (RxTake cutter)
  show ?thesis
  proof (cases "cn_reader c")
    case None
    then show ?thesis using step RxTake inv i by (auto intro!: receive_inv_idle)
  next
    case (Some s)
    then show ?thesis using step RxTake receive_inv_take [OF st inv i RxTake Some] by auto
  qed
qed (use step inv i in \<open>auto intro!: receive_inv_idle split: if_splits\<close>)

lemma receive_inv_sender:
  assumes st: "stream_inv c rxs" and inv: "receive_inv c rxs" and step: "send_step result factory framed tx c = (tx', c')"
  shows "receive_inv c' rxs"
proof (cases tx)
  case (TxManage generation err)
  then show ?thesis using step receive_inv_manage [OF st inv] by (auto split: prod.splits)
next
  case TxWrite
  then have *: "cn_escape c' = cn_escape c" "cn_dispatched c' = cn_dispatched c" "cn_read c' = cn_read c" "cn_hook c' = cn_hook c"
      "cn_reader c' = cn_reader c" "cn_opened c' = cn_opened c"
    using step by (auto simp: Let_def split: WriteResult.splits)
  then have "broke_off c' rxs = broke_off c rxs" by (simp add: broke_off_def fun_eq_iff)
  then show ?thesis using inv * by (simp add: receive_inv_def stream_received_def packets_of_def)
qed (use step inv in \<open>auto split: if_splits\<close>)

lemma receive_inv_step:
  assumes st: "system_inv stream_inv sys" and inv: "system_inv receive_inv sys"
  shows "system_inv receive_inv (connector_step ev sys)"
proof (cases ev)
  case (ReceiverStep i result factory)
  then show ?thesis using st inv by (auto simp: receiver_step_def intro: receive_inv_receiver split: prod.splits)
next
  case (SenderStep i result factory)
  then show ?thesis using st inv by (auto simp: sender_step_def intro: receive_inv_sender split: prod.splits)
next
  case Listen
  let ?rxs = "sys_receivers sys @ [RxHead (cutter_new (cn_escape (sys_connector sys)))]"
  have broke: "broke_off ((sys_connector sys)\<lparr>cn_run := True\<rparr>) ?rxs s" if "broke_off (sys_connector sys) (sys_receivers sys) s" for s
    using that by (auto simp: broke_off_def nth_append)
  have "receive_inv ((sys_connector sys)\<lparr>cn_run := True\<rparr>) ?rxs"
  proof (rule receive_inv_keep [OF inv _ _ _ _ _ broke])
    fix i k
    assume i: "i < length ?rxs" "idle_cutter (?rxs ! i) = Some k"
    show "cutter_escape k = cn_escape (sys_connector sys) \<and>
      (may_cut k \<longrightarrow> (\<exists>s. broke_off ((sys_connector sys)\<lparr>cn_run := True\<rparr>) ?rxs s))"
    proof (cases "i < length (sys_receivers sys)")
      case True
      then show ?thesis using inv i broke unfolding receive_inv_def by (metis nth_append)
    next
      case False
      then show ?thesis using i by (auto simp: nth_append cutter_new_def split: if_splits)
    qed
  qed (use inv in \<open>auto simp: receive_inv_def nth_append split: if_splits\<close>)
  then show ?thesis using Listen inv by (auto simp: start_listen_def Let_def)
next
  case Close
  have "broke_off (kill_child ((sys_connector sys)\<lparr>cn_run := False\<rparr>)) = broke_off (sys_connector sys)"
    by (simp add: broke_off_def fun_eq_iff)
  then show ?thesis using Close inv by (simp add: connector_close_def receive_inv_def stream_received_def packets_of_def)
next
  case SetHook
  have "broke_off ((sys_connector sys)\<lparr>cn_hook := True\<rparr>) = broke_off (sys_connector sys)"
    by (simp add: broke_off_def fun_eq_iff)
  then show ?thesis using SetHook inv by (simp add: set_packet_hook_def receive_inv_def stream_received_def packets_of_def)
qed (use inv in \<open>simp_all add: send_packet_def send_with_crc8_def\<close>)

lemma receive_inv_run:
  "system_inv stream_inv sys \<Longrightarrow> system_inv receive_inv sys \<Longrightarrow> system_inv receive_inv (connector_run evs sys)"
  by (induction evs arbitrary: sys) (simp_all add: stream_inv_step receive_inv_step)

lemma receive_inv_new:
  "connector_new factory escape on_closed = Inr c \<Longrightarrow> system_inv receive_inv (set_packet_hook (fresh_system c))"
  by (cases factory) (auto simp: connector_new_def set_packet_hook_def fresh_system_def receive_inv_def stream_received_def packets_of_def)

lemma feed_start_frames:
  "feed_bytes (start_cutter e False) (concat (map (\<lambda>p. frame_bytes p e) ps)) = (start_cutter e False, ps)"
  using cutter.feed_frames [of ps e] by (simp add: start_cutter_def cutter_new_def list_all_iff)

lemma connector_run_escape: "cn_escape (sys_connector (connector_run evs sys)) = cn_escape (sys_connector sys)"
proof (induction evs arbitrary: sys)
  case (Cons ev evs)
  have "cn_escape (sys_connector (connector_step ev sys)) = cn_escape (sys_connector sys)"
  proof (cases ev)
    case (ReceiverStep i result factory)
    then show ?thesis using receive_step_written [of result factory "sys_receivers sys ! i" "sys_connector sys"]
      by (auto simp: receiver_step_def split: prod.splits)
  next
    case (SenderStep i result factory)
    obtain data tx where "sys_senders sys ! i = (data, tx)" by force
    then show ?thesis using SenderStep
        send_step_written(2) [of result factory "frame_bytes data (cn_escape (sys_connector sys))" tx "sys_connector sys"]
      by (auto simp: sender_step_def split: prod.splits)
  qed (auto simp: set_packet_hook_def start_listen_def connector_close_def send_packet_def send_with_crc8_def Let_def)
  then show ?case using Cons.IH by simp
qed simp

lemma feed_pending_frames:
  "\<exists>damaged. snd (feed_bytes (start_cutter e True) (concat (map (\<lambda>p. frame_bytes p e) ps))) = damaged @ drop 2 ps"
proof (cases ps rule: remdups_adj.cases)
  case (3 p q ps')
  obtain k d where k: "feed_bytes (start_cutter e True) (frame_bytes p e) = (k, d)" by force
  have esc: "cutter_escape k = e" "\<not> may_cut k"
    using feed_bytes_escape [of "start_cutter e True" "frame_bytes p e", unfolded k fst_conv]
      feed_frame_may_cut [of "start_cutter e True" p] k
    by (simp_all add: start_cutter_def)
  have "feed_bytes k (frame_bytes q e) = (start_cutter e False, [cutter_packet k @ q])"
    using feed_frame [of k q] esc by (cases k) (simp add: start_cutter_def)
  then show ?thesis
    using k by (auto simp: 3 feed_bytes_append feed_start_frames)
qed simp_all


subsection \<open>Reconnecting\<close>

text \<open>The connector is not closed and the factory opens a stream whenever it is asked.\<close>

definition keeps_going :: "ConnectorEvent \<Rightarrow> bool" where
  "keeps_going ev \<longleftrightarrow> ev \<noteq> Close \<and> (\<forall>err. event_factory ev \<noteq> Some (Inl err))"

text \<open>
  The only receive loop is alive: it waits for the newest reader, or reads or reports the newest
  stream, or the newest reader waits for it.
\<close>

fun alive :: "Connector \<Rightarrow> Receiver \<Rightarrow> bool" where
  "alive c (RxHead k) = (cn_reader c \<noteq> None)"
| "alive c (RxTake k) = (cn_reader c \<noteq> None)"
| "alive c (RxRead g s k) = (cn_reader c \<noteq> None \<or> g = cn_generation c)"
| "alive c (RxBroken g k) = (cn_reader c \<noteq> None \<or> g = cn_generation c)"
| "alive c (RxManage g k) = (cn_reader c \<noteq> None \<or> g = cn_generation c)"
| "alive c RxStopped = False"

definition alive_inv :: "Connector \<Rightarrow> Receiver list \<Rightarrow> bool" where
  "alive_inv c rxs \<longleftrightarrow> cn_on_closed c = Reconnect
     \<and> (if cn_run c then \<exists>rx. rxs = [rx] \<and> alive c rx else rxs = [] \<and> cn_reader c \<noteq> None)"

lemma manage_reconnect:
  assumes "cn_on_closed c = Reconnect" and "manage_closed_connection (Inr child) generation c = (continue, c')"
  shows "continue" and "cn_generation c = generation \<or> c' = c" and "cn_generation c = generation \<longrightarrow> cn_reader c' \<noteq> None"
    and "cn_reader c \<noteq> None \<longrightarrow> cn_reader c' \<noteq> None" and "cn_run c' = cn_run c" and "cn_on_closed c' = Reconnect"
  using assms by (auto simp: manage_closed_connection_def Let_def split: if_splits)

lemma alive_manage:
  assumes "cn_on_closed c = Reconnect" and "manage_closed_connection (Inr child) generation c = (continue, c')" and "alive c rx"
  shows "alive c' rx"
  using manage_reconnect [OF assms(1,2)] assms(3) by (cases rx) auto

lemma alive_receiver:
  assumes "cn_on_closed c = Reconnect" and "cn_run c" and "alive c rx" and "receive_step result (Inr child) rx c = (rx', c')"
  shows "alive c' rx' \<and> cn_run c' \<and> cn_on_closed c' = Reconnect"
proof (cases rx)
  case (RxManage g k)
  then obtain continue where m: "manage_closed_connection (Inr child) g c = (continue, c')" "rx' = (if continue then RxHead k else RxStopped)"
    using assms(4) by (auto split: prod.splits)
  show ?thesis using manage_reconnect [OF assms(1) m(1)] assms(2,3) m(2) RxManage by auto
next
  case (RxRead g s k)
  show ?thesis
  proof (cases result)
    case (ReadData data)
    then show ?thesis using assms RxRead by (cases "data = []") (auto split: prod.splits)
  qed (use assms RxRead in auto)
next
  case (RxTake k)
  then show ?thesis using assms by (auto split: option.splits)
qed (use assms in auto)

lemma alive_sender:
  assumes "cn_on_closed c = Reconnect" and "cn_run c \<longrightarrow> alive c rx" and "send_step result (Inr child) framed tx c = (tx', c')"
  shows "(cn_run c \<longrightarrow> alive c' rx) \<and> cn_run c' = cn_run c \<and> cn_on_closed c' = Reconnect \<and> (cn_reader c \<noteq> None \<longrightarrow> cn_reader c' \<noteq> None)"
proof (cases tx)
  case (TxManage g err)
  then obtain continue where m: "manage_closed_connection (Inr child) g c = (continue, c')" using assms(3) by (auto split: prod.splits)
  show ?thesis using manage_reconnect [OF assms(1) m] alive_manage [OF assms(1) m] assms(2) by auto
next
  case TxWrite
  then have "cn_reader c' = cn_reader c \<and> cn_generation c' = cn_generation c \<and> cn_run c' = cn_run c \<and> cn_on_closed c' = cn_on_closed c"
    using assms(3) by (auto simp: Let_def split: WriteResult.splits)
  moreover from this have "alive c' rx = alive c rx" by (cases rx) simp_all
  ultimately show ?thesis using assms by simp
qed (use assms in \<open>auto split: if_splits\<close>)

lemma alive_inv_step:
  assumes inv: "system_inv alive_inv sys" and ev: "keeps_going ev"
  shows "system_inv alive_inv (connector_step ev sys)"
proof (cases ev)
  case (ReceiverStep i result factory)
  then obtain child where f: "factory = Inr child" using ev by (cases factory) (auto simp: keeps_going_def)
  show ?thesis
  proof (cases "i < length (sys_receivers sys)")
    case True
    then obtain rx where rx: "sys_receivers sys = [rx]" "alive (sys_connector sys) rx" "cn_run (sys_connector sys)" "i = 0"
      and oc: "cn_on_closed (sys_connector sys) = Reconnect"
      using inv by (auto simp: alive_inv_def split: if_splits)
    obtain rx' c' where step: "receive_step result (Inr child) rx (sys_connector sys) = (rx', c')" by force
    then show ?thesis using ReceiverStep f rx alive_receiver [OF oc rx(3,2) step]
      by (auto simp: receiver_step_def alive_inv_def)
  qed (use ReceiverStep inv in \<open>simp add: receiver_step_def\<close>)
next
  case (SenderStep i result factory)
  then obtain child where f: "factory = Inr child" using ev by (cases factory) (auto simp: keeps_going_def)
  show ?thesis
  proof (cases "i < length (sys_senders sys)")
    case True
    obtain data tx where tx: "sys_senders sys ! i = (data, tx)" by force
    let ?framed = "frame_bytes data (cn_escape (sys_connector sys))"
    obtain tx' c' where step: "send_step result (Inr child) ?framed tx (sys_connector sys) = (tx', c')" by force
    have "alive_inv c' (sys_receivers sys)"
      using inv alive_sender [OF _ _ step] unfolding alive_inv_def by (auto split: if_splits)
    then show ?thesis using SenderStep f step tx True by (simp add: sender_step_def)
  qed (use SenderStep inv in \<open>simp add: sender_step_def\<close>)
next
  case Listen
  then show ?thesis using inv by (auto simp: start_listen_def alive_inv_def Let_def split: if_splits)
next
  case SetHook
  have "alive ((sys_connector sys)\<lparr>cn_hook := True\<rparr>) rx = alive (sys_connector sys) rx" for rx by (cases rx) simp_all
  then show ?thesis using SetHook inv by (auto simp: set_packet_hook_def alive_inv_def split: if_splits)
qed (use inv ev in \<open>simp_all add: send_packet_def send_with_crc8_def keeps_going_def\<close>)

lemma alive_inv_run: "system_inv alive_inv sys \<Longrightarrow> list_all keeps_going evs \<Longrightarrow> system_inv alive_inv (connector_run evs sys)"
  by (induction evs arbitrary: sys) (simp_all add: alive_inv_step)

lemma alive_inv_new: "connector_new factory escape Reconnect = Inr c \<Longrightarrow> system_inv alive_inv (fresh_system c)"
  by (cases factory) (auto simp: connector_new_def fresh_system_def alive_inv_def)

text \<open>
  A reconnecting connector whose factory opens a stream whenever it is asked keeps receiving: until it
  is closed its receive loop never ends, and when the stream it reads breaks, four steps of the loop
  later it reads the newest stream.
\<close>

lemma receive_loop_reconnects:
  assumes "connector_new factory escape Reconnect = Inr c" and "list_all keeps_going events"
    and "sys = connector_run events (fresh_system c)"
    and "sys' = connector_run (replicate 4 (ReceiverStep 0 result (Inr child))) sys"
  shows "RxStopped \<notin> set (sys_receivers sys)
    \<and> (sys_receivers sys = [RxBroken generation k] \<longrightarrow>
        sys_receivers sys' = [RxRead (cn_generation (sys_connector sys')) (cn_opened (sys_connector sys') - 1) (cutter_clear k)])"
proof -
  have alive: "system_inv alive_inv sys" using alive_inv_run [OF alive_inv_new [OF assms(1)] assms(2)] assms(3) by simp
  have st: "system_inv stream_inv sys" using stream_inv_run [OF stream_inv_new [OF assms(1)]] assms(3) by simp
  have "sys_receivers sys' = [RxRead (cn_generation (sys_connector sys')) (cn_opened (sys_connector sys') - 1) (cutter_clear k)]"
    if rx: "sys_receivers sys = [RxBroken generation k]"
  proof -
    obtain continue c' where m: "manage_closed_connection (Inr child) generation (sys_connector sys) = (continue, c')" by force
    have oc: "cn_on_closed (sys_connector sys) = Reconnect" and run: "cn_run (sys_connector sys)"
      using alive rx by (auto simp: alive_inv_def split: if_splits)
    have a: "alive (sys_connector sys) (RxManage generation k)" using alive rx by (auto simp: alive_inv_def split: if_splits)
    have "cn_reader c' \<noteq> None" using manage_reconnect [OF oc m] a by auto
    moreover have "stream_inv c' [RxBroken generation k]" using stream_inv_manage [OF st m] rx by simp
    ultimately have "cn_reader c' = Some (cn_opened c' - 1)" by (auto simp: stream_inv_def)
    then show ?thesis using rx run m manage_reconnect(1,5) [OF oc m]
      by (auto simp: assms(4) numeral_eq_Suc receiver_step_def)
  qed
  then show ?thesis using alive by (auto simp: alive_inv_def split: if_splits)
qed

text \<open>
  C34: A receive loop that has ended is never replaced: while the connector runs, \<^verbatim>\<open>start_listen\<close> refuses
  to start another one, so no packet is received any more although packets are still sent and a send
  may even have opened a new stream.
\<close>

theorem ended_receive_loop_stays_ended:
  assumes "cn_run (sys_connector sys)" and "list_all (\<lambda>rx. rx = RxStopped) (sys_receivers sys)" and "Close \<notin> set events"
  shows "cn_dispatched (sys_connector (connector_run events sys)) = cn_dispatched (sys_connector sys)
    \<and> fst (start_listen (connector_run events sys)) = Inl ''Listening already started''"
proof -
  have manage: "cn_dispatched (snd (manage_closed_connection factory g c)) = cn_dispatched c \<and>
      cn_run (snd (manage_closed_connection factory g c)) = cn_run c" for factory g c
    by (auto simp: manage_closed_connection_def Let_def split: OnStreamClosed.splits sum.splits)
  have send: "cn_dispatched (snd (send_step result factory framed tx c)) = cn_dispatched c \<and>
      cn_run (snd (send_step result factory framed tx c)) = cn_run c" for result factory framed tx c
  proof (cases tx)
    case (TxManage g err)
    then show ?thesis using manage [of factory g c] by (auto split: prod.splits)
  qed (auto simp: Let_def split: WriteResult.splits)
  have step: "cn_run (sys_connector (connector_step ev sys)) \<and> list_all (\<lambda>rx. rx = RxStopped) (sys_receivers (connector_step ev sys))
      \<and> cn_dispatched (sys_connector (connector_step ev sys)) = cn_dispatched (sys_connector sys)"
    if "cn_run (sys_connector sys)" "list_all (\<lambda>rx. rx = RxStopped) (sys_receivers sys)" "ev \<noteq> Close" for ev sys
  proof (cases ev)
    case (ReceiverStep i result factory)
    then show ?thesis using that by (auto simp: receiver_step_def list_all_length nth_list_update)
  next
    case (SenderStep i result factory)
    obtain data tx where "sys_senders sys ! i = (data, tx)" by force
    then show ?thesis using that SenderStep send [of result factory "frame_bytes data (cn_escape (sys_connector sys))" tx "sys_connector sys"]
      by (auto simp: sender_step_def split: prod.splits)
  qed (use that in \<open>auto simp: set_packet_hook_def start_listen_def send_packet_def send_with_crc8_def Let_def\<close>)
  have "cn_run (sys_connector (connector_run events sys)) \<and> cn_dispatched (sys_connector (connector_run events sys)) = cn_dispatched (sys_connector sys)"
    using assms
  proof (induction events arbitrary: sys)
    case (Cons ev events)
    then show ?case using step [of sys ev] by auto
  qed simp
  then show ?thesis by (simp add: start_listen_def Let_def)
qed

subsection \<open>Examples\<close>

definition example_connector :: Connector where
  "example_connector =
     \<lparr>cn_escape = 0xff, cn_on_closed = Reconnect, cn_generation = 0, cn_reader = Some 0, cn_writer = 0,
      cn_child = Some 0, cn_hook = False, cn_run = False, cn_opened = 1, cn_written = (\<lambda>_. []),
      cn_read = (\<lambda>_. []), cn_dispatched = [], cn_killed = [], cn_handler_calls = 0\<rparr>"

lemma example_connector_new: "connector_new (Inr True) 0xff Reconnect = Inr example_connector"
  by (simp add: connector_new_def example_connector_def child_of_def)

text \<open>
  The first stream brings a packet and ends; a send finds it broken, opens the second stream and
  writes there; the receive loop takes it up.
\<close>

abbreviation rx_step :: "ReadResult \<Rightarrow> ConnectorEvent" where
  "rx_step result \<equiv> ReceiverStep 0 result (Inr True)"

definition example_events :: "ConnectorEvent list" where
  "example_events =
     [Listen, rx_step ReadInterrupted, rx_step ReadInterrupted, rx_step (ReadData [7, 0xff, 0]), Send [5],
      SenderStep 0 WriteDone (Inr True), SenderStep 0 (WriteFailed 1 ''broken pipe'') (Inr True), SenderStep 0 WriteDone (Inr True),
      SenderStep 0 WriteDone (Inr True), SenderStep 0 WriteDone (Inr True), rx_step (ReadData [])]"

theorem connector_owns_its_processes_witness:
  "cn_killed (sys_connector (connector_run example_events (fresh_system example_connector))) = [0] \<and>
   cn_child (sys_connector (connector_run example_events (fresh_system example_connector))) = Some 1 \<and>
   cn_writer (sys_connector (connector_run example_events (fresh_system example_connector))) = 1"
proof -
  let ?sys = "connector_run example_events (fresh_system example_connector)"
  have "list_all opens_process example_events" by (simp add: example_events_def opens_process_def)
  note owns = connector_owns_its_processes [OF example_connector_new this refl]
  have "cn_child (sys_connector ?sys) = Some 1" "cn_opened (sys_connector ?sys) = 2" by code_simp+
  then show ?thesis using owns by (simp add: upt_rec)
qed


text \<open>The stream ends and the factory fails once, so the receive loop ends; then a send opens the next stream.\<close>

definition ended_system :: ConnectorSystem where
  "ended_system = connector_run
     [SetHook, Listen, rx_step ReadInterrupted, rx_step ReadInterrupted, rx_step (ReadData []), rx_step ReadInterrupted,
      ReceiverStep 0 ReadInterrupted (Inl ''no device''), Send [5], SenderStep 0 WriteDone (Inr True),
      SenderStep 0 (WriteFailed 0 ''broken pipe'') (Inr True), SenderStep 0 WriteDone (Inr True), SenderStep 0 WriteDone (Inr True),
      SenderStep 0 WriteDone (Inr True)] (fresh_system example_connector)"

theorem ended_receive_loop_stays_ended_witness:
  "sys_senders ended_system = [([5], TxReturned (Inr ()))] \<and> cn_reader (sys_connector ended_system) = Some 1 \<and>
   cn_dispatched (sys_connector (connector_run (replicate 9 (rx_step (ReadData [1, 0xff, 0]))) ended_system)) = []"
proof -
  have "cn_run (sys_connector ended_system)" "list_all (\<lambda>rx. rx = RxStopped) (sys_receivers ended_system)"
    "cn_dispatched (sys_connector ended_system) = []" by code_simp+
  moreover have "sys_senders ended_system = [([5], TxReturned (Inr ()))]" "cn_reader (sys_connector ended_system) = Some 1" by code_simp+
  ultimately show ?thesis using ended_receive_loop_stays_ended [of ended_system "replicate 9 (rx_step (ReadData [1, 0xff, 0]))"] by simp
qed

text \<open>
  A process may outlive \<^verbatim>\<open>close\<close>: a receive loop that has looked at \<^verbatim>\<open>run\<close> before the connector is closed
  still opens the next stream, whose process nobody ends.
\<close>

lemma process_outlives_close:
  "let sys = connector_run
       [Listen, rx_step ReadInterrupted, rx_step ReadInterrupted, rx_step (ReadData []), rx_step ReadInterrupted, Close,
        rx_step ReadInterrupted, rx_step ReadInterrupted] (fresh_system example_connector)
   in sys_receivers sys = [RxStopped] \<and> \<not> cn_run (sys_connector sys) \<and> cn_child (sys_connector sys) = Some 1"
  by code_simp

end
