(* ===== verification/Streamer.thy ===== *)
theory Streamer
  imports Text
begin

text \<open>
  The connection of a command to the RPC server, \<^verbatim>\<open>rpc/streamer.rs\<close>: the endpoint that keeps one working
  connection and streams its packets to a listener, and \<^verbatim>\<open>wait_reconnect\<close>.

  The connections are numbered in the order they were opened.  The steps of the streaming threads
  and the calls of the other threads interleave; what the factory, the polls and the sends give are
  inputs.  The model keeps which connections were closed and what the listener was called with.  Log
  messages are left out; \<^verbatim>\<open>init\<close> of a new connection is called, but its error is only logged.
\<close>

subsection \<open>Definitions\<close>

definition RECONNECT_TIMES_MS :: "nat list" where
  "RECONNECT_TIMES_MS = [100, 200, 500, 1000, 2000, 5000, 10000]"

text \<open>
  The results of the tries, one after the other; \<^const>\<open>None\<close> while the tries so far have failed.  The
  second component is the time waited after each of them.
\<close>

fun wait_reconnect_loop :: "nat \<Rightarrow> ('e + 't) list \<Rightarrow> nat list \<Rightarrow> ('e + 't) option \<times> nat list" where
  "wait_reconnect_loop attempt [] wait_times = (None, [])"
| "wait_reconnect_loop attempt (Inr connection # results) wait_times = (Some (Inr connection), [])"
| "wait_reconnect_loop attempt (Inl err # results) wait_times =
     (let index = min attempt (length wait_times - 1)
      in if index < length wait_times then
           (let (r, waits) = wait_reconnect_loop (attempt + 1) results wait_times in (r, wait_times ! index # waits))
         else (Some (Inl err), []))"

definition wait_reconnect :: "('e + 't) list \<Rightarrow> nat list \<Rightarrow> ('e + 't) option \<times> nat list" where
  "wait_reconnect results wait_times = wait_reconnect_loop 0 results wait_times"

text \<open>The factory of \<^verbatim>\<open>open_ip_endpoint\<close>, over the results of its connects.\<close>

definition ip_factory :: "bool \<Rightarrow> ('e + 't) list \<Rightarrow> ('e + 't) option" where
  "ip_factory reconnect results =
     (if reconnect then fst (wait_reconnect results RECONNECT_TIMES_MS)
      else case results of [] \<Rightarrow> None | r # _ \<Rightarrow> Some r)"

record Streamer =
  st_working :: "nat option"
  st_run :: bool
  st_streamer :: bool
  st_opened :: nat
  st_closed :: "nat list"
  st_sent :: "(nat \<times> bytes) list"
  st_delivered :: "(nat \<times> bytes) list"

definition streamer_new :: Streamer where
  "streamer_new =
     \<lparr>st_working = None, st_run = False, st_streamer = False, st_opened = 0, st_closed = [], st_sent = [], st_delivered = []\<rparr>"

type_synonym open_result = "string + unit"

definition get_api :: "open_result \<Rightarrow> Streamer \<Rightarrow> (string + nat) \<times> Streamer" where
  "get_api factory st =
     (case st_working st of
        Some connection \<Rightarrow> (Inr connection, st)
      | None \<Rightarrow>
          (case factory of
             Inl err \<Rightarrow> (Inl err, st)
           | Inr _ \<Rightarrow> (Inr (st_opened st), st\<lparr>st_working := Some (st_opened st), st_opened := st_opened st + 1\<rparr>)))"

text \<open>\<^verbatim>\<open>send_packet\<close>; \<open>result\<close> is what the connection answers.\<close>

definition streamer_send_packet :: "open_result \<Rightarrow> string + unit \<Rightarrow> bytes \<Rightarrow> Streamer \<Rightarrow> (string + unit) \<times> Streamer" where
  "streamer_send_packet factory result data st =
     (case get_api factory st of
        (Inl err, st) \<Rightarrow> (Inl err, st)
      | (Inr connection, st) \<Rightarrow>
          (result, case result of Inl _ \<Rightarrow> st | Inr _ \<Rightarrow> st\<lparr>st_sent := st_sent st @ [(connection, data)]\<rparr>))"

definition cleanup_connection :: "Streamer \<Rightarrow> Streamer" where
  "cleanup_connection st =
     (case st_working st of
        None \<Rightarrow> st
      | Some connection \<Rightarrow> st\<lparr>st_working := None, st_closed := st_closed st @ [connection]\<rparr>)"

definition streamer_close :: "Streamer \<Rightarrow> Streamer" where
  "streamer_close st = cleanup_connection (st\<lparr>st_run := False\<rparr>)"

text \<open>
  The streaming thread: before the test of \<^verbatim>\<open>run\<close>, before \<^verbatim>\<open>get_api\<close>, after it failed, before
  \<^verbatim>\<open>get_next_packet\<close>, after that failed, before the connection is dropped, before \<^verbatim>\<open>run\<close> is reset, and
  ended.
\<close>

datatype StreamThread =
    StHead
  | StGet
  | StNoConnection
  | StNext nat
  | StError
  | StCleanup
  | StFinish
  | StEnded

fun stream_step :: "open_result \<Rightarrow> string + bytes \<Rightarrow> StreamThread \<Rightarrow> Streamer \<Rightarrow> StreamThread \<times> Streamer" where
  "stream_step factory result StHead st = (if st_run st then StGet else StFinish, st)"
| "stream_step factory result StGet st =
     (case get_api factory st of
        (Inr connection, st) \<Rightarrow> (StNext connection, st)
      | (Inl err, st) \<Rightarrow> (StNoConnection, st))"
| "stream_step factory result StNoConnection st = (StFinish, st)"
| "stream_step factory result (StNext connection) st =
     (case result of
        Inr packet \<Rightarrow> (StHead, st\<lparr>st_delivered := st_delivered st @ [(connection, packet)]\<rparr>)
      | Inl err \<Rightarrow> (StError, st))"
| "stream_step factory result StError st = (if st_run st then StCleanup else StFinish, st)"
| "stream_step factory result StCleanup st = (StHead, cleanup_connection st)"
| "stream_step factory result StFinish st = (StEnded, st\<lparr>st_run := False\<rparr>)"
| "stream_step factory result StEnded st = (StEnded, st)"

text \<open>The endpoint with its streaming threads.\<close>

record StreamerSystem =
  ss_endpoint :: Streamer
  ss_threads :: "StreamThread list"

definition start_streaming :: "open_result \<Rightarrow> StreamerSystem \<Rightarrow> (string + unit) \<times> StreamerSystem" where
  "start_streaming factory sys =
     (if st_streamer (ss_endpoint sys) then (Inl ''Packet streaming already running'', sys)
      else case get_api factory (ss_endpoint sys) of
        (Inl err, st) \<Rightarrow> (Inl err, sys\<lparr>ss_endpoint := st\<rparr>)
      | (Inr _, st) \<Rightarrow>
          (Inr (), sys\<lparr>ss_endpoint := st\<lparr>st_run := True, st_streamer := True\<rparr>, ss_threads := ss_threads sys @ [StHead]\<rparr>))"

text \<open>\<^verbatim>\<open>join\<close> takes the handle and then waits for the thread.\<close>

definition streamer_join :: "StreamerSystem \<Rightarrow> StreamerSystem" where
  "streamer_join sys = sys\<lparr>ss_endpoint := (ss_endpoint sys)\<lparr>st_streamer := False\<rparr>\<rparr>"

datatype StreamerEvent =
    StartStreaming open_result
  | GetApi open_result
  | StSend open_result "string + unit" bytes
  | Cleanup
  | StClose
  | Join
  | ThreadStep nat open_result "string + bytes"

definition thread_step :: "nat \<Rightarrow> open_result \<Rightarrow> string + bytes \<Rightarrow> StreamerSystem \<Rightarrow> StreamerSystem" where
  "thread_step i factory result sys =
     (if i < length (ss_threads sys) then
        let (t, st) = stream_step factory result (ss_threads sys ! i) (ss_endpoint sys)
        in sys\<lparr>ss_endpoint := st, ss_threads := (ss_threads sys)[i := t]\<rparr>
      else sys)"

fun streamer_step :: "StreamerEvent \<Rightarrow> StreamerSystem \<Rightarrow> StreamerSystem" where
  "streamer_step (StartStreaming factory) sys = snd (start_streaming factory sys)"
| "streamer_step (GetApi factory) sys = sys\<lparr>ss_endpoint := snd (get_api factory (ss_endpoint sys))\<rparr>"
| "streamer_step (StSend factory result data) sys =
     sys\<lparr>ss_endpoint := snd (streamer_send_packet factory result data (ss_endpoint sys))\<rparr>"
| "streamer_step Cleanup sys = sys\<lparr>ss_endpoint := cleanup_connection (ss_endpoint sys)\<rparr>"
| "streamer_step StClose sys = sys\<lparr>ss_endpoint := streamer_close (ss_endpoint sys)\<rparr>"
| "streamer_step Join sys = streamer_join sys"
| "streamer_step (ThreadStep i factory result) sys = thread_step i factory result sys"

definition streamer_run :: "StreamerEvent list \<Rightarrow> StreamerSystem \<Rightarrow> StreamerSystem" where
  "streamer_run events sys = fold streamer_step events sys"

definition idle_streamer :: StreamerSystem where
  "idle_streamer = \<lparr>ss_endpoint = streamer_new, ss_threads = []\<rparr>"

subsection \<open>Waiting for the server\<close>

lemma wait_reconnect_failures:
  assumes "wait_times \<noteq> []"
  shows "wait_reconnect_loop attempt (map Inl errs @ results) wait_times =
    (let (r, waits) = wait_reconnect_loop (attempt + length errs) results wait_times
     in (r, map (\<lambda>i. wait_times ! min i (length wait_times - 1)) [attempt..<attempt + length errs] @ waits))"
proof (induction errs arbitrary: attempt)
  case (Cons err errs)
  have "min attempt (length wait_times - 1) < length wait_times" using assms by (simp add: min_less_iff_disj)
  moreover have "[attempt..<attempt + length (err # errs)] = attempt # [attempt + 1..<attempt + 1 + length errs]"
    by (simp add: upt_conv_Cons del: upt_Suc)
  ultimately show ?case using Cons.IH [of "attempt + 1"] by (simp add: Let_def del: upt_Suc split: prod.splits)
qed simp

lemma results_split:
  obtains errs where "results = map Inl errs" | errs t rest where "results = map Inl errs @ Inr t # rest"
proof (induction results)
  case Nil
  show ?case by (rule Nil(1) [of "[]"]) simp
next
  case (Cons r results)
  show ?case
  proof (cases r)
    case (Inl e)
    show ?thesis
    proof (rule Cons.IH)
      show thesis if "results = map Inl errs" for errs using Cons.prems(1) [of "e # errs"] that Inl by simp
      show thesis if "results = map Inl errs @ Inr t # rest" for errs t rest
        using Cons.prems(2) [of "e # errs" t rest] that Inl by simp
    qed
  next
    case (Inr t)
    then show ?thesis using Cons.prems(2) [of "[]" t results] by simp
  qed
qed

text \<open>
  With wait times given \<^verbatim>\<open>wait_reconnect\<close> never gives up: it returns the first connection that could
  be opened, and after each failed try it waits the time for that try, the last time repeating.
\<close>

lemma wait_reconnect_returns_the_first_connection:
  fixes results :: "('e + 't) list"
  assumes "wait_times \<noteq> []"
  shows "fst (wait_reconnect results wait_times) =
      (case dropWhile isl results of [] \<Rightarrow> None | r # _ \<Rightarrow> Some (Inr (projr r)))
    \<and> snd (wait_reconnect results wait_times) =
      map (\<lambda>i. wait_times ! min i (length wait_times - 1)) [0..<length (takeWhile isl results)]"
proof (cases results rule: results_split)
  case (1 errs)
  have "takeWhile isl results = results" "dropWhile isl results = []" by (auto simp: 1 takeWhile_eq_all_conv)
  moreover have "length results = length errs" by (simp add: 1)
  ultimately show ?thesis using wait_reconnect_failures [OF assms, of 0 errs "[] :: ('e + 't) list"]
    by (simp add: wait_reconnect_def takeWhile_eq_all_conv [THEN iffD2] dropWhile_eq_Nil_conv [THEN iffD2] flip: 1)
next
  case (2 errs t rest)
  have "takeWhile isl (map Inl errs @ Inr t # rest) = map Inl errs" "dropWhile isl (map Inl errs @ Inr t # rest) = Inr t # rest"
    by (induction errs) simp_all
  then show ?thesis using wait_reconnect_failures [OF assms, of 0 errs "Inr t # rest"] by (simp add: wait_reconnect_def 2)
qed

lemma ip_factory_reconnects:
  fixes results :: "('e + 't) list"
  shows "ip_factory True results \<noteq> Some (Inl err)"
proof (cases results rule: results_split)
  case (1 errs)
  then show ?thesis using wait_reconnect_failures [of RECONNECT_TIMES_MS 0 errs "[] :: ('e + 't) list"]
    by (auto simp: ip_factory_def wait_reconnect_def RECONNECT_TIMES_MS_def)
next
  case (2 errs t rest)
  then show ?thesis using wait_reconnect_failures [of RECONNECT_TIMES_MS 0 errs "Inr t # rest"]
    by (auto simp: ip_factory_def wait_reconnect_def RECONNECT_TIMES_MS_def)
qed

subsection \<open>The working connection\<close>

text \<open>Every connection that was opened is the working one or was closed, each once and in order.\<close>

definition connection_inv :: "Streamer \<Rightarrow> bool" where
  "connection_inv st \<longleftrightarrow> st_closed st @ (case st_working st of None \<Rightarrow> [] | Some c \<Rightarrow> [c]) = [0..<st_opened st]"

lemma connection_inv_get_api: "connection_inv st \<Longrightarrow> connection_inv (snd (get_api factory st))"
  by (auto simp: connection_inv_def get_api_def split: option.splits sum.splits)

lemma connection_inv_cleanup: "connection_inv st \<Longrightarrow> connection_inv (cleanup_connection st)"
  by (auto simp: connection_inv_def cleanup_connection_def split: option.splits)

lemma connection_inv_fields:
  "connection_inv (st\<lparr>st_run := b\<rparr>) = connection_inv st" "connection_inv (st\<lparr>st_streamer := b\<rparr>) = connection_inv st"
  "connection_inv (st\<lparr>st_sent := xs\<rparr>) = connection_inv st" "connection_inv (st\<lparr>st_delivered := xs\<rparr>) = connection_inv st"
  by (simp_all add: connection_inv_def)

lemma connection_inv_stream_step: "connection_inv st \<Longrightarrow> connection_inv (snd (stream_step factory result t st))"
  using connection_inv_get_api [of st factory]
  by (cases t) (auto simp: connection_inv_fields connection_inv_cleanup split: prod.splits sum.splits)

lemma connection_inv_step: "connection_inv (ss_endpoint sys) \<Longrightarrow> connection_inv (ss_endpoint (streamer_step ev sys))"
proof (cases ev)
  case (StartStreaming factory)
  then show "connection_inv (ss_endpoint sys) \<Longrightarrow> ?thesis" using connection_inv_get_api [of "ss_endpoint sys" factory]
    by (auto simp: start_streaming_def connection_inv_fields split: prod.splits sum.splits)
next
  case (StSend factory result data)
  then show "connection_inv (ss_endpoint sys) \<Longrightarrow> ?thesis" using connection_inv_get_api [of "ss_endpoint sys" factory]
    by (auto simp: streamer_send_packet_def connection_inv_fields split: prod.splits sum.splits)
next
  case (ThreadStep i factory result)
  then show "connection_inv (ss_endpoint sys) \<Longrightarrow> ?thesis"
    using connection_inv_stream_step [of "ss_endpoint sys" factory result "ss_threads sys ! i"]
    by (auto simp: thread_step_def split: prod.splits)
qed (auto simp: connection_inv_fields connection_inv_get_api connection_inv_cleanup streamer_close_def streamer_join_def)

lemma connection_inv_run: "connection_inv (ss_endpoint sys) \<Longrightarrow> connection_inv (ss_endpoint (streamer_run evs sys))"
  by (induction evs arbitrary: sys) (simp_all add: streamer_run_def connection_inv_step)

text \<open>
  However the streaming threads, the sends, \<^verbatim>\<open>close\<close> and \<^verbatim>\<open>join\<close> of an endpoint interleave, no connection to
  the server is lost: each connection that was opened is the working one or was closed, once and in
  the order of opening.
\<close>

lemma streamer_owns_its_connections:
  "let st = ss_endpoint (streamer_run events idle_streamer)
   in st_closed st @ (case st_working st of None \<Rightarrow> [] | Some c \<Rightarrow> [c]) = [0..<st_opened st]"
  using connection_inv_run [of idle_streamer events]
  by (simp add: connection_inv_def idle_streamer_def streamer_new_def)

end
