(* ===== verification/Gateway.thy ===== *)
theory Gateway
  imports Connector Streamer Cli
begin

text \<open>
  The command \<^verbatim>\<open>ub rpcServer\<close> of \<^verbatim>\<open>apps/rpc_server.rs\<close>: its options, how it opens the connection to the
  gateway, and what it starts the server with.  Starting a process and looking at its exit status
  are inputs, one pair for every try; the waiting for the Arduino bootloader is left out.  The
  server itself is the endpoint and the protocol of the other theories.
\<close>

subsection \<open>Definitions\<close>

definition server_RPC_PORT :: CliEntry where
  "server_RPC_PORT = \<lparr>names = [''p'', ''-port''], description = ''Rpc listen port''\<rparr>"

definition SERIAL_DEV :: CliEntry where
  "SERIAL_DEV = \<lparr>names = [''s'', ''-serial-device''], description = ''Serial device path''\<rparr>"

definition DIRECT_SERIAL_DEVICE :: CliEntry where
  "DIRECT_SERIAL_DEVICE = \<lparr>names = [''i'', ''-direct-serial-device''], description = ''Direct serial driver''\<rparr>"

definition MODE :: CliEntry where
  "MODE = \<lparr>names = [''m'', ''-mode''], description = ''Rpc backend mode (serial, dummy)''\<rparr>"

definition RPC_SERVER_ENTRIES :: "CliEntry list" where
  "RPC_SERVER_ENTRIES = [WORK_DIR, server_RPC_PORT, SERIAL_DEV, SERIAL_BAUD, RECONNECT, DIRECT_SERIAL_DEVICE, MODE]"

definition GATEWAY_PACKET_ESCAPE :: u8 where
  "GATEWAY_PACKET_ESCAPE = 0xff"

text \<open>
  A try to open the stream: the start of the process, and then its exit status, if it has ended.
\<close>

record GatewayTry =
  try_spawn :: "string + unit"
  try_status :: "string + string option"

definition ensure_running :: "string + string option \<Rightarrow> factory_result" where
  "ensure_running try_wait =
     (case try_wait of
        Inl err \<Rightarrow> Inl err
      | Inr (Some status) \<Rightarrow> Inl (''Communication process is dead. Exit status: '' @ status)
      | Inr None \<Rightarrow> Inr True)"

definition open_communicator_process :: "string \<Rightarrow> string + unit \<Rightarrow> factory_result" where
  "open_communicator_process program spawn = map_sum (\<lambda>err. ''can't start `'' @ program @ ''`: '' @ err) (\<lambda>_. True) spawn"

definition open_gateway :: "string \<times> string list \<Rightarrow> GatewayTry \<Rightarrow> factory_result" where
  "open_gateway command t =
     (case open_communicator_process (fst command) (try_spawn t) of
        Inl err \<Rightarrow> Inl err
      | Inr _ \<Rightarrow> ensure_running (try_status t))"

definition gateway_command :: "string option \<Rightarrow> string \<Rightarrow> u32 \<Rightarrow> string \<times> string list" where
  "gateway_command direct_command serial baud =
     (case direct_command of
        Some command \<Rightarrow> open_direct_serial command serial baud
      | None \<Rightarrow> open_serial serial baud)"

text \<open>The factory of the connector; \<^const>\<open>None\<close> while it still tries.\<close>

definition gateway_factory :: "string option \<Rightarrow> string \<Rightarrow> u32 \<Rightarrow> GatewayTry list \<Rightarrow> factory_result option" where
  "gateway_factory direct_command serial baud tries =
     fst (wait_reconnect (map (open_gateway (gateway_command direct_command serial baud)) tries) RECONNECT_TIMES_MS)"

definition create_serial_packet_connector :: "CliArgs \<Rightarrow> GatewayTry list \<Rightarrow> (string + Connector option) option" where
  "create_serial_packet_connector args tries =
     (case cli_parse parse_u32 SERIAL_BAUD args of
        Inl e \<Rightarrow> Some (Inl e)
      | Inr baud \<Rightarrow>
          (case (get_simple SERIAL_DEV args, baud) of
             (Some serial, Some baud) \<Rightarrow>
               map_option (\<lambda>factory.
                   map_sum id Some (connector_new factory GATEWAY_PACKET_ESCAPE
                     (if has_option RECONNECT args then Reconnect else CallHandler)))
                 (gateway_factory (get_simple DIRECT_SERIAL_DEVICE args) serial baud tries)
           | _ \<Rightarrow> Some (Inr None)))"

text \<open>Every interface, IPv6 too where it is available; \<open>listen\<close> is the listener of the system.\<close>

definition bind_rpc :: "(string \<Rightarrow> u16 \<Rightarrow> string + unit) \<Rightarrow> u16 \<Rightarrow> string + unit" where
  "bind_rpc listen port =
     (case listen ''::'' port of Inr _ \<Rightarrow> Inr () | Inl _ \<Rightarrow> listen ''0.0.0.0'' port)"

text \<open>
  What the server is started with: the connector, \<^const>\<open>None\<close> for the dummy, and the defaults of the
  endpoint for echo and loopback.
\<close>

datatype ServerStart =
    ServerExit int
  | ServerError string
  | ServerRuns u16 "Connector option" bool bool

definition rpc_server_main ::
    "(string \<Rightarrow> u16 \<Rightarrow> string + unit) \<Rightarrow> GatewayTry list \<Rightarrow> string list \<Rightarrow> ServerStart option" where
  "rpc_server_main listen tries args =
     (case parse_or_help ''UarbusRpcServer'' args RPC_SERVER_ENTRIES of
        Inl (exit_code, _) \<Rightarrow> Some (ServerExit exit_code)
      | Inr pa \<Rightarrow>
          (case parse_or parse_u16 server_RPC_PORT pa DEFAULT_RPC_PORT of
             Inl e \<Rightarrow> Some (ServerError e)
           | Inr port \<Rightarrow>
               (let mode = (case get_simple MODE pa of Some m \<Rightarrow> m | None \<Rightarrow> ''serial'');
                    is_dummy = (mode = ''dummy'');
                    serve = (\<lambda>connector.
                      case bind_rpc listen port of
                        Inl err \<Rightarrow> ServerError (''Can't listen on the RPC port '' @ show_nat (unat port) @ '': '' @ err)
                      | Inr _ \<Rightarrow> ServerRuns port connector (\<not> is_dummy) is_dummy)
                in if mode = ''serial'' then
                     map_option (\<lambda>r. case r of
                         Inl e \<Rightarrow> ServerError e
                       | Inr None \<Rightarrow> ServerExit 2
                       | Inr (Some connector) \<Rightarrow> serve (Some connector))
                       (create_serial_packet_connector pa tries)
                   else if is_dummy then Some (serve None)
                   else Some (ServerExit 2))))"

subsection \<open>Properties\<close>

text \<open>The factory results in a run of the connector are those of the gateway, and it is not closed.\<close>

definition gateway_event :: "string option \<Rightarrow> string \<Rightarrow> u32 \<Rightarrow> ConnectorEvent \<Rightarrow> bool" where
  "gateway_event direct_command serial baud ev \<longleftrightarrow> ev \<noteq> Close \<and>
     (\<forall>f. event_factory ev = Some f \<longrightarrow> (\<exists>tries. gateway_factory direct_command serial baud tries = Some f))"

lemma wait_reconnect_never_fails: "fst (wait_reconnect results RECONNECT_TIMES_MS) \<noteq> Some (Inl err)"
  using ip_factory_reconnects [of results err] by (simp add: ip_factory_def)

lemma gateway_event_keeps_going: "gateway_event direct_command serial baud ev \<Longrightarrow> keeps_going ev"
  by (auto simp: gateway_event_def keeps_going_def gateway_factory_def wait_reconnect_never_fails)

text \<open>
  C33: With the reconnect option the RPC server keeps its gateway: whatever happens to the streams,
  to the tries to start the communication process and to the packets sent meanwhile, the receive loop
  never ends, and when its stream breaks, four steps of the loop later it reads the newest stream.
\<close>

theorem gateway_connection_is_kept:
  assumes "create_serial_packet_connector args tries = Some (Inr (Some c))" and "has_option RECONNECT args"
    and "get_simple SERIAL_DEV args = Some serial" and "cli_parse parse_u32 SERIAL_BAUD args = Inr (Some baud)"
    and "list_all (gateway_event (get_simple DIRECT_SERIAL_DEVICE args) serial baud) events"
    and "sys = connector_run events (fresh_system c)"
    and "gateway_factory (get_simple DIRECT_SERIAL_DEVICE args) serial baud tries' = Some f"
    and "sys' = connector_run (replicate 4 (ReceiverStep 0 result f)) sys"
  shows "RxStopped \<notin> set (sys_receivers sys)
    \<and> (sys_receivers sys = [RxBroken generation k] \<longrightarrow>
        sys_receivers sys' = [RxRead (cn_generation (sys_connector sys')) (cn_opened (sys_connector sys') - 1) (cutter_clear k)])"
proof -
  obtain factory where "map_sum id Some (connector_new factory GATEWAY_PACKET_ESCAPE Reconnect) = Inr (Some c)"
    using assms(1-4) by (auto simp: create_serial_packet_connector_def)
  then have c: "connector_new factory GATEWAY_PACKET_ESCAPE Reconnect = Inr c"
    by (cases "connector_new factory GATEWAY_PACKET_ESCAPE Reconnect") simp_all
  have going: "list_all keeps_going events"
    using assms(5) by (auto simp: list_all_iff intro: gateway_event_keeps_going)
  obtain child where "f = Inr child"
    using assms(7) by (cases f) (auto simp: gateway_factory_def wait_reconnect_never_fails)
  then show ?thesis using receive_loop_reconnects [OF c going assms(6)] assms(8) by blast
qed

text \<open>The server with a serial device that reconnects.\<close>

definition example_args :: CliArgs where
  "example_args =
     (case parse_cli_opts [''-s'', ''/dev/ttyUSB0'', ''-b'', ''300'', ''-r''] of Inr pa \<Rightarrow> pa | Inl _ \<Rightarrow> RBT.empty)"

definition good_try :: GatewayTry where
  "good_try = \<lparr>try_spawn = Inr (), try_status = Inr None\<rparr>"

theorem gateway_connection_is_kept_witness:
  "\<exists>k. sys_receivers (connector_run (replicate 4 (ReceiverStep 0 ReadInterrupted (Inr True)))
          (connector_run example_events (fresh_system (example_connector)))) = [RxRead 1 1 k]"
proof -
  let ?sys = "connector_run example_events (fresh_system example_connector)"
  have args: "has_option RECONNECT example_args" "get_simple SERIAL_DEV example_args = Some ''/dev/ttyUSB0''"
    "cli_parse parse_u32 SERIAL_BAUD example_args = Inr (Some 300)" "get_simple DIRECT_SERIAL_DEVICE example_args = None"
    by code_simp+
  have good: "gateway_factory None ''/dev/ttyUSB0'' 300 [good_try] = Some (Inr True)"
    by (simp add: gateway_factory_def wait_reconnect_def open_gateway_def open_communicator_process_def ensure_running_def good_try_def)
  have c: "create_serial_packet_connector example_args [good_try] = Some (Inr (Some example_connector))"
    by (simp add: create_serial_packet_connector_def args good GATEWAY_PACKET_ESCAPE_def example_connector_new)
  have events: "list_all (gateway_event (get_simple DIRECT_SERIAL_DEVICE example_args) ''/dev/ttyUSB0'' 300) example_events"
    using good by (auto simp: example_events_def gateway_event_def args(4))
  have "sys_receivers ?sys = [RxBroken 0 \<lparr>cutter_escape = 0xff, may_cut = False, cutter_packet = []\<rparr>]" by code_simp
  moreover have "cn_generation (sys_connector (connector_run (replicate 4 (rx_step ReadInterrupted)) ?sys)) = 1"
    "cn_opened (sys_connector (connector_run (replicate 4 (rx_step ReadInterrupted)) ?sys)) = 2" by code_simp+
  ultimately show ?thesis
    using gateway_connection_is_kept [OF c args(1-3) events refl, of "[good_try]" "Inr True" _ ReadInterrupted] good
    by (fastforce simp: args(4))
qed

end
