(* ===== verification/Log_Sql.thy ===== *)
theory Log_Sql
  imports Commands Ihex
begin

text \<open>
  The command \<^verbatim>\<open>ub logSql\<close> of \<^verbatim>\<open>apps/log_sql.rs\<close>: the connect string, the database client it starts and the
  SQL text it writes to it.  Starting the client and writing to it are inputs.
\<close>

subsection \<open>The database\<close>

datatype SqlTarget = Sqlite string | Mysql string u16 string

definition sql_target_parse :: "string \<Rightarrow> string + SqlTarget" where
  "sql_target_parse url =
     (case strip_prefix ''jdbc:'' url of
        None \<Rightarrow> Inl (''Sql connect string must start with `jdbc:`: '' @ url)
      | Some rest \<Rightarrow>
          (case split_once (CHR '':'') rest of
             None \<Rightarrow> Inl (''No database type in the connect string: '' @ url)
           | Some (kind, location) \<Rightarrow>
               (let kind = to_ascii_lowercase kind
                in if kind = ''sqlite'' then Inr (Sqlite location)
                   else if kind = ''mysql'' then
                     (let location = (case strip_prefix ''//'' location of Some l \<Rightarrow> l | None \<Rightarrow> location)
                      in case split_once (CHR ''/'') location of
                           None \<Rightarrow> Inl (''No database name in the connect string: '' @ url)
                         | Some (address, database) \<Rightarrow>
                             (let database = hd (split_on (CHR ''?'') database)
                              in case split_once (CHR '':'') address of
                                   None \<Rightarrow> Inr (Mysql address 3306 database)
                                 | Some (host, port) \<Rightarrow>
                                     (case parse_u16 port of
                                        None \<Rightarrow> Inl (''Invalid port in the connect string: '' @ url)
                                      | Some port \<Rightarrow> Inr (Mysql host port database))))
                   else Inl (''Unknown database type: '' @ kind))))"

definition quoted :: "string \<Rightarrow> string" where
  "quoted name = ''`'' @ name @ ''`''"

fun create_table_sql :: "SqlTarget \<Rightarrow> string \<Rightarrow> string" where
  "create_table_sql (Sqlite _) table =
     ''CREATE TABLE IF NOT EXISTS '' @ quoted table @ '' (`id` INTEGER NOT NULL PRIMARY KEY AUTOINCREMENT, `date` TIMESTAMP, `ms` BIGINT NOT NULL, `data` BLOB);'' @ newline
     @ ''CREATE INDEX IF NOT EXISTS '' @ quoted (table @ ''_index_date'') @ '' ON '' @ quoted table @ '' (`date`);'' @ newline
     @ ''CREATE INDEX IF NOT EXISTS '' @ quoted (table @ ''_index_ms'') @ '' ON '' @ quoted table @ '' (`ms`);'' @ newline
     @ ''CREATE INDEX IF NOT EXISTS '' @ quoted (table @ ''_index_data'') @ '' ON '' @ quoted table @ '' (`data`);'' @ newline"
| "create_table_sql (Mysql _ _ _) table =
     ''CREATE TABLE IF NOT EXISTS '' @ quoted table @ '' (`id` INT NOT NULL PRIMARY KEY AUTO_INCREMENT, `date` TIMESTAMP(3) NULL, `ms` BIGINT NOT NULL, `data` BLOB, INDEX `index_date` (`date`), INDEX `index_ms` (`ms`), INDEX `index_data` (`data`(128)));'' @ newline"

text \<open>The client: its program, arguments and additional environment.\<close>

record SqlCommand =
  sql_program :: string
  sql_args :: "string list"
  sql_env :: "(string \<times> string) list"

fun sql_client :: "SqlTarget \<Rightarrow> string option \<Rightarrow> string option \<Rightarrow> SqlCommand" where
  "sql_client (Sqlite db_file) user password =
     \<lparr>sql_program = ''sqlite3'', sql_args = [''-batch'', db_file], sql_env = []\<rparr>"
| "sql_client (Mysql host port database) user password =
     \<lparr>sql_program = ''mysql'',
      sql_args = [''--batch'', ''--unbuffered'', ''-h'', host, ''-P'', show_nat (unat port)]
        @ (case user of Some u \<Rightarrow> [''-u'', u] | None \<Rightarrow> []) @ [database],
      sql_env = (case password of Some p \<Rightarrow> [(''MYSQL_PWD'', p)] | None \<Rightarrow> [])\<rparr>"

subsection \<open>The statements\<close>

definition ascii_alphanumeric :: "char \<Rightarrow> bool" where
  "ascii_alphanumeric c \<longleftrightarrow>
     (let n = (of_char c :: nat) in 48 \<le> n \<and> n \<le> 57 \<or> 65 \<le> n \<and> n \<le> 90 \<or> 97 \<le> n \<and> n \<le> 122)"

definition check_table_name :: "string \<Rightarrow> string + unit" where
  "check_table_name table =
     (if table \<noteq> [] \<and> list_all (\<lambda>c. ascii_alphanumeric c \<or> c = CHR ''_'') table then Inr ()
      else Inl (''Invalid table name `'' @ table @ ''`: only letters, digits and _ are accepted''))"

definition insert_sql :: "Clock \<Rightarrow> string \<Rightarrow> int \<Rightarrow> bytes \<Rightarrow> string" where
  "insert_sql clock table time_ms packet =
     ''INSERT INTO '' @ quoted table @ '' (date, ms, data) VALUES ('' @ [CHR 0x27]
     @ trim_end_matches (CHR ''U'') (utc_sql_timestamp_ms clock time_ms) @ [CHR 0x27] @ '', '' @ show_int time_ms @ '', X'' @ [CHR 0x27]
     @ apps_to_hex packet @ [CHR 0x27] @ '');'' @ newline"

subsection \<open>The command\<close>

definition SQL_CONNECTION :: CliEntry where
  "SQL_CONNECTION =
     \<lparr>names = [''s'', ''-sql''],
      description = ''Sql server connect string like: jdbc:mysql://127.0.0.1:3306/database or jdbc:sqlite:/path/to/file.db''\<rparr>"

definition SQL_TABLE :: CliEntry where
  "SQL_TABLE = \<lparr>names = [''t'', ''-table''], description = ''Sql server table''\<rparr>"

definition SQL_USER :: CliEntry where
  "SQL_USER = \<lparr>names = [''u'', ''-user''], description = ''Sql server username''\<rparr>"

definition SQL_PASSWORD :: CliEntry where
  "SQL_PASSWORD =
     \<lparr>names = [''P'', ''-password''],
      description = ''Sql server password. Alternatively you can specify the password as UB_SQL_PASSWORD environment variable if you wan to keep it safe''\<rparr>"

definition LOG_SQL_ENTRIES :: "CliEntry list" where
  "LOG_SQL_ENTRIES = [RPC_HOST, RPC_PORT, LOOPBACK, SQL_CONNECTION, SQL_TABLE, SQL_USER, SQL_PASSWORD]"

text \<open>
  What the command starts: the client, the table, the first text it writes and, after that, the endpoint
  it connects to or the error it ends with; \<open>variable\<close> is
  \<^verbatim>\<open>UB_SQL_PASSWORD\<close> of the environment.
\<close>

definition log_sql_main :: "string option \<Rightarrow> string list \<Rightarrow> AppEnd + (SqlCommand \<times> string \<times> string \<times> (string + IpEndpoint))" where
  "log_sql_main variable args =
     (case parse_or_help ''UartbusLogSql'' args LOG_SQL_ENTRIES of
        Inl (exit_code, _) \<Rightarrow> Inl (AppExit exit_code)
      | Inr pa \<Rightarrow>
          (case (get_simple SQL_CONNECTION pa, get_simple SQL_TABLE pa) of
             (Some url, Some table) \<Rightarrow>
               (case sql_target_parse url of
                  Inl e \<Rightarrow> Inl (AppErr e)
                | Inr target \<Rightarrow>
                    (case check_table_name table of
                       Inl e \<Rightarrow> Inl (AppErr e)
                     | Inr _ \<Rightarrow>
                         (let password = (case get_simple SQL_PASSWORD pa of Some p \<Rightarrow> Some p | None \<Rightarrow> variable)
                          in Inr (sql_client target (get_simple SQL_USER pa) password, table, create_table_sql target table,
                               open_cli_endpoint pa (loopback_initializer pa)))))
           | _ \<Rightarrow> Inl (AppExit 1)))"

text \<open>
  The packets that come in: the text written to the client, and whether the client took all of it; after
  a failed write the process ends.
\<close>

fun log_sql_packets :: "Clock \<Rightarrow> string \<Rightarrow> (int \<times> bytes \<times> bool) list \<Rightarrow> string \<times> bool" where
  "log_sql_packets clock table [] = ('''', True)"
| "log_sql_packets clock table ((now, packet, saved) # packets) =
     (if saved then
        let (txt, ok) = log_sql_packets clock table packets in (insert_sql clock table now packet @ txt, ok)
      else ('''', False))"

subsection \<open>Lemmas\<close>

text \<open>The characters that end a literal, a name, a statement or a line.\<close>

definition sql_special :: "char \<Rightarrow> bool" where
  "sql_special c \<longleftrightarrow> c \<in> {CHR 0x27, CHR ''`'', CHR '';'', CHR 0x0A}"

definition sql_plain :: "string \<Rightarrow> bool" where
  "sql_plain s \<longleftrightarrow> (\<forall>c \<in> set s. \<not> sql_special c)"

lemma sql_plain_append [simp]: "sql_plain (s @ t) \<longleftrightarrow> sql_plain s \<and> sql_plain t"
  by (auto simp: sql_plain_def)

lemma sql_plain_Cons [simp]: "sql_plain (c # s) \<longleftrightarrow> \<not> sql_special c \<and> sql_plain s"
  by (auto simp: sql_plain_def)

lemma sql_plain_Nil [simp]: "sql_plain []"
  by (simp add: sql_plain_def)

lemma digit_plain: "digit c \<Longrightarrow> \<not> sql_special c"
  by (auto simp: digit_def sql_special_def)

lemma sql_plain_table: "check_table_name table = Inr () \<Longrightarrow> sql_plain table"
  by (auto simp: check_table_name_def sql_plain_def sql_special_def list_all_iff ascii_alphanumeric_def Let_def split: if_splits)

lemma sql_plain_stamp: "sql_plain (trim_end_matches (CHR ''U'') (utc_sql_timestamp_ms clock ms))"
proof -
  have "sql_plain (utc_sql_timestamp_ms clock ms)"
    using digit_plain by (auto simp: sql_plain_def sql_special_def dest!: utc_timestamp_chars)
  moreover have "set (trim_end_matches (CHR ''U'') s) \<subseteq> set s" for s
    using set_dropWhileD [of _ _ "rev s"] by (auto simp: trim_end_matches_def)
  ultimately show ?thesis by (auto simp: sql_plain_def)
qed

lemma sql_plain_show_int: "sql_plain (show_int n)"
  using digit_plain show_nat_digits by (auto simp: sql_plain_def show_int_def digit_def sql_special_def)

lemma lower_digit_plain:
  assumes "d < 16"
  shows "\<not> sql_special (lower_digit_char d)"
proof -
  have "d \<in> set [0..<16]" using assms by simp
  moreover have "list_all (\<lambda>d. \<not> sql_special (lower_digit_char d)) [0..<16]" by code_simp
  ultimately show ?thesis unfolding list_all_iff by blast
qed

lemma byte_digits: "unat (b :: u8) div 16 < 16" "unat b mod 16 < 16"
proof -
  have "unat b < 16 * 16" using unsigned_less [of b] by simp
  then show "unat b div 16 < 16" by (rule less_mult_imp_div_less)
qed simp

lemma sql_plain_hex: "sql_plain (apps_to_hex packet)"
  using byte_digits by (induction packet) (simp_all add: apps_to_hex_def hex2_lower_def lower_digit_plain)

lemma from_hex_apps_to_hex: "from_hex (apps_to_hex packet) = Inr packet"
proof -
  have "even (length (apps_to_hex packet))" by (induction packet) (simp_all add: apps_to_hex_def hex2_lower_def)
  moreover have "hex_pairs h (apps_to_hex packet) = Inr packet" for h
  proof (induction packet)
    case (Cons b bs)
    then show ?case using byte_digits [of b] word_of_digits [of b]
      by (simp add: apps_to_hex_def hex2_lower_def to_digit_lower_digit_char)
  qed (simp add: apps_to_hex_def)
  ultimately show ?thesis by (simp add: from_hex_def even_iff_mod_2_eq_zero)
qed

lemma plain_separators: "sql_plain s \<Longrightarrow> CHR 0x27 \<notin> set s \<and> CHR 0x0A \<notin> set s \<and> CHR ''`'' \<notin> set s \<and> CHR '';'' \<notin> set s"
  by (auto simp: sql_plain_def sql_special_def)

subsection \<open>Properties\<close>

text \<open>How the client reads a line: one statement with two names quotes and two literals.\<close>

definition is_insert :: "Clock \<Rightarrow> string \<Rightarrow> int \<times> bytes \<times> bool \<Rightarrow> string \<Rightarrow> bool" where
  "is_insert clock table entry line \<longleftrightarrow>
     (case entry of (now, packet, _) \<Rightarrow>
        (\<exists>hex. split_on (CHR 0x27) line =
             [''INSERT INTO `'' @ table @ ''` (date, ms, data) VALUES ('', trim_end_matches (CHR ''U'') (utc_sql_timestamp_ms clock now),
              '', '' @ show_int now @ '', X'', hex, '');''] \<and> from_hex hex = Inr packet)
        \<and> filter (\<lambda>c. c = CHR ''`'') line = ''``'' \<and> filter (\<lambda>c. c = CHR '';'') line = '';'' \<and> last line = CHR '';'' \<and> CHR 0x0A \<notin> set line)"

lemma insert_sql_is_insert:
  assumes "check_table_name table = Inr ()"
  shows "\<exists>line. insert_sql clock table now packet = line @ newline \<and> is_insert clock table (now, packet, saved) line"
proof -
  let ?date = "trim_end_matches (CHR ''U'') (utc_sql_timestamp_ms clock now)"
  let ?a = "''INSERT INTO `'' @ table @ ''` (date, ms, data) VALUES (''" and ?b = "'', '' @ show_int now @ '', X''"
  let ?line = "?a @ CHR 0x27 # ?date @ CHR 0x27 # ?b @ CHR 0x27 # apps_to_hex packet @ CHR 0x27 # '');''"
  have t: "sql_plain table" "sql_plain ?date" "sql_plain (show_int now)" "sql_plain (apps_to_hex packet)"
    using sql_plain_table [OF assms] sql_plain_stamp sql_plain_show_int sql_plain_hex by blast+
  note sep = t [THEN plain_separators]
  have "split_on (CHR 0x27) ?line = [?a, ?date, ?b, apps_to_hex packet, '');'']"
    using sep by (subst split_on_append, simp)+ simp
  moreover have "filter (\<lambda>c. c = d) table = [] \<and> filter (\<lambda>c. c = d) ?date = [] \<and> filter (\<lambda>c. c = d) (show_int now) = [] \<and> filter (\<lambda>c. c = d) (apps_to_hex packet) = []"
    if "d = CHR ''`'' \<or> d = CHR '';''" for d using that sep by (auto simp: filter_empty_conv)
  then have "filter (\<lambda>c. c = CHR ''`'') ?line = ''``''" "filter (\<lambda>c. c = CHR '';'') ?line = '';''" by simp_all
  moreover have "CHR 0x0A \<notin> set ?line" using sep by simp
  ultimately have "is_insert clock table (now, packet, saved) ?line" by (simp add: is_insert_def from_hex_apps_to_hex)
  moreover have "insert_sql clock table now packet = ?line @ newline" by (simp add: insert_sql_def quoted_def)
  ultimately show ?thesis by blast
qed

text \<open>
  C39: The text written for a checked table name and any packets is read by the database client as one
  statement per packet: every line ends the only statement in it, names the table, and has two
  literals, the time and the bytes of the packet as hex digits.  Nothing in a packet or a table name
  can end a literal or a statement.
\<close>

theorem sql_text_holds_the_packets:
  assumes "check_table_name table = Inr ()" and "list_all (\<lambda>(_, _, saved). saved) packets"
  shows "\<exists>lines. log_sql_packets clock table packets = (concat (map (\<lambda>line. line @ newline) lines), True)
    \<and> list_all2 (is_insert clock table) packets lines"
  using assms(2)
proof (induction packets)
  case Nil
  then show ?case by (intro exI [of _ "[]"]) simp
next
  case (Cons e packets)
  obtain now packet where e: "e = (now, packet, True)" using Cons.prems by (cases e) auto
  obtain lines where "log_sql_packets clock table packets = (concat (map (\<lambda>line. line @ newline) lines), True)"
    "list_all2 (is_insert clock table) packets lines" using Cons by auto
  moreover obtain line where "insert_sql clock table now packet = line @ newline" "is_insert clock table e line"
    using insert_sql_is_insert [OF assms(1), of clock now packet True] e by blast
  ultimately show ?case by (intro exI [of _ "line # lines"]) (simp add: e)
qed

theorem sql_text_holds_the_packets_witness:
  "\<exists>line. log_sql_packets example_clock ''packets'' [(592, [5, 63, 1, 0, 196], True)] = (line @ newline, True)
     \<and> is_insert example_clock ''packets'' (592, [5, 63, 1, 0, 196], True) line"
proof -
  have "check_table_name ''packets'' = Inr ()" by code_simp
  then show ?thesis
    using sql_text_holds_the_packets [of "''packets''" "[(592, [5, 63, 1, 0, 196], True)]" example_clock] by (auto simp: list_all2_Cons1)
qed

end
