(* ===== verification/Console.thy ===== *)
theory Console
  imports Commands
begin

text \<open>
  The interactive console: the interpreter of its lines (\<^verbatim>\<open>console.rs\<close>) and the command \<^verbatim>\<open>ub console\<close>
  (\<^verbatim>\<open>apps/console.rs\<close>).  The lines typed in (or the error of reading one), what the connection answers
  to a send and the time are inputs; the result of the command is what it prints and the packets it sends.
\<close>

subsection \<open>The interpreter\<close>

definition HELP_LINES :: "string list" where
  "HELP_LINES =
     [''help:'',
      [CHR 0x09] @ ''? : prints this help'',
      [CHR 0x09] @ ''> : sets the destination address like: >3'',
      [CHR 0x09] @ ''?> : prints the current destination address'',
      [CHR 0x09] @ ''< : sets the source address like: >12'',
      [CHR 0x09] @ ''?< : prints the current source address'',
      [CHR 0x09] @ ''lines started with numbers and separated with colon is recognised as packet to send'']"

datatype ConsoleInquiry = NoOp | SendPacket | QueryAddressFrom | QueryAddressTo | NeedHelp | UnknownCommand

record ConsoleResponse =
  rsp_inquiry :: ConsoleInquiry
  rsp_data :: "bytes option"
  rsp_message :: "string option"
  rsp_from :: i32
  rsp_to :: i32

definition response_new :: "ConsoleInquiry \<Rightarrow> bytes option \<Rightarrow> string option \<Rightarrow> ConsoleResponse" where
  "response_new inquiry data message =
     \<lparr>rsp_inquiry = inquiry, rsp_data = data, rsp_message = message, rsp_from = 0, rsp_to = 0\<rparr>"

definition with_addresses :: "ConsoleInquiry \<Rightarrow> bytes option \<Rightarrow> string option \<Rightarrow> i32 \<Rightarrow> i32 \<Rightarrow> ConsoleResponse" where
  "with_addresses inquiry data message address_from address_to =
     \<lparr>rsp_inquiry = inquiry, rsp_data = data, rsp_message = message, rsp_from = address_from, rsp_to = address_to\<rparr>"

definition response_to_packet :: "(int \<Rightarrow> bytes) \<Rightarrow> ConsoleResponse \<Rightarrow> PackError + bytes" where
  "response_to_packet to_bytes_be r =
     (case write_addressing to_bytes_be (rsp_from r) (rsp_to r) asm_new of
        Inl e \<Rightarrow> Inl e
      | Inr a \<Rightarrow>
          (let a = (case rsp_data r of Some data \<Rightarrow> write_blob data a | None \<Rightarrow> a)
           in Inr (fst (asm_done (append_crc8 a)))))"

record UartbusConsoleEnv =
  address_from :: i32
  address_to :: i32

definition console_new :: UartbusConsoleEnv where
  "console_new = \<lparr>address_from = 0, address_to = 0\<rparr>"

definition unrecognised_cmd :: "string \<Rightarrow> ConsoleResponse" where
  "unrecognised_cmd line = response_new UnknownCommand None (Some line)"

text \<open>A line that starts with a question mark.\<close>

definition console_query :: "string \<Rightarrow> UartbusConsoleEnv \<Rightarrow> ConsoleResponse" where
  "console_query line env =
     (if line = ''?'' then response_new NeedHelp None None
      else if line = ''?>'' then response_new QueryAddressFrom None (Some (show_int (sint (address_from env))))
      else if line = ''?<'' then response_new QueryAddressTo None (Some (show_int (sint (address_to env))))
      else unrecognised_cmd line)"

definition console_feed :: "string \<Rightarrow> UartbusConsoleEnv \<Rightarrow> ConsoleResponse \<times> UartbusConsoleEnv" where
  "console_feed input env =
     (let line = trim input
      in if line = [] then (response_new NoOp None None, env)
         else if hd line = CHR ''>'' then
           (case parse_i32 (trim (tl line)) of
              None \<Rightarrow> (unrecognised_cmd line, env)
            | Some address \<Rightarrow> let env = env\<lparr>address_from := address\<rparr> in (console_query ''?>'' env, env))
         else if hd line = CHR ''<'' then
           (case parse_i32 (trim (tl line)) of
              None \<Rightarrow> (unrecognised_cmd line, env)
            | Some address \<Rightarrow> let env = env\<lparr>address_to := address\<rparr> in (console_query ''?<'' env, env))
         else if hd line = CHR ''?'' then (console_query line env, env)
         else (case parse_colon_data line of
                 None \<Rightarrow> (unrecognised_cmd line, env)
               | Some data \<Rightarrow> (with_addresses SendPacket (Some data) None (address_from env) (address_to env), env)))"

subsection \<open>The command\<close>

definition console_DATA :: CliEntry where
  "console_DATA = \<lparr>names = [''d'', ''-data''], description = ''Data to send (colon separated uint8_t)''\<rparr>"

definition console_EXIT :: CliEntry where
  "console_EXIT = \<lparr>names = [''e'', ''-exit''], description = ''Exit after packet sent''\<rparr>"

definition CONSOLE_ENTRIES :: "CliEntry list" where
  "CONSOLE_ENTRIES = [RPC_HOST, RPC_PORT, FROM, TO, console_DATA, console_EXIT, LOG_TIME, LOOPBACK, DECODE_PACKET]"

definition format_received :: "bytes \<Rightarrow> string option \<Rightarrow> bool \<Rightarrow> string" where
  "format_received packet time decode =
     (case time of Some t \<Rightarrow> ''>['' @ t @ ''] '' | None \<Rightarrow> '''')
     @ (if decode then format_packet_with_mode ParsedPacket packet else format_colon_data_with_validation packet)"

text \<open>What the listener prints for a received packet.\<close>

definition print_received :: "Clock \<Rightarrow> bool \<Rightarrow> bool \<Rightarrow> int \<Rightarrow> bytes \<Rightarrow> string" where
  "print_received clock log_times decode now packet =
     (if packet = [] then ''''
      else format_received packet (if log_times then Some (utc_sql_timestamp_ms clock now) else None) decode @ newline)"

record ConsoleState =
  con_env :: UartbusConsoleEnv
  con_out :: string
  con_sent :: "bytes list"

definition con_println :: "string \<Rightarrow> ConsoleState \<Rightarrow> ConsoleState" where
  "con_println txt s = s\<lparr>con_out := con_out s @ txt @ newline\<rparr>"

text \<open>A line typed in, with the answer to the send and the time; \<^const>\<open>Inl\<close> ends the command with an error.\<close>

definition console_line ::
    "(int \<Rightarrow> bytes) \<Rightarrow> Clock \<Rightarrow> bool \<Rightarrow> string \<Rightarrow> string + unit \<Rightarrow> int \<Rightarrow> ConsoleState \<Rightarrow> (string + unit) \<times> ConsoleState" where
  "console_line to_bytes_be clock log_times line sent now s =
     (let (ret, env) = console_feed line (con_env s); s = s\<lparr>con_env := env\<rparr>
      in case rsp_inquiry ret of
           NoOp \<Rightarrow> (Inr (), s)
         | NeedHelp \<Rightarrow> (Inr (), fold con_println HELP_LINES s)
         | QueryAddressFrom \<Rightarrow> (Inr (), con_println (''From address: '' @ show_int (sint (address_from env))) s)
         | QueryAddressTo \<Rightarrow> (Inr (), con_println (''To address: '' @ show_int (sint (address_to env))) s)
         | SendPacket \<Rightarrow>
             (case response_to_packet to_bytes_be ret of
                Inl e \<Rightarrow> (Inl (pack_error_text e), s)
              | Inr packet \<Rightarrow>
                  (case sent of
                     Inl err \<Rightarrow> (Inl err, s)
                   | Inr _ \<Rightarrow>
                       let s = s\<lparr>con_sent := con_sent s @ [packet]\<rparr>
                       in (Inr (), if log_times then con_println (''<['' @ utc_sql_timestamp_ms clock now @ '']'') s else s)))
         | UnknownCommand \<Rightarrow>
             (Inr (), con_println (''Unrecognised command or packet sequence: `'' @ (case rsp_message ret of Some msg \<Rightarrow> msg | None \<Rightarrow> '''')
                @ ''` enter `?` to display help'') s))"

fun console_lines ::
    "(int \<Rightarrow> bytes) \<Rightarrow> Clock \<Rightarrow> bool \<Rightarrow> ((string + string) \<times> (string + unit) \<times> int) list \<Rightarrow> ConsoleState \<Rightarrow> (string + unit) \<times> ConsoleState" where
  "console_lines to_bytes_be clock log_times [] s = (Inr (), s)"
| "console_lines to_bytes_be clock log_times ((Inl err, _, _) # lines) s = (Inl err, s)"
| "console_lines to_bytes_be clock log_times ((Inr line, sent, now) # lines) s =
     (case console_line to_bytes_be clock log_times line sent now s of
        (Inl err, s) \<Rightarrow> (Inl err, s)
      | (Inr _, s) \<Rightarrow> console_lines to_bytes_be clock log_times lines s)"

text \<open>
  The whole command: the data option is sent first, then the lines are read; when they end the packets
  are shown until the server goes away.  The reason why a number could not be parsed is left out of the
  error text.
\<close>

definition console_main ::
    "(int \<Rightarrow> bytes) \<Rightarrow> Clock \<Rightarrow> connect_api \<Rightarrow> string + unit \<Rightarrow> ((string + string) \<times> (string + unit) \<times> int) list \<Rightarrow> string list
      \<Rightarrow> AppEnd \<times> ConsoleState" where
  "console_main to_bytes_be clock connect first_sent lines args =
     (let s0 = \<lparr>con_env = console_new, con_out = '''', con_sent = []\<rparr>
      in case parse_or_help ''UartbusConsole'' args CONSOLE_ENTRIES of
        Inl (exit_code, _) \<Rightarrow> (AppExit exit_code, s0)
      | Inr pa \<Rightarrow>
          (case parse_from pa of Inl e \<Rightarrow> (AppErr e, s0) | Inr from_address \<Rightarrow>
          (case parse_or parse_i32 TO pa (- 1) of Inl e \<Rightarrow> (AppErr e, s0) | Inr to_address \<Rightarrow>
          (case open_cli_endpoint pa (loopback_initializer pa) of Inl e \<Rightarrow> (AppErr e, s0) | Inr endpoint \<Rightarrow>
          (case connect endpoint of Inl e \<Rightarrow> (AppErr e, s0) | Inr _ \<Rightarrow>
            (let s = s0\<lparr>con_env := \<lparr>address_from = from_address, address_to = to_address\<rparr>\<rparr>;
                 run = (\<lambda>s. case console_lines to_bytes_be clock (has_option LOG_TIME pa) lines s of
                          (Inl e, s) \<Rightarrow> (AppErr e, s) | (Inr _, s) \<Rightarrow> (AppOk, s))
             in case get_simple console_DATA pa of
                  None \<Rightarrow> run s
                | Some txt \<Rightarrow>
                    (case parse_colon_data txt of None \<Rightarrow> (AppErr (''Invalid data `'' @ txt @ ''`: ''), s) | Some data \<Rightarrow>
                    (case write_addressing to_bytes_be from_address to_address asm_new of Inl e \<Rightarrow> (AppErr (pack_error_text e), s) | Inr a \<Rightarrow>
                    (case first_sent of Inl e \<Rightarrow> (AppErr e, s) | Inr _ \<Rightarrow>
                      (let s = s\<lparr>con_sent := con_sent s @ [fst (asm_done (append_crc8 (write_blob data a)))]\<rparr>
                       in if has_option console_EXIT pa then (AppOk, s) else run s))))))))))"

subsection \<open>Sessions\<close>

text \<open>What a user means to do, how it is typed, and what it does to the addresses and the bus.\<close>

datatype ConsoleAction = SetFrom i32 | SetTo i32 | Send bytes

fun typed :: "ConsoleAction \<Rightarrow> string" where
  "typed (SetFrom a) = ''>'' @ show_int (sint a)"
| "typed (SetTo a) = ''<'' @ show_int (sint a)"
| "typed (Send data) = format_colon_data data"

fun session_packets :: "ConsoleAction list \<Rightarrow> i32 \<Rightarrow> i32 \<Rightarrow> (i32 \<times> i32 \<times> bytes) list" where
  "session_packets [] f t = []"
| "session_packets (SetFrom a # actions) f t = session_packets actions a t"
| "session_packets (SetTo a # actions) f t = session_packets actions f a"
| "session_packets (Send data # actions) f t = (f, t, data) # session_packets actions f t"

text \<open>A raw packet with the given addresses and payload and a valid crc8.\<close>

definition is_packet_of :: "i32 \<times> i32 \<times> bytes \<Rightarrow> bytes \<Rightarrow> bool" where
  "is_packet_of m raw \<longleftrightarrow> is_packet_crc8_valid raw
     \<and> (case from_raw_packet_with_crc raw of
          Inl _ \<Rightarrow> False
        | Inr p \<Rightarrow> (pkt_from p, pkt_to p, pkt_payload p) = m \<and> fst (is_valid p))"

lemma show_int_ends:
  "show_int i \<noteq> []" "32 < (of_char (last (show_int i)) :: nat)" "(of_char (last (show_int i)) :: nat) < 128"
  "32 < (of_char (hd (show_int i)) :: nat)" "(of_char (hd (show_int i)) :: nat) < 128"
  using show_nat_digits [of "last (show_nat (nat (- i)))" "nat (- i)"] show_nat_digits [of "last (show_nat (nat i))" "nat i"]
    show_nat_digits [of "hd (show_nat (nat i))" "nat i"]
  by (auto simp: show_int_def)

lemma trim_show_int: "trim (show_int i) = show_int i" "trim (c # show_int i) = c # show_int i"
  if "32 < (of_char c :: nat)" "(of_char c :: nat) < 128" for c
  using show_int_ends [of i] that by (auto intro!: trim_id)

lemma parse_i32_show: "parse_i32 (show_int (sint a)) = Some a" for a :: i32
  using sint_ge [of a] sint_lt [of a] by (simp add: parse_i32_def parse_int_show_int)

lemma format_colon_data_ends:
  assumes "data \<noteq> []"
  shows "format_colon_data data \<noteq> []"
    "48 \<le> (of_char (hd (format_colon_data data)) :: nat)" "(of_char (hd (format_colon_data data)) :: nat) \<le> 57"
    "48 \<le> (of_char (last (format_colon_data data)) :: nat)" "(of_char (last (format_colon_data data)) :: nat) \<le> 57"
proof -
  have join: "join_with '':'' xs \<noteq> [] \<and> hd (join_with '':'' xs) = hd (hd xs) \<and> last (join_with '':'' xs) = last (last xs)"
    if "xs \<noteq> []" "list_all (\<lambda>x. x \<noteq> []) xs" for xs :: "string list"
    using that by (induction "'':''" xs rule: join_with.induct) auto
  have "data = butlast data @ [last data]" "data = hd data # tl data" using assms by simp_all
  then have *: "format_colon_data data \<noteq> []" "hd (format_colon_data data) = hd (show_nat (unat (hd data)))"
    "last (format_colon_data data) = last (show_nat (unat (last data)))"
    using join [of "map (\<lambda>b. show_nat (unat b)) data"] assms
    by (simp_all add: format_colon_data_def list_all_iff hd_map last_map)
  then show "format_colon_data data \<noteq> []" by simp
  show "48 \<le> (of_char (hd (format_colon_data data)) :: nat)" "(of_char (hd (format_colon_data data)) :: nat) \<le> 57"
    "48 \<le> (of_char (last (format_colon_data data)) :: nat)" "(of_char (last (format_colon_data data)) :: nat) \<le> 57"
    unfolding * using show_nat_digits hd_in_set last_in_set show_nat_nonempty by metis+
qed

lemma feed_set_from: "console_feed (typed (SetFrom a)) env =
    (response_new QueryAddressFrom None (Some (show_int (sint a))), env\<lparr>address_from := a\<rparr>)"
  using trim_show_int(2) [of "CHR ''>''" "sint a"] trim_show_int(1) [of "CHR ''>''" "sint a"]
  by (simp add: console_feed_def parse_i32_show console_query_def Let_def)

lemma feed_set_to: "console_feed (typed (SetTo a)) env =
    (response_new QueryAddressTo None (Some (show_int (sint a))), env\<lparr>address_to := a\<rparr>)"
  using trim_show_int(2) [of "CHR ''<''" "sint a"] trim_show_int(1) [of "CHR ''<''" "sint a"]
  by (simp add: console_feed_def parse_i32_show console_query_def Let_def)

lemma feed_send:
  assumes "data \<noteq> []"
  shows "console_feed (typed (Send data)) env =
    (with_addresses SendPacket (Some data) None (address_from env) (address_to env), env)"
proof -
  note ends = format_colon_data_ends [OF assms]
  have "trim (format_colon_data data) = format_colon_data data" using ends by (intro trim_id) auto
  moreover have "hd (format_colon_data data) \<notin> {CHR ''>'', CHR ''<'', CHR ''?''}" using ends by auto
  ultimately show ?thesis
    using ends(1) by (simp add: console_feed_def parse_format_colon_data [OF assms])
qed

lemma to_packet_is_packet_of:
  assumes "be_bytes to_bytes_be"
  shows "\<exists>raw. response_to_packet to_bytes_be (with_addresses SendPacket (Some data) None f t) = Inr raw \<and> is_packet_of (f, t, data) raw"
proof -
  define pb where "pb = packet_bytes to_bytes_be f t data"
  define p where "p = \<lparr>raw_packet = pb, pkt_from = f, pkt_to = t, pkt_payload = data, pkt_crc8 = None, pkt_valid_crc8 = None\<rparr>"
  have new: "packet_new pb = Inr p" using assms by (simp add: pb_def p_def packet_new_packet_bytes)
  have "response_to_packet to_bytes_be (with_addresses SendPacket (Some data) None f t) = Inr (pb @ [crc8 pb])"
    by (simp add: response_to_packet_def with_addresses_def write_addressing_new [OF assms] pb_def packet_bytes_def)
  moreover have "from_raw_packet_with_crc (pb @ [crc8 pb]) = Inr (p\<lparr>pkt_crc8 := Some (crc8 pb)\<rparr>)"
    using new by (simp add: from_raw_packet_with_crc_snoc)
  moreover have "fst (is_valid (p\<lparr>pkt_crc8 := Some (crc8 pb)\<rparr>))" using new by (simp add: is_valid_new)
  moreover have "is_packet_crc8_valid (pb @ [crc8 pb])" by (simp add: is_packet_crc8_valid_def crc8_def crc8_prefix_def)
  ultimately show ?thesis by (simp add: is_packet_of_def p_def)
qed

definition typed_line :: "int \<Rightarrow> ConsoleAction \<Rightarrow> (string + string) \<times> (string + unit) \<times> int" where
  "typed_line now action = (Inr (typed action), Inr (), now)"

lemma console_line_typed:
  assumes "be_bytes to_bytes_be" and "\<forall>data. action = Send data \<longrightarrow> data \<noteq> []"
  shows "\<exists>s' raws. console_line to_bytes_be clock log_times (typed action) (Inr ()) now s = (Inr (), s')
    \<and> con_sent s' = con_sent s @ raws
    \<and> (\<forall>actions. list_all2 is_packet_of (session_packets actions (address_from (con_env s')) (address_to (con_env s'))) rest
         \<longrightarrow> list_all2 is_packet_of (session_packets (action # actions) (address_from (con_env s)) (address_to (con_env s))) (raws @ rest))"
proof (cases action)
  case (SetFrom a)
  then show ?thesis
    by (intro exI [of _ "snd (console_line to_bytes_be clock log_times (typed action) (Inr ()) now s)"] exI [of _ "[]"])
      (simp add: console_line_def feed_set_from response_new_def con_println_def Let_def del: typed.simps)
next
  case (SetTo a)
  then show ?thesis
    by (intro exI [of _ "snd (console_line to_bytes_be clock log_times (typed action) (Inr ()) now s)"] exI [of _ "[]"])
      (simp add: console_line_def feed_set_to response_new_def con_println_def Let_def del: typed.simps)
next
  case (Send data)
  then have "data \<noteq> []" using assms(2) by simp
  obtain raw where "response_to_packet to_bytes_be (with_addresses SendPacket (Some data) None (address_from (con_env s)) (address_to (con_env s))) = Inr raw"
    and "is_packet_of (address_from (con_env s), address_to (con_env s), data) raw"
    using to_packet_is_packet_of [OF assms(1)] by blast
  moreover have "rsp_inquiry (with_addresses i d m f t) = i" for i d m f t by (simp add: with_addresses_def)
  ultimately show ?thesis using Send
    by (intro exI [of _ "snd (console_line to_bytes_be clock log_times (typed action) (Inr ()) now s)"] exI [of _ "[raw]"])
      (simp add: console_line_def feed_send [OF \<open>data \<noteq> []\<close>] con_println_def Let_def del: typed.simps)
qed



end
