(* ===== verification/Attach.thy ===== *)
theory Attach
  imports Commands
begin

text \<open>
  \<^verbatim>\<open>ub attachProcess\<close> (\<^verbatim>\<open>apps/attach_process.rs\<close>): the splitting of a command line into the program and
  its arguments, and the lines that go between the process and the bus.  Starting the process, what it
  prints and what the connection answers to the sends are inputs.
\<close>

definition PROGRAM :: CliEntry where
  "PROGRAM = \<lparr>names = [''a'', ''-program''], description = ''Application with arguments''\<rparr>"

definition ATTACH_ENTRIES :: "CliEntry list" where
  "ATTACH_ENTRIES = [RPC_HOST, RPC_PORT, LOOPBACK, PROGRAM]"

subsection \<open>Command lines\<close>

datatype SplitState = Normal | InQuote | InDoubleQuote

definition QUOTE :: char where
  "QUOTE = CHR 0x27"

definition DOUBLE_QUOTE :: char where
  "DOUBLE_QUOTE = CHR 0x22"

text \<open>The variables of the loop.\<close>

record Splitter =
  sp_state :: SplitState
  sp_result :: "string list"
  sp_current :: string
  sp_quoted :: bool

definition split_char :: "char \<Rightarrow> Splitter \<Rightarrow> Splitter" where
  "split_char c s =
     (case sp_state s of
        InQuote \<Rightarrow>
          if c = QUOTE then s\<lparr>sp_quoted := True, sp_state := Normal\<rparr> else s\<lparr>sp_current := sp_current s @ [c]\<rparr>
      | InDoubleQuote \<Rightarrow>
          if c = DOUBLE_QUOTE then s\<lparr>sp_quoted := True, sp_state := Normal\<rparr> else s\<lparr>sp_current := sp_current s @ [c]\<rparr>
      | Normal \<Rightarrow>
          if c = QUOTE then s\<lparr>sp_state := InQuote\<rparr>
          else if c = DOUBLE_QUOTE then s\<lparr>sp_state := InDoubleQuote\<rparr>
          else if c = CHR '' '' then
            (if sp_quoted s \<or> sp_current s \<noteq> [] then s\<lparr>sp_result := sp_result s @ [sp_current s], sp_current := []\<rparr> else s)
              \<lparr>sp_quoted := False\<rparr>
          else s\<lparr>sp_current := sp_current s @ [c], sp_quoted := False\<rparr>)"

definition splitter_new :: Splitter where
  "splitter_new = \<lparr>sp_state = Normal, sp_result = [], sp_current = [], sp_quoted = False\<rparr>"

definition translate_commandline :: "string \<Rightarrow> string + string list" where
  "translate_commandline to_process =
     (let s = fold split_char to_process splitter_new;
          result = (if sp_quoted s \<or> sp_current s \<noteq> [] then sp_result s @ [sp_current s] else sp_result s)
      in if sp_state s \<noteq> Normal then Inl (''unbalanced quotes in '' @ to_process) else Inr result)"

subsection \<open>The command\<close>

record AttachRun =
  at_out :: string
  at_err :: string
  at_sent :: "bytes list"
  at_end :: AppEnd

text \<open>What the listener writes to the process for a received packet.\<close>

definition to_process_line :: "bytes \<Rightarrow> string" where
  "to_process_line packet = format_colon_data packet @ newline"

text \<open>
  The lines of the process, with the answer to the send; \<^const>\<open>None\<close> is a failed read, which ends the
  loop.  The result is the text on the error output, without the reason of a failed parse, and the
  packets sent.
\<close>

fun process_lines :: "(string option \<times> (string + unit)) list \<Rightarrow> string \<times> bytes list" where
  "process_lines [] = ('''', [])"
| "process_lines ((None, _) # lines) = ('''', [])"
| "process_lines ((Some line, sent) # lines) =
     (let (err, packets) = process_lines lines
      in case parse_colon_data line of
           None \<Rightarrow> (''Not a packet from the process `'' @ line @ ''`: '' @ newline @ err, packets)
         | Some packet \<Rightarrow>
             (case sent of
                Inl e \<Rightarrow> (e @ newline @ err, packets)
              | Inr _ \<Rightarrow> (err, packet # packets)))"

definition attach_failed :: "string \<Rightarrow> AppEnd \<Rightarrow> AttachRun" where
  "attach_failed err e = \<lparr>at_out = '''', at_err = err, at_sent = [], at_end = e\<rparr>"

definition no_program :: AttachRun where
  "no_program =
     (case eprintln ''No program specified'' (print_help_and_exit ''UartbusAttachProcess'' 1 ATTACH_ENTRIES :: unit run) of
        Inl (exit_code, err) \<Rightarrow> attach_failed err (AppExit exit_code)
      | Inr _ \<Rightarrow> attach_failed '''' AppOk)"

definition attach_main ::
    "(string \<Rightarrow> string list \<Rightarrow> string + unit) \<Rightarrow> connect_api \<Rightarrow> (string option \<times> (string + unit)) list \<Rightarrow> string + unit
      \<Rightarrow> string list \<Rightarrow> AttachRun" where
  "attach_main spawn connect lines waited args =
     (case parse_or_help ''UartbusAttachProcess'' args ATTACH_ENTRIES of
        Inl (exit_code, err) \<Rightarrow> attach_failed err (AppExit exit_code)
      | Inr pa \<Rightarrow>
          (case get_simple PROGRAM pa of None \<Rightarrow> no_program | Some prog \<Rightarrow>
          (case translate_commandline prog of Inl e \<Rightarrow> attach_failed '''' (AppErr e) | Inr command \<Rightarrow>
          (case command of [] \<Rightarrow> no_program | program # arguments \<Rightarrow>
          (case spawn program arguments of
             Inl err \<Rightarrow> attach_failed '''' (AppErr (''Can'' @ [CHR 0x27] @ ''t start `'' @ program @ ''`: '' @ err))
           | Inr _ \<Rightarrow>
          (case open_cli_endpoint pa (loopback_initializer pa) of Inl e \<Rightarrow> attach_failed '''' (AppErr e) | Inr endpoint \<Rightarrow>
          (case connect endpoint of Inl e \<Rightarrow> attach_failed '''' (AppErr e) | Inr _ \<Rightarrow>
             (let (err, packets) = process_lines lines
              in \<lparr>at_out = ''Process STDOUT closed'' @ newline, at_err = err, at_sent = packets,
                  at_end = (case waited of Inl e \<Rightarrow> AppErr e | Inr _ \<Rightarrow> AppOk)\<rparr>))))))))"

subsection \<open>Quoting\<close>

text \<open>
  An argument in quotes: single quotes around it, and every single quote of it in double quotes of its
  own.
\<close>

definition quote_char :: "char \<Rightarrow> string" where
  "quote_char c = (if c = QUOTE then [QUOTE, DOUBLE_QUOTE, QUOTE, DOUBLE_QUOTE, QUOTE] else [c])"

definition quote :: "string \<Rightarrow> string" where
  "quote arg = [QUOTE] @ concat (map quote_char arg) @ [QUOTE]"

lemma fold_quoted_chars:
  "sp_state s = InQuote \<Longrightarrow>
   \<exists>q. fold split_char (concat (map quote_char arg)) s = s\<lparr>sp_current := sp_current s @ arg, sp_quoted := q\<rparr>"
proof (induction arg arbitrary: s)
  case Nil
  then show ?case by (intro exI [of _ "sp_quoted s"]) simp
next
  case (Cons c arg)
  have "\<exists>q. fold split_char (quote_char c) s = s\<lparr>sp_current := sp_current s @ [c], sp_quoted := q\<rparr>"
  proof (cases "c = QUOTE")
    case True
    with Cons.prems show ?thesis
      by (intro exI [of _ True], cases s) (simp add: quote_char_def split_char_def QUOTE_def DOUBLE_QUOTE_def)
  next
    case False
    with Cons.prems show ?thesis
      by (intro exI [of _ "sp_quoted s"]) (simp add: quote_char_def split_char_def)
  qed
  then obtain q where q: "fold split_char (quote_char c) s = s\<lparr>sp_current := sp_current s @ [c], sp_quoted := q\<rparr>" ..
  obtain q' where "fold split_char (concat (map quote_char arg)) (s\<lparr>sp_current := sp_current s @ [c], sp_quoted := q\<rparr>)
      = s\<lparr>sp_current := (sp_current s @ [c]) @ arg, sp_quoted := q'\<rparr>"
    using Cons.IH [of "s\<lparr>sp_current := sp_current s @ [c], sp_quoted := q\<rparr>"] Cons.prems by auto
  then show ?case using q by auto
qed

lemma fold_quote:
  assumes "sp_state s = Normal"
  shows "fold split_char (quote arg) s = s\<lparr>sp_current := sp_current s @ arg, sp_quoted := True\<rparr>"
proof -
  have 1: "split_char QUOTE s = s\<lparr>sp_state := InQuote\<rparr>" using assms by (simp add: split_char_def)
  obtain q where 2: "fold split_char (concat (map quote_char arg)) (s\<lparr>sp_state := InQuote\<rparr>)
      = s\<lparr>sp_state := InQuote, sp_current := sp_current s @ arg, sp_quoted := q\<rparr>"
    using fold_quoted_chars [of "s\<lparr>sp_state := InQuote\<rparr>" arg] by auto
  have "split_char QUOTE (s\<lparr>sp_state := InQuote, sp_current := sp_current s @ arg, sp_quoted := q\<rparr>)
      = s\<lparr>sp_current := sp_current s @ arg, sp_quoted := True\<rparr>"
    using assms by (cases s) (simp add: split_char_def)
  then show ?thesis by (simp add: quote_def 1 2)
qed

lemma fold_quoted_args:
  assumes "args \<noteq> []" and "sp_state s = Normal" and "sp_current s = []"
  shows "fold split_char (join_with '' '' (map quote args)) s
    = s\<lparr>sp_result := sp_result s @ butlast args, sp_current := last args, sp_quoted := True\<rparr>"
  using assms
proof (induction args arbitrary: s rule: induct_list012)
  case (3 x y zs)
  let ?s1 = "s\<lparr>sp_result := sp_result s @ [x], sp_quoted := False\<rparr>"
  have "split_char CHR '' '' (fold split_char (quote x) s) = ?s1"
    using 3(4,5) by (cases s) (simp add: fold_quote split_char_def QUOTE_def DOUBLE_QUOTE_def)
  then show ?case using 3(2) [of ?s1] 3(4,5) by (cases s) simp
qed (simp_all add: fold_quote)

text \<open>
  C40: Quoted arguments survive the command line: a list of arguments, whatever characters they have and
  even if they are empty, quoted and joined with spaces, is split into exactly these arguments.
\<close>

theorem commandline_is_split_into_its_arguments:
  "translate_commandline (join_with '' '' (map quote args)) = Inr args"
proof (cases "args = []")
  case False
  then show ?thesis
    using fold_quoted_args [OF False, of splitter_new]
    by (simp add: translate_commandline_def splitter_new_def)
qed (simp add: translate_commandline_def splitter_new_def)

text \<open>What the process prints as packets is sent: its other lines are reported and skipped.\<close>

lemma process_packets_are_sent:
  assumes "list_all (\<lambda>p. p \<noteq> []) packets"
  shows "process_lines (map (\<lambda>p. (Some (format_colon_data p), Inr ())) packets) = ('''', packets)"
  using assms by (induction packets) (simp_all add: parse_format_colon_data)

end
