(* ===== verification/Statistics.thy ===== *)
theory Statistics
  imports Commands Device Complex_Main
begin

text \<open>
  The commands that measure the bus: \<^verbatim>\<open>ub collisionPacketloss\<close> (\<^verbatim>\<open>apps/collision_packetloss.rs\<close>) and
  \<^verbatim>\<open>ub packetloss\<close> (\<^verbatim>\<open>apps/packetloss.rs\<close>).  The maps are red black trees keyed by integers, in the order of
  \<^verbatim>\<open>BTreeMap\<close>; of a \<^verbatim>\<open>HashMap\<close> only its size, its values and a lookup are used.  Results of the sends and of the
  pings, and readings of the interrupt flag are inputs.
\<close>

subsection \<open>Percentages\<close>

text \<open>
  A non-negative \<^verbatim>\<open>f64\<close> is a mantissa and a binary exponent; an operation gives the nearest double of the
  exact result, ties to the even mantissa.  The numbers here are neither subnormal nor too large.
\<close>

fun bit_length :: "nat \<Rightarrow> nat" where
  "bit_length n = (if n = 0 then 0 else Suc (bit_length (n div 2)))"

declare bit_length.simps [simp del]

definition half_even :: "nat \<Rightarrow> nat \<Rightarrow> nat" where
  "half_even a b =
     (let q = a div b; r = a mod b
      in if 2 * r < b \<or> 2 * r = b \<and> even q then q else q + 1)"

type_synonym f64 = "nat \<times> int"

definition f64_round :: "nat \<Rightarrow> nat \<Rightarrow> f64" where
  "f64_round n d =
     (if n = 0 then (0, 0)
      else let e = int (bit_length n) - int (bit_length d) - 53;
               e = (if 2 ^ 53 * (d * 2 ^ nat e) \<le> n * 2 ^ nat (- e) then e + 1 else e)
           in (half_even (n * 2 ^ nat (- e)) (d * 2 ^ nat e), e))"

definition f64_of :: "nat \<Rightarrow> f64" where
  "f64_of n = f64_round n 1"

fun f64_mul :: "f64 \<Rightarrow> f64 \<Rightarrow> f64" where
  "f64_mul (m, e) (m', e') = f64_round (m * m' * 2 ^ nat (e + e')) (2 ^ nat (- (e + e')))"

fun f64_div :: "f64 \<Rightarrow> f64 \<Rightarrow> f64" where
  "f64_div (m, e) (m', e') = f64_round (m * 2 ^ nat (e - e')) (m' * 2 ^ nat (e' - e))"

text \<open>\<^verbatim>\<open>{n:.2}\<close>: the hundredths of the exact value, ties to even, and their text.\<close>

fun hundredths :: "f64 \<Rightarrow> nat" where
  "hundredths (m, e) = half_even (100 * m * 2 ^ nat e) (2 ^ nat (- e))"

definition hundredths_text :: "bool \<Rightarrow> nat \<Rightarrow> string" where
  "hundredths_text negative k =
     (if negative then ''-'' else '''') @ show_nat (k div 100) @ ''.'' @ show_padded 2 (int (k mod 100))"

text \<open>\<^verbatim>\<open>format_double((100.0 * part as f64) / whole as f64)\<close>, also for a negative part.\<close>

definition percent_text :: "int \<Rightarrow> nat \<Rightarrow> string" where
  "percent_text part whole =
     (if whole = 0 then (if part = 0 then ''NaN'' else if part < 0 then ''-inf'' else ''inf'')
      else format_double (hundredths_text (part < 0)
             (hundredths (f64_div (f64_mul (f64_of 100) (f64_of (nat \<bar>part\<bar>))) (f64_of whole)))))"

subsection \<open>Collisions\<close>

definition COLLISION_ENTRIES :: "CliEntry list" where
  "COLLISION_ENTRIES = [RPC_HOST, RPC_PORT, FROM, INTERVAL, COUNT_OF_PACKETS]"

definition generate_packet_sequence :: "(int \<Rightarrow> bytes) \<Rightarrow> i32 \<Rightarrow> u32 \<Rightarrow> PackError + bytes" where
  "generate_packet_sequence to_bytes_be from_address sequence =
     (case write_addressing to_bytes_be from_address 0 asm_new of
        Inl e \<Rightarrow> Inl e
      | Inr a \<Rightarrow>
          (case write_packed_value to_bytes_be False (uint sequence) (write_blob [1, 1] a) of
             Inl e \<Rightarrow> Inl e
           | Inr a \<Rightarrow> Inr (fst (asm_done (append_crc8 a)))))"

record Statistic =
  replies :: "(int, (int, u32) rbt) rbt"
  collision_lengths :: "(nat, u32) rbt"

definition stat_default :: Statistic where
  "stat_default = \<lparr>replies = RBT.empty, collision_lengths = RBT.empty\<rparr>"

text \<open>\<^verbatim>\<open>*map.entry(key).or_insert(0) += 1\<close>, and the same in the map of a device.\<close>

definition count_up :: "'k :: linorder \<Rightarrow> ('k, u32) rbt \<Rightarrow> ('k, u32) rbt" where
  "count_up k m = RBT.insert k ((case RBT.lookup m k of Some n \<Rightarrow> n | None \<Rightarrow> 0) + 1) m"

definition count_reply :: "int \<Rightarrow> int \<Rightarrow> Statistic \<Rightarrow> Statistic" where
  "count_reply device sequence st =
     st\<lparr>replies := RBT.insert device
          (count_up sequence (case RBT.lookup (replies st) device of Some m \<Rightarrow> m | None \<Rightarrow> RBT.empty)) (replies st)\<rparr>"

definition stat_feed :: "i32 \<Rightarrow> bytes \<Rightarrow> Statistic \<Rightarrow> Statistic" where
  "stat_feed from_address packet st =
     (if 1 < length packet \<and> is_packet_crc8_valid packet then
        (case packet_new packet of
           Inl _ \<Rightarrow> st
         | Inr parsed \<Rightarrow>
             if pkt_to parsed \<noteq> from_address then st
             else (case unpack_value False (pkt_payload parsed) 3 of
                     Inl _ \<Rightarrow> st
                   | Inr (sequence, _) \<Rightarrow>
                       count_reply (sint (pkt_from parsed))
                         (if - (2 ^ 63) \<le> sequence \<and> sequence < 2 ^ 63 then sequence else - 1) st))
      else (let st = count_reply 0 0 st in st\<lparr>collision_lengths := count_up (length packet) (collision_lengths st)\<rparr>))"

definition map_size :: "(int, u32) rbt \<Rightarrow> nat" where
  "map_size m = length (RBT.entries m)"

definition duplicates_of :: "(int, u32) rbt \<Rightarrow> u32" where
  "duplicates_of responses = sum_list (map (\<lambda>v. v - 1) (filter (\<lambda>v. 1 < v) (map snd (RBT.entries responses))))"

definition render_device :: "int \<Rightarrow> (int, u32) rbt \<Rightarrow> u32 \<Rightarrow> string" where
  "render_device device responses sent =
     (if sent = 0 then ''''
      else if device = 0 then
        (let collided = (case RBT.lookup responses 0 of Some n \<Rightarrow> n | None \<Rightarrow> of_nat (map_size responses))
         in ''Statistic of collisions:'' @ tab @ ''Sent packets: '' @ show_nat (unat sent) @ tab @ ''Collided packets: ''
            @ show_nat (unat collided) @ tab @ ''Collision ratio: '' @ percent_text (uint collided) (unat sent) @ '' %'')
      else
        (let received = int (map_size responses); loss = uint sent - received; duplicates = duplicates_of responses
         in ''Statistic for bus device '' @ show_int device @ '': '' @ tab @ ''Sent packets: '' @ show_nat (unat sent) @ tab
            @ ''Received packets: '' @ show_int received @ tab @ ''Lost packets: '' @ show_int loss @ tab
            @ ''Packet loss ratio: '' @ percent_text loss (unat sent) @ '' %''
            @ (if 0 < duplicates
               then '' Duplication ('' @ show_nat (unat duplicates) @ '') ratio: '' @ percent_text (uint duplicates) (unat sent) @ '' %''
               else '''')))"

definition stat_render :: "Statistic \<Rightarrow> u32 \<Rightarrow> string" where
  "stat_render st sent =
     (if sent = 0 then ''No broadcast packet sent.''
      else if RBT.is_empty (replies st) then ''No broadcast response packet received.''
      else concat (map (\<lambda>(device, responses). render_device device responses sent @ newline) (RBT.entries (replies st)))
        @ ''Collisions: ''
        @ (if RBT.is_empty (collision_lengths st) then ''{}''
           else ''{'' @ newline
             @ concat (map (\<lambda>(len, count). tab @ [CHR 0x22] @ show_nat len @ [CHR 0x22] @ '':'' @ [CHR 0x22]
                 @ show_nat (unat count) @ [CHR 0x22] @ newline) (RBT.entries (collision_lengths st)))
             @ ''}''))"

text \<open>
  The sending loop: every round has the reading of the interrupt flag before it and the answer to the
  send.  The result is the text printed, the packets sent and how the loop ended: \<^const>\<open>None\<close> when it is
  still running.
\<close>

datatype LoopEnd = Stopped | SendFailed string | Aborted string

fun collision_loop ::
    "(int \<Rightarrow> bytes) \<Rightarrow> i32 \<Rightarrow> i64 \<Rightarrow> i64 \<Rightarrow> (bool \<times> (string + unit)) list \<Rightarrow> string \<times> bytes list \<times> LoopEnd option" where
  "collision_loop to_bytes_be from_address count i [] =
     ('''', [], if i <s count \<or> count \<le>s 0 then None else Some Stopped)"
| "collision_loop to_bytes_be from_address count i ((interrupted, answer) # rounds) =
     (if (i <s count \<or> count \<le>s 0) \<and> \<not> interrupted then
        (case generate_packet_sequence to_bytes_be from_address (ucast i) of
           Inl e \<Rightarrow> ('''', [], Some (Aborted (pack_error_text e)))
         | Inr packet \<Rightarrow>
             (case answer of
                Inl err \<Rightarrow> ('''', [], Some (SendFailed err))
              | Inr _ \<Rightarrow>
                  let (out, sent, r) = collision_loop to_bytes_be from_address count (i + 1) rounds
                  in (show_int (sint i) @ ''. broadcast ping '' @ newline @ out, packet # sent, r)))
      else ('''', [], Some Stopped))"

text \<open>
  The command; \<open>received\<close> is what the listener was fed until the end, \<open>interrupted\<close> the reading of the flag
  after the loop.
\<close>

definition collision_main ::
    "(int \<Rightarrow> bytes) \<Rightarrow> connect_api \<Rightarrow> (bool \<times> (string + unit)) list \<Rightarrow> bool \<Rightarrow> bytes list \<Rightarrow> string list
      \<Rightarrow> string \<times> bytes list \<times> AppEnd option" where
  "collision_main to_bytes_be connect rounds interrupted received args =
     (let failed = (\<lambda>e. ('''', [], Some e))
      in case parse_or_help ''UartbusCollisionPacketloss'' args COLLISION_ENTRIES of
        Inl (exit_code, _) \<Rightarrow> failed (AppExit exit_code)
      | Inr pa \<Rightarrow>
          (case parse_from pa of Inl e \<Rightarrow> failed (AppErr e) | Inr from_address \<Rightarrow>
          (case parse_or parse_u64 INTERVAL pa 1000 of Inl e \<Rightarrow> failed (AppErr e) | Inr interval \<Rightarrow>
          (case parse_or parse_i64 COUNT_OF_PACKETS pa 0 of Inl e \<Rightarrow> failed (AppErr e) | Inr count \<Rightarrow>
          (case open_cli_endpoint pa None of Inl e \<Rightarrow> failed (AppErr e) | Inr endpoint \<Rightarrow>
          (case connect endpoint of Inl e \<Rightarrow> failed (AppErr e) | Inr _ \<Rightarrow>
            (let (out, sent, r) = collision_loop to_bytes_be from_address (word_of_int count) 0 rounds;
                 statistic = stat_render (fold (stat_feed from_address) received stat_default) (of_nat (length sent)) @ newline
             in case r of
                  None \<Rightarrow> (out, sent, None)
                | Some (Aborted e) \<Rightarrow> (out, sent, Some (AppErr e))
                | Some (SendFailed e) \<Rightarrow> (out @ statistic, sent, Some (AppErr e))
                | Some Stopped \<Rightarrow>
                    (out @ (if interrupted then '''' else ''Last turn, waiting a bit for the last packets.'' @ newline) @ statistic,
                     sent, Some AppOk))))))))"

subsection \<open>Packet loss\<close>

definition LOSS_TIMEOUT :: CliEntry where
  "LOSS_TIMEOUT = \<lparr>names = [''l'', ''-loss-time''], description = ''Packet response timeout in milisec''\<rparr>"

definition PACKETLOSS_ENTRIES :: "CliEntry list" where
  "PACKETLOSS_ENTRIES = [RPC_HOST, RPC_PORT, FROM, TO, INTERVAL, COUNT_OF_PACKETS, LOSS_TIMEOUT]"

definition render_statistic :: "u64 \<Rightarrow> u64 \<Rightarrow> string" where
  "render_statistic pass loss =
     ''Statistic:'' @ newline @ tab @ ''Sent packets: '' @ show_nat (unat (pass + loss)) @ newline
     @ tab @ ''Received packets: '' @ show_nat (unat pass) @ newline
     @ tab @ ''Lost packets: '' @ show_nat (unat loss) @ newline
     @ tab @ ''Packet loss ratio: '' @ percent_text (uint loss) (unat (loss + pass)) @ '' %''"

text \<open>The results of the pings; the loop is still running when they end before it does.\<close>

fun packetloss_loop :: "i64 \<Rightarrow> i64 \<Rightarrow> (RpcError + unit) list \<Rightarrow> u64 \<Rightarrow> u64 \<Rightarrow> string \<times> (u64 \<times> u64) option" where
  "packetloss_loop count i [] pass loss = ('''', if i <s count \<or> count \<le>s 0 then None else Some (pass, loss))"
| "packetloss_loop count i (r # results) pass loss =
     (if i <s count \<or> count \<le>s 0 then
        (case r of
           Inr _ \<Rightarrow>
             let (out, e) = packetloss_loop count (i + 1) results (pass + 1) loss
             in (show_int (sint i) @ ''. pong'' @ newline @ out, e)
         | Inl (RpcTransaction _) \<Rightarrow>
             let (out, e) = packetloss_loop count (i + 1) results pass (loss + 1)
             in (show_int (sint i) @ ''. -- loss --'' @ newline @ out, e)
         | Inl _ \<Rightarrow> ('''', Some (pass, loss)))
      else ('''', Some (pass, loss)))"

text \<open>The pings of the device with an address and a timeout over a bus that was connected.\<close>

definition packetloss_main ::
    "(string \<Rightarrow> u16 \<Rightarrow> i32 \<Rightarrow> string + 's) \<Rightarrow> ('s \<Rightarrow> i32 \<Rightarrow> u64 \<Rightarrow> (RpcError + unit) list) \<Rightarrow> string list \<Rightarrow> string \<times> AppEnd option" where
  "packetloss_main connect pings args =
     (let failed = (\<lambda>e. ('''', Some e))
      in case parse_or_help ''UartbusPacketloss'' args PACKETLOSS_ENTRIES of
        Inl (exit_code, _) \<Rightarrow> failed (AppExit exit_code)
      | Inr pa \<Rightarrow>
          (case parse_or parse_i32 TO pa (- 1) of Inl e \<Rightarrow> failed (AppErr e) | Inr to_address \<Rightarrow>
          (case parse_or parse_u64 INTERVAL pa 1000 of Inl e \<Rightarrow> failed (AppErr e) | Inr interval \<Rightarrow>
          (case parse_or parse_i64 COUNT_OF_PACKETS pa 0 of Inl e \<Rightarrow> failed (AppErr e) | Inr count \<Rightarrow>
          (case parse_or parse_u64 LOSS_TIMEOUT pa 3000 of Inl e \<Rightarrow> failed (AppErr e) | Inr timeout \<Rightarrow>
          (case cli_bus_connect connect pa of Inl e \<Rightarrow> failed (AppErr e) | Inr bus \<Rightarrow>
          (case packetloss_loop (word_of_int count) 0 (pings bus to_address timeout) 0 0 of
             (out, None) \<Rightarrow> (out, None)
           | (out, Some (pass, loss)) \<Rightarrow>
               (out @ (if pass \<noteq> 0 \<or> loss \<noteq> 0 then render_statistic pass loss @ newline else ''''), Some AppOk))))))))"

subsection \<open>Rounding\<close>

definition f64_value :: "f64 \<Rightarrow> real" where
  "f64_value x = (case x of (m, e) \<Rightarrow> real m * 2 ^ nat e / 2 ^ nat (- e))"

lemma two_powers: "(2 :: real) ^ nat (e + 1) / 2 ^ nat (- (e + 1)) = 2 * (2 ^ nat e / 2 ^ nat (- e))"
proof (cases "0 \<le> e")
  case True
  then have "nat (e + 1) = Suc (nat e)" "nat (- (e + 1)) = 0" "nat (- e) = 0" by auto
  then show ?thesis by simp
next
  case False
  then have "nat (e + 1) = 0" "nat (- e) = Suc (nat (- (e + 1)))" "nat e = 0" by auto
  then show ?thesis by simp
qed

lemma bit_length_0 [simp]: "bit_length 0 = 0"
  by (simp add: bit_length.simps)

lemma bit_length_bounds: "0 < n \<Longrightarrow> 2 ^ (bit_length n - 1) \<le> n" "n < 2 ^ bit_length n"
proof (induction n rule: bit_length.induct)
  case (1 n)
  {
    case 1
    then show ?case using \<open>n \<noteq> 0 \<Longrightarrow> 0 < n div 2 \<Longrightarrow> 2 ^ (bit_length (n div 2) - 1) \<le> n div 2\<close>
      by (cases "n div 2 = 0"; cases "bit_length (n div 2)") (auto simp: bit_length.simps [of n] bit_length.simps [of "n div 2"])
  next
    case 2
    then show ?case using \<open>n \<noteq> 0 \<Longrightarrow> n div 2 < 2 ^ bit_length (n div 2)\<close>
      by (cases "n = 0") (auto simp: bit_length.simps [of n])
  }
qed

lemma half_even_error:
  assumes "0 < b"
  shows "\<bar>real (half_even a b) - real a / real b\<bar> \<le> 1 / 2"
proof -
  have "a = b * (a div b) + a mod b" by simp
  then have "real a = real b * real (a div b) + real (a mod b)" by (metis of_nat_add of_nat_mult)
  then have a: "real a / real b = real (a div b) + real (a mod b) / real b" using assms by (simp add: field_simps)
  have r: "real (a mod b) / real b < 1" "0 \<le> real (a mod b) / real b" using assms by simp_all
  show ?thesis
  proof (cases "2 * (a mod b) \<le> b \<and> half_even a b = a div b")
    case True
    then have "2 * real (a mod b) \<le> real b" by linarith
    then have "real (a mod b) / real b \<le> 1 / 2" using assms by (simp add: field_simps)
    then show ?thesis using True a r by simp
  next
    case False
    then have h: "half_even a b = a div b + 1" "b \<le> 2 * (a mod b)" by (auto simp: half_even_def Let_def split: if_splits)
    from h(2) have "real b \<le> 2 * real (a mod b)" by linarith
    then have "1 / 2 \<le> real (a mod b) / real b" using assms by (simp add: field_simps)
    then show ?thesis using h(1) a r by simp
  qed
qed

lemma half_even_exact: "0 < b \<Longrightarrow> half_even (q * b) b = q"
  by (simp add: half_even_def)

text \<open>The exponent is chosen such that the mantissa has at least 53 bits before the rounding.\<close>

lemma f64_round_cases:
  assumes "0 < n" and "0 < d"
  obtains e where "f64_round n d = (half_even (n * 2 ^ nat (- e)) (d * 2 ^ nat e), e)"
    and "2 ^ 52 * (2 ^ nat e / 2 ^ nat (- e)) \<le> real n / real d"
proof -
  define e where "e = int (bit_length n) - int (bit_length d) - 53"
  define w where "w = (2 :: real) ^ nat e / 2 ^ nat (- e)"
  have "2 ^ bit_length n \<le> 2 * n"
    using bit_length_bounds(1) [OF assms(1)] assms(1) by (cases "bit_length n") simp_all
  then have "2 ^ bit_length n \<le> 2 * real n" by (metis of_nat_le_iff of_nat_mult of_nat_numeral of_nat_power)
  moreover have "real d \<le> 2 ^ bit_length d"
    using bit_length_bounds(2) [of d] by (metis less_imp_le of_nat_le_iff of_nat_numeral of_nat_power)
  moreover have "2 ^ bit_length n = 2 ^ 53 * w * 2 ^ bit_length d"
  proof (cases "0 \<le> e")
    case True
    then have "bit_length n = 53 + nat e + bit_length d" by (simp add: e_def)
    then show ?thesis using True by (simp add: w_def power_add)
  next
    case False
    then have "bit_length n + nat (- e) = 53 + bit_length d" by (simp add: e_def)
    then have "(2 :: real) ^ bit_length n * 2 ^ nat (- e) = 2 ^ 53 * 2 ^ bit_length d" by (metis power_add)
    then show ?thesis using False by (simp add: w_def field_simps)
  qed
  moreover have "0 < w" by (simp add: w_def)
  moreover from calculation(2,4) have "2 ^ 53 * w * real d \<le> 2 ^ 53 * w * 2 ^ bit_length d" by (intro mult_left_mono) simp_all
  ultimately have "2 ^ 53 * w * real d \<le> 2 * real n" by (metis order_trans)
  then have low: "2 ^ 52 * w \<le> real n / real d" using assms(2) by (simp add: field_simps)
  show ?thesis
  proof (cases "2 ^ 53 * (d * 2 ^ nat e) \<le> n * 2 ^ nat (- e)")
    case True
    then have "real (2 ^ 53 * (d * 2 ^ nat e)) \<le> real (n * 2 ^ nat (- e))" by (simp only: of_nat_le_iff)
    then have "2 ^ 53 * (real d * 2 ^ nat e) / (real d * 2 ^ nat (- e)) \<le> real n * 2 ^ nat (- e) / (real d * 2 ^ nat (- e))"
      by (intro divide_right_mono) simp_all
    then have "2 ^ 52 * (2 * w) \<le> real n / real d" using assms(2) by (simp add: w_def)
    then have "2 ^ 52 * (2 ^ nat (e + 1) / 2 ^ nat (- (e + 1))) \<le> real n / real d" unfolding two_powers w_def .
    moreover have "f64_round n d = (half_even (n * 2 ^ nat (- (e + 1))) (d * 2 ^ nat (e + 1)), e + 1)"
      using True assms by (simp add: f64_round_def e_def [symmetric] Let_def)
    ultimately show ?thesis by (rule that [rotated])
  next
    case False
    then have "f64_round n d = (half_even (n * 2 ^ nat (- e)) (d * 2 ^ nat e), e)"
      using assms by (simp add: f64_round_def e_def [symmetric] Let_def)
    then show ?thesis using low unfolding w_def by (rule that)
  qed
qed

lemma scaled_quotient: "real (n * 2 ^ nat (- e)) / real (d * 2 ^ nat e) = real n / real d / (2 ^ nat e / 2 ^ nat (- e))"
  by simp

lemma f64_round_error:
  assumes "0 < d"
  shows "\<bar>f64_value (f64_round n d) - real n / real d\<bar> \<le> real n / real d / 2 ^ 53"
proof (cases "n = 0")
  case False
  with assms obtain e where e: "f64_round n d = (half_even (n * 2 ^ nat (- e)) (d * 2 ^ nat e), e)"
    and low: "2 ^ 52 * (2 ^ nat e / 2 ^ nat (- e)) \<le> real n / real d" using f64_round_cases by blast
  define w where "w = (2 :: real) ^ nat e / 2 ^ nat (- e)"
  have w: "0 < w" by (simp add: w_def)
  let ?m = "real (half_even (n * 2 ^ nat (- e)) (d * 2 ^ nat e))"
  have "\<bar>?m - real n / real d / w\<bar> \<le> 1 / 2"
    using half_even_error [of "d * 2 ^ nat e" "n * 2 ^ nat (- e)"] assms unfolding scaled_quotient w_def by simp
  then have "\<bar>?m - real n / real d / w\<bar> * w \<le> w / 2" using w by (simp add: field_simps)
  moreover have "\<bar>?m - real n / real d / w\<bar> * w = \<bar>?m * w - real n / real d\<bar>"
  proof -
    have "(?m - real n / real d / w) * w = ?m * w - real n / real d" using w by (simp add: left_diff_distrib)
    then show ?thesis using w by (metis abs_mult abs_of_pos)
  qed
  moreover have "f64_value (f64_round n d) = ?m * w" by (simp add: e f64_value_def w_def)
  ultimately have "\<bar>f64_value (f64_round n d) - real n / real d\<bar> \<le> w / 2" by metis
  moreover have "w / 2 \<le> x / 2 ^ 53" if "2 ^ 52 * w \<le> x" for x :: real using that by simp
  ultimately show ?thesis using low unfolding w_def [symmetric] by (meson order_trans)
qed (simp add: f64_round_def f64_value_def)

lemma f64_round_exact:
  assumes "0 < d" and "N < 2 ^ 53" and "n = N * d"
  shows "f64_value (f64_round n d) = real N"
proof (cases "n = 0")
  case False
  with assms obtain e where e: "f64_round n d = (half_even (n * 2 ^ nat (- e)) (d * 2 ^ nat e), e)"
    and low: "2 ^ 52 * (2 ^ nat e / 2 ^ nat (- e)) \<le> real n / real d" using f64_round_cases by blast
  have "e \<le> 0"
  proof (rule ccontr)
    assume "\<not> e \<le> 0"
    then obtain k where "nat e = Suc k" "nat (- e) = 0" by (cases "nat e") auto
    then have "2 ^ 53 * 2 ^ k \<le> real N" using low assms by simp
    moreover have "(2 :: real) ^ 53 \<le> 2 ^ 53 * 2 ^ k" by simp
    moreover have "real N < 2 ^ 53" using assms(2) by (metis of_nat_less_iff of_nat_numeral of_nat_power)
    ultimately show False by (meson leD order_trans)
  qed
  then have "half_even (n * 2 ^ nat (- e)) (d * 2 ^ nat e) = N * 2 ^ nat (- e)"
    using half_even_exact [OF assms(1), of "N * 2 ^ nat (- e)"] assms(3) by (simp add: ac_simps)
  then show ?thesis using \<open>e \<le> 0\<close> by (simp add: e f64_value_def)
qed (use assms in \<open>simp add: f64_round_def f64_value_def\<close>)

lemma f64_of_exact: "n < 2 ^ 53 \<Longrightarrow> f64_value (f64_of n) = real n"
  unfolding f64_of_def by (rule f64_round_exact) simp_all

lemma f64_quotients:
  "real (m * m' * 2 ^ nat (e + e')) / real (2 ^ nat (- (e + e'))) = f64_value (m, e) * f64_value (m', e')"
  "real (m * 2 ^ nat (e - e')) / real (m' * 2 ^ nat (e' - e)) = f64_value (m, e) / f64_value (m', e')"
proof -
  have p: "(2 :: real) ^ nat x / 2 ^ nat (- x) = 2 powi x" for x :: int by (auto simp: power_int_def field_simps)
  have v: "f64_value (m, x) = real m * 2 powi x" for m x by (simp add: f64_value_def flip: p)
  have "real (m * m' * 2 ^ nat (e + e')) / real (2 ^ nat (- (e + e'))) = real m * real m' * (2 ^ nat (e + e') / 2 ^ nat (- (e + e')))"
    by simp
  also have "\<dots> = f64_value (m, e) * f64_value (m', e')" unfolding p v by (simp add: power_int_add)
  finally show "real (m * m' * 2 ^ nat (e + e')) / real (2 ^ nat (- (e + e'))) = f64_value (m, e) * f64_value (m', e')" .
  have "real (m * 2 ^ nat (e - e')) / real (m' * 2 ^ nat (e' - e)) = real m / real m' * (2 ^ nat (e - e') / 2 ^ nat (- (e - e')))"
    by simp
  also have "\<dots> = f64_value (m, e) / f64_value (m', e')" unfolding p v by (simp add: power_int_diff)
  finally show "real (m * 2 ^ nat (e - e')) / real (m' * 2 ^ nat (e' - e)) = f64_value (m, e) / f64_value (m', e')" .
qed

lemma f64_mul_exact:
  assumes "f64_value x = real a" and "f64_value y = real b" and "a * b < 2 ^ 53"
  shows "f64_value (f64_mul x y) = real (a * b)"
proof -
  obtain m e m' e' where xy: "x = (m, e)" "y = (m', e')" by (cases x, cases y)
  let ?n = "m * m' * 2 ^ nat (e + e')" and ?d = "2 ^ nat (- (e + e')) :: nat"
  have "real ?n / real ?d = real (a * b)" unfolding f64_quotients(1) using assms(1,2) xy by simp
  then have "real ?n = real (a * b * ?d)" by (simp add: field_simps)
  then have "?n = a * b * ?d" by (simp only: of_nat_eq_iff)
  then show ?thesis using f64_round_exact [of ?d "a * b" ?n] assms(3) xy by simp
qed

lemma f64_div_error:
  assumes "0 < f64_value y"
  shows "\<bar>f64_value (f64_div x y) - f64_value x / f64_value y\<bar> \<le> f64_value x / f64_value y / 2 ^ 53"
proof -
  obtain m e m' e' where xy: "x = (m, e)" "y = (m', e')" by (cases x, cases y)
  then have "0 < m' * 2 ^ nat (e' - e)" using assms by (cases m') (simp_all add: f64_value_def)
  then show ?thesis using f64_round_error [of "m' * 2 ^ nat (e' - e)" "m * 2 ^ nat (e - e')"] xy
    unfolding f64_quotients(2) by simp
qed

lemma hundredths_error: "\<bar>real (hundredths x) - 100 * f64_value x\<bar> \<le> 1 / 2"
proof -
  obtain m e where "x = (m, e)" by (cases x)
  then show ?thesis using half_even_error [of "2 ^ nat (- e)" "100 * m * 2 ^ nat e"] by (simp add: f64_value_def mult.assoc)
qed

text \<open>
  C37: The printed percentages are correctly rounded: although the ratio is computed with floating point
  numbers and rounded twice, the two fraction digits that are printed are the nearest ones of the exact
  ratio, for all counts up to 2 ^ 32, also for a negative loss.
\<close>

theorem percent_is_correctly_rounded:
  assumes "\<bar>part\<bar> \<le> 2 ^ 32" and "0 < whole" and "whole < 2 ^ 53"
  shows "\<exists>k. percent_text part whole = format_double (hundredths_text (part < 0) k)
    \<and> 2 * \<bar>int k * int whole - 10000 * \<bar>part\<bar>\<bar> \<le> int whole"
proof -
  define a where "a = nat \<bar>part\<bar>"
  define q where "q = f64_div (f64_mul (f64_of 100) (f64_of a)) (f64_of whole)"
  have a: "a \<le> 2 ^ 32" using assms(1) by (simp add: a_def)
  have x: "f64_value (f64_mul (f64_of 100) (f64_of a)) = real (100 * a)"
    using a by (intro f64_mul_exact f64_of_exact) simp_all
  have y: "f64_value (f64_of whole) = real whole" using assms(3) by (rule f64_of_exact)
  define r where "r = real a / real whole"
  have v: "\<bar>f64_value q - 100 * r\<bar> \<le> 100 * r / 2 ^ 53"
    using f64_div_error [of "f64_of whole" "f64_mul (f64_of 100) (f64_of a)"] assms(2) by (simp add: q_def x y r_def)
  have "\<bar>k - 10000 * r\<bar> \<le> 1 / 2 + 100 * u" if "\<bar>v - 100 * r\<bar> \<le> u" "\<bar>k - 100 * v\<bar> \<le> 1 / 2" for k v u :: real
    using that unfolding abs_le_iff by linarith
  from this [OF v hundredths_error] have "\<bar>real (hundredths q) - 10000 * r\<bar> \<le> 1 / 2 + 10000 * r / 2 ^ 53" by simp
  then have "\<bar>real (hundredths q) - 10000 * r\<bar> * (2 * real whole) \<le> (1 / 2 + 10000 * r / 2 ^ 53) * (2 * real whole)"
    by (intro mult_right_mono) simp_all
  moreover have "\<bar>real (hundredths q) - 10000 * r\<bar> * (2 * real whole) = 2 * \<bar>real (hundredths q) * real whole - 10000 * real a\<bar>"
  proof -
    have "(real (hundredths q) - 10000 * r) * real whole = real (hundredths q) * real whole - 10000 * real a"
      using assms(2) by (simp add: r_def left_diff_distrib)
    then have "\<bar>real (hundredths q) - 10000 * r\<bar> * real whole = \<bar>real (hundredths q) * real whole - 10000 * real a\<bar>"
      by (metis abs_mult abs_of_nat)
    then show ?thesis by simp
  qed
  moreover have "(1 / 2 + 10000 * r / 2 ^ 53) * (2 * real whole) = real whole + 20000 * real a / 2 ^ 53"
    using assms(2) by (simp add: r_def field_simps)
  moreover have "20000 * real a / 2 ^ 53 < 1"
  proof -
    have "real a \<le> 2 ^ 32" using a by (metis of_nat_le_iff of_nat_numeral of_nat_power)
    then show ?thesis by simp
  qed
  ultimately have "2 * \<bar>real (hundredths q) * real whole - 10000 * real a\<bar> < real whole + 1" by linarith
  then have "real_of_int (2 * \<bar>int (hundredths q) * int whole - 10000 * int a\<bar>) < real_of_int (int whole + 1)" by simp
  then have "2 * \<bar>int (hundredths q) * int whole - 10000 * int a\<bar> \<le> int whole" by (simp only: of_int_less_iff zless_add1_eq order_le_less)
  then show ?thesis using assms(2) by (intro exI [of _ "hundredths q"]) (simp add: percent_text_def q_def a_def)
qed

theorem percent_is_correctly_rounded_witness:
  "\<exists>k. percent_text (- 1) 3 = format_double (hundredths_text True k) \<and> 2 * \<bar>int k * 3 - 10000\<bar> \<le> 3"
  using percent_is_correctly_rounded [of "- 1" 3] by simp

subsection \<open>What is counted\<close>

text \<open>What can be heard on the bus: the answer of a device to this address, a valid packet to another one, a damaged one.\<close>

datatype Heard = Answer i32 u32 | Foreign i32 i32 bytes | Damaged bytes

definition with_crc8 :: "bytes \<Rightarrow> bytes" where
  "with_crc8 data = data @ [crc8 data]"

fun raw_of :: "(int \<Rightarrow> bytes) \<Rightarrow> i32 \<Rightarrow> Heard \<Rightarrow> bytes" where
  "raw_of to_bytes_be me (Answer device sequence) =
     with_crc8 (packet_bytes to_bytes_be device me ([0, 1, 1] @ varint_bytes to_bytes_be False (uint sequence)))"
| "raw_of to_bytes_be me (Foreign from_address to_address payload) = with_crc8 (packet_bytes to_bytes_be from_address to_address payload)"
| "raw_of to_bytes_be me (Damaged raw) = raw"

fun heard_ok :: "i32 \<Rightarrow> Heard \<Rightarrow> bool" where
  "heard_ok me (Answer device sequence) \<longleftrightarrow> device \<noteq> 0"
| "heard_ok me (Foreign from_address to_address payload) \<longleftrightarrow> to_address \<noteq> me"
| "heard_ok me (Damaged raw) \<longleftrightarrow> \<not> (1 < length raw \<and> is_packet_crc8_valid raw)"

fun is_damaged :: "Heard \<Rightarrow> bool" where
  "is_damaged (Damaged raw) \<longleftrightarrow> True"
| "is_damaged _ \<longleftrightarrow> False"

definition counted :: "('k :: linorder, u32) rbt \<Rightarrow> 'k \<Rightarrow> u32" where
  "counted m k = (case RBT.lookup m k of Some n \<Rightarrow> n | None \<Rightarrow> 0)"

definition reply_count :: "Statistic \<Rightarrow> int \<Rightarrow> int \<Rightarrow> u32" where
  "reply_count st device sequence = (case RBT.lookup (replies st) device of Some m \<Rightarrow> counted m sequence | None \<Rightarrow> 0)"

lemma counted_count_up: "counted (count_up k m) j = counted m j + of_bool (j = k)"
  by (auto simp: counted_def count_up_def)

lemma counted_empty [simp]: "counted RBT.empty k = 0"
  by (simp add: counted_def)

lemma reply_count_count_reply:
  "reply_count (count_reply device sequence st) d q = reply_count st d q + of_bool (d = device \<and> q = sequence)"
  by (cases "d = device"; cases "RBT.lookup (replies st) device") (simp_all add: reply_count_def count_reply_def counted_count_up)

lemma collision_lengths_count_reply [simp]: "collision_lengths (count_reply d q st) = collision_lengths st"
  by (simp add: count_reply_def)

lemma reply_count_lengths [simp]: "reply_count (st\<lparr>collision_lengths := m\<rparr>) d q = reply_count st d q"
  by (simp add: reply_count_def)

lemma feed_valid_packet:
  assumes "be_bytes to_bytes_be"
  shows "stat_feed me (with_crc8 (packet_bytes to_bytes_be f t payload)) st =
    (if t \<noteq> me then st
     else case unpack_value False (payload @ [crc8 (packet_bytes to_bytes_be f t payload)]) 3 of
            Inl _ \<Rightarrow> st
          | Inr (sequence, _) \<Rightarrow> count_reply (sint f) (if - (2 ^ 63) \<le> sequence \<and> sequence < 2 ^ 63 then sequence else - 1) st)"
proof -
  let ?pb = "packet_bytes to_bytes_be f t payload"
  have "with_crc8 ?pb = packet_bytes to_bytes_be f t (payload @ [crc8 ?pb])" by (simp add: with_crc8_def packet_bytes_def)
  then have new: "packet_new (with_crc8 ?pb) = packet_new (packet_bytes to_bytes_be f t (payload @ [crc8 ?pb]))" by (rule arg_cong)
  have "0 < length (varint_bytes to_bytes_be True (sint t))"
    using unpack_value_bound(1,2) unpack_varint_bytes [OF assms, of True "sint t" "[]" "[]"] by fastforce
  then have "1 < length (with_crc8 ?pb)" by (simp add: with_crc8_def packet_bytes_def)
  moreover have "is_packet_crc8_valid (with_crc8 ?pb)"
    by (simp add: with_crc8_def is_packet_crc8_valid_def crc8_def crc8_prefix_def)
  ultimately show ?thesis
    by (auto simp: stat_feed_def new packet_new_packet_bytes [OF assms] split: sum.splits)
qed

lemma feed_answer:
  assumes "be_bytes to_bytes_be"
  shows "stat_feed me (raw_of to_bytes_be me (Answer device sequence)) st = count_reply (sint device) (uint sequence) st"
proof -
  have "0 \<le> uint sequence" "uint sequence < 2 ^ 32" using uint_lt2p [of sequence] by simp_all
  moreover have "- (2 ^ 63) \<le> (0 :: int)" "(2 :: int) ^ 32 \<le> 2 ^ 63" by simp_all
  ultimately have "- (2 ^ 63) \<le> uint sequence" "uint sequence < 2 ^ 63" by (meson order_trans, meson order_less_le_trans)
  moreover have "unpack_value False ([0, 1, 1] @ varint_bytes to_bytes_be False (uint sequence) @ rest) (length ([0, 1, 1] :: bytes)) =
      Inr (uint sequence, length (varint_bytes to_bytes_be False (uint sequence)))" for rest
    by (rule unpack_varint_bytes [OF assms]) simp
  ultimately show ?thesis by (simp add: feed_valid_packet [OF assms] numeral_3_eq_3)
qed

lemma feed_damaged:
  assumes "heard_ok me (Damaged raw)"
  shows "stat_feed me raw st =
    (let st = count_reply 0 0 st in st\<lparr>collision_lengths := count_up (length raw) (collision_lengths st)\<rparr>)"
  unfolding stat_feed_def using assms by (simp only: heard_ok.simps if_False)

lemma feed_heard:
  assumes "be_bytes to_bytes_be" and "heard_ok me h"
  shows "device \<noteq> 0 \<Longrightarrow> reply_count (stat_feed me (raw_of to_bytes_be me h) st) (sint device) (uint sequence)
      = reply_count st (sint device) (uint sequence) + of_bool (h = Answer device sequence)"
    and "reply_count (stat_feed me (raw_of to_bytes_be me h) st) 0 0 = reply_count st 0 0 + of_bool (is_damaged h)"
    and "counted (collision_lengths (stat_feed me (raw_of to_bytes_be me h) st)) n
      = counted (collision_lengths st) n + of_bool (is_damaged h \<and> length (raw_of to_bytes_be me h) = n)"
proof -
  have eq: "(sint x = sint y) = (x = y)" "(sint x = 0) = (x = 0)" for x y :: i32
    by (metis signed_word_eqI) (metis signed_word_eqI sint_0)
  have eq': "(uint x = uint y) = (x = y)" for x y :: u32 by (simp only: word_uint_eq_iff)
  show "device \<noteq> 0 \<Longrightarrow> reply_count (stat_feed me (raw_of to_bytes_be me h) st) (sint device) (uint sequence)
      = reply_count st (sint device) (uint sequence) + of_bool (h = Answer device sequence)"
    using assms by (cases h)
      (auto simp: feed_answer feed_valid_packet reply_count_count_reply eq eq' feed_damaged Let_def simp del: raw_of.simps(1) heard_ok.simps(3))
  show "reply_count (stat_feed me (raw_of to_bytes_be me h) st) 0 0 = reply_count st 0 0 + of_bool (is_damaged h)"
    using assms by (cases h)
      (auto simp: feed_answer feed_valid_packet reply_count_count_reply eq eq' feed_damaged Let_def simp del: raw_of.simps(1) heard_ok.simps(3))
  show "counted (collision_lengths (stat_feed me (raw_of to_bytes_be me h) st)) n
      = counted (collision_lengths st) n + of_bool (is_damaged h \<and> length (raw_of to_bytes_be me h) = n)"
    using assms by (cases h)
      (auto simp: feed_answer feed_valid_packet counted_count_up feed_damaged Let_def simp del: raw_of.simps(1) heard_ok.simps(3))
qed



end
