(* ===== verification/File_System.thy ===== *)
theory File_System
  imports Text "HOL-Library.Char_ord" "HOL-Library.List_Lexorder" "HOL-Library.Sublist"
begin

text \<open>
  The operations of \<^verbatim>\<open>std::fs\<close> the program uses, on a tree of directories without links.  A path is
  absolute, as the list of its components; \<open>..\<close> goes to the parent.  An I/O error is \<^const>\<open>None\<close>: an
  operation fails when the node is missing or of the wrong kind, when the permission is missing and,
  where it needs space, when the disk is full.
\<close>

subsection \<open>Trees\<close>

type_synonym fs_path = "string list"

datatype FsNode = FsFile bytes nat | FsDir "(string \<times> FsNode) list" nat

fun fs_find :: "fs_path \<Rightarrow> FsNode \<Rightarrow> FsNode option" where
  "fs_find [] node = Some node"
| "fs_find (name # names) (FsDir entries modified) =
     (case map_of entries name of Some node \<Rightarrow> fs_find names node | None \<Rightarrow> None)"
| "fs_find (name # names) (FsFile _ _) = None"

fun fs_update :: "fs_path \<Rightarrow> (FsNode \<Rightarrow> FsNode) \<Rightarrow> FsNode \<Rightarrow> FsNode" where
  "fs_update [] f node = f node"
| "fs_update (name # names) f (FsDir entries modified) =
     FsDir (map (\<lambda>(n, node). (n, if n = name then fs_update names f node else node)) entries) modified"
| "fs_update (name # names) f (FsFile content modified) = FsFile content modified"

record Machine =
  fs_tree :: FsNode
  fs_readable :: "fs_path \<Rightarrow> bool"
  fs_writable :: "fs_path \<Rightarrow> bool"
  fs_full :: bool
  fs_now :: nat

subsection \<open>Operations\<close>

text \<open>The place a path leads to; its last component need not exist.\<close>

fun fs_resolve :: "FsNode \<Rightarrow> fs_path \<Rightarrow> fs_path \<Rightarrow> fs_path option" where
  "fs_resolve tree cur [] = Some cur"
| "fs_resolve tree cur (name # names) =
     (case fs_find cur tree of
        Some (FsDir _ _) \<Rightarrow> fs_resolve tree (if name = ''..'' then butlast cur else cur @ [name]) names
      | _ \<Rightarrow> None)"

definition fs_locate :: "Machine \<Rightarrow> fs_path \<Rightarrow> (fs_path \<times> FsNode) option" where
  "fs_locate m p =
     (case fs_resolve (fs_tree m) [] p of
        None \<Rightarrow> None
      | Some q \<Rightarrow> map_option (\<lambda>node. (q, node)) (fs_find q (fs_tree m)))"

definition fs_exists :: "Machine \<Rightarrow> fs_path \<Rightarrow> bool" where
  "fs_exists m p \<longleftrightarrow> fs_locate m p \<noteq> None"

definition fs_is_dir :: "Machine \<Rightarrow> fs_path \<Rightarrow> bool" where
  "fs_is_dir m p \<longleftrightarrow> (case fs_locate m p of Some (_, FsDir _ _) \<Rightarrow> True | _ \<Rightarrow> False)"

definition fs_is_file :: "Machine \<Rightarrow> fs_path \<Rightarrow> bool" where
  "fs_is_file m p \<longleftrightarrow> (case fs_locate m p of Some (_, FsFile _ _) \<Rightarrow> True | _ \<Rightarrow> False)"

definition fs_read_dir :: "Machine \<Rightarrow> fs_path \<Rightarrow> string list option" where
  "fs_read_dir m p =
     (case fs_locate m p of
        Some (q, FsDir entries _) \<Rightarrow> if fs_readable m q then Some (map fst entries) else None
      | _ \<Rightarrow> None)"

definition fs_read :: "Machine \<Rightarrow> fs_path \<Rightarrow> bytes option" where
  "fs_read m p =
     (case fs_locate m p of
        Some (q, FsFile content _) \<Rightarrow> if fs_readable m q then Some content else None
      | _ \<Rightarrow> None)"

text \<open>The length of a file and the modification time of a node, from \<^verbatim>\<open>fs::metadata\<close>.\<close>

definition fs_len :: "Machine \<Rightarrow> fs_path \<Rightarrow> nat option" where
  "fs_len m p = (case fs_locate m p of Some (_, FsFile content _) \<Rightarrow> Some (length content) | _ \<Rightarrow> None)"

definition fs_modified :: "Machine \<Rightarrow> fs_path \<Rightarrow> nat option" where
  "fs_modified m p =
     (case fs_locate m p of
        Some (_, FsFile _ modified) \<Rightarrow> Some modified
      | Some (_, FsDir _ modified) \<Rightarrow> Some modified
      | None \<Rightarrow> None)"

text \<open>
  Changing the content of an existing file opened for writing; \<open>change\<close> is \<^const>\<open>None\<close> where the write
  itself fails.
\<close>

definition fs_change :: "(bytes \<Rightarrow> bytes option) \<Rightarrow> fs_path \<Rightarrow> Machine \<Rightarrow> (bytes \<times> Machine) option" where
  "fs_change change p m =
     (case fs_locate m p of
        Some (q, FsFile content _) \<Rightarrow>
          if \<not> fs_writable m q then None
          else (case change content of
                  None \<Rightarrow> None
                | Some content' \<Rightarrow>
                    if fs_full m \<and> length content < length content' then None
                    else Some (content', m\<lparr>fs_tree := fs_update q (\<lambda>_. FsFile content' (fs_now m)) (fs_tree m)\<rparr>))
      | _ \<Rightarrow> None)"

definition fs_set_modified :: "nat \<Rightarrow> fs_path \<Rightarrow> Machine \<Rightarrow> Machine option" where
  "fs_set_modified time p m =
     (case fs_locate m p of
        Some (q, FsFile content _) \<Rightarrow>
          if fs_writable m q then Some (m\<lparr>fs_tree := fs_update q (\<lambda>_. FsFile content time) (fs_tree m)\<rparr>) else None
      | _ \<Rightarrow> None)"

text \<open>
  Creating a node that does not exist yet, in an existing directory; a name must not have a zero byte
  and at most 255 bytes.
\<close>

definition fs_create :: "FsNode \<Rightarrow> fs_path \<Rightarrow> Machine \<Rightarrow> Machine option" where
  "fs_create node p m =
     (case fs_resolve (fs_tree m) [] p of
        None \<Rightarrow> None
      | Some q \<Rightarrow>
          if q = [] \<or> fs_find q (fs_tree m) \<noteq> None \<or> fs_full m \<or> \<not> fs_writable m (butlast q)
             \<or> CHR 0x00 \<in> set (last q) \<or> 255 < length (last q) then None
          else (case fs_find (butlast q) (fs_tree m) of
                  Some (FsDir _ _) \<Rightarrow>
                    Some (m\<lparr>fs_tree := fs_update (butlast q)
                      (\<lambda>dir. case dir of FsDir entries _ \<Rightarrow> FsDir (entries @ [(last q, node)]) (fs_now m) | other \<Rightarrow> other)
                      (fs_tree m)\<rparr>)
                | _ \<Rightarrow> None))"

definition fs_removable :: "bool \<Rightarrow> FsNode \<Rightarrow> bool" where
  "fs_removable dir node = (case node of FsFile _ _ \<Rightarrow> \<not> dir | FsDir entries _ \<Rightarrow> dir \<and> entries = [])"

text \<open>\<^verbatim>\<open>remove_dir\<close> takes only empty directories, \<^verbatim>\<open>remove_file\<close> only files.\<close>

definition fs_remove :: "bool \<Rightarrow> fs_path \<Rightarrow> Machine \<Rightarrow> Machine option" where
  "fs_remove dir p m =
     (case fs_locate m p of
        Some (q, node) \<Rightarrow>
          if q = [] \<or> \<not> fs_removable dir node \<or> \<not> fs_writable m (butlast q) then None
          else Some (m\<lparr>fs_tree := fs_update (butlast q)
                 (\<lambda>d. case d of FsDir entries _ \<Rightarrow> FsDir (filter (\<lambda>(n, _). n \<noteq> last q) entries) (fs_now m) | other \<Rightarrow> other)
                 (fs_tree m)\<rparr>)
      | None \<Rightarrow> None)"

text \<open>The lines of a text file, as \<^verbatim>\<open>BufRead::lines\<close> gives them; \<^const>\<open>None\<close> where a line is not UTF-8.\<close>

definition strip_cr :: "string \<Rightarrow> string" where
  "strip_cr line = (if line \<noteq> [] \<and> last line = CHR 0x0D then butlast line else line)"

definition text_lines :: "bytes \<Rightarrow> string list" where
  "text_lines content =
     (let lines = split_on (CHR 0x0A) (of_bytes content)
      in if last lines = [] then map strip_cr (butlast lines) else map strip_cr (butlast lines) @ [last lines])"

subsection \<open>Laws\<close>

text \<open>The names in the directories are names, and each is there once.\<close>

definition fs_name :: "string \<Rightarrow> bool" where
  "fs_name name \<longleftrightarrow> name \<noteq> [] \<and> name \<noteq> ''.'' \<and> name \<noteq> ''..'' \<and> CHR ''/'' \<notin> set name \<and> utf8_valid (as_bytes name)"

fun fs_ok :: "FsNode \<Rightarrow> bool" where
  "fs_ok (FsFile _ _) = True"
| "fs_ok (FsDir entries _) \<longleftrightarrow> distinct (map fst entries) \<and> list_all (\<lambda>(name, node). fs_name name \<and> fs_ok node) entries"

lemma map_of_map_entry:
  "map_of (map (\<lambda>(n, x). (n, if n = name then f x else x)) xs) k =
     (if k = name then map_option f (map_of xs k) else map_of xs k)"
  by (induction xs) auto

lemma fs_find_update_below: "fs_find (p @ q) (fs_update p f t) = (case fs_find p t of Some n \<Rightarrow> fs_find q (f n) | None \<Rightarrow> None)"
  by (induction p f t rule: fs_update.induct) (auto simp: map_of_map_entry split: option.splits dest: map_of_SomeD)

lemma fs_find_update_same: "fs_find p (fs_update p f t) = map_option f (fs_find p t)"
  using fs_find_update_below [of p "[]" f t] by (simp split: option.splits)

lemma fs_find_update_other: "\<not> prefix p q \<Longrightarrow> \<not> prefix q p \<Longrightarrow> fs_find q (fs_update p f t) = fs_find q t"
proof (induction p f t arbitrary: q rule: fs_update.induct)
  case (2 name names f entries modified)
  then show ?case by (cases q) (auto simp: map_of_map_entry split: option.splits dest: map_of_SomeD)
qed simp_all

lemma fs_find_append: "fs_find (p @ q) t = (case fs_find p t of Some n \<Rightarrow> fs_find q n | None \<Rightarrow> None)"
  by (induction p t rule: fs_find.induct) (auto split: option.splits)

lemma fs_ok_find: "fs_ok t \<Longrightarrow> fs_find p t = Some n \<Longrightarrow> fs_ok n"
  by (induction p t rule: fs_find.induct) (auto simp: list_all_iff split: option.splits dest: map_of_SomeD)

lemma fs_ok_update:
  "fs_ok t \<Longrightarrow> (\<And>n. fs_find p t = Some n \<Longrightarrow> fs_ok (f n)) \<Longrightarrow> fs_ok (fs_update p f t)"
proof (induction p f t rule: fs_update.induct)
  case (2 name names f entries modified)
  have d: "distinct (map fst entries)" using 2(2) by simp
  have "fs_ok (fs_update names f node)" if "(name, node) \<in> set entries" for node
    using 2(1) [OF that refl] 2(2,3) that map_of_is_SomeI [OF d that] by (auto simp: list_all_iff)
  then show ?case using 2(2) by (auto simp: list_all_iff comp_def case_prod_unfold)
qed auto

text \<open>A path of names leads to the place it writes.\<close>

lemma fs_resolve_names:
  assumes "''..'' \<notin> set names" and "fs_resolve t cur names = Some q"
  shows "q = cur @ names"
  using assms by (induction t cur names rule: fs_resolve.induct) (auto split: option.splits FsNode.splits)

lemma fs_resolve_prefix:
  assumes "fs_find (cur @ names) t = Some n" and "''..'' \<notin> set names"
  shows "fs_resolve t cur names = Some (cur @ names)"
  using assms
proof (induction names arbitrary: cur)
  case (Cons name names)
  then have "fs_find cur t \<noteq> None" by (auto simp: fs_find_append split: option.splits)
  moreover have "fs_find cur t \<noteq> Some (FsFile c m)" for c m using Cons.prems by (auto simp: fs_find_append)
  ultimately show ?case using Cons.IH [of "cur @ [name]"] Cons.prems
    by (auto split: option.splits FsNode.splits)
qed simp

lemma fs_locate_names:
  "''..'' \<notin> set p \<Longrightarrow> fs_locate m p = map_option (\<lambda>n. (p, n)) (fs_find p (fs_tree m))"
  using fs_resolve_names [of p "fs_tree m" "[]"] fs_resolve_prefix [of "[]" p "fs_tree m"]
  by (cases "fs_find p (fs_tree m)") (auto simp: fs_locate_def split: option.splits)

end
