(* ===== verification/Ftp.thy ===== *)
theory Ftp
  imports Service Device File_System
begin

text \<open>
  The file access service, \<^verbatim>\<open>rpc/ftp.rs\<close>, on the file system of the theory \<open>File_System\<close>.  The state of
  the service is the registry together with the machine it runs on; \<^verbatim>\<open>registry.list_file\<close> is the file
  \<^verbatim>\<open>.ubfs\<close> of the served directory.
\<close>

subsection \<open>Encoding of the paths\<close>

definition LIST_FILE_NAME :: string where
  "LIST_FILE_NAME = ''.ubfs''"

definition MAX_FILE_PART :: nat where
  "MAX_FILE_PART = 4096"

definition url_plain :: "char \<Rightarrow> bool" where
  "url_plain c \<longleftrightarrow>
     (let n = of_char c :: nat
      in 97 \<le> n \<and> n \<le> 122 \<or> 65 \<le> n \<and> n \<le> 90 \<or> 48 \<le> n \<and> n \<le> 57 \<or> c \<in> {CHR ''.'', CHR ''-'', CHR ''*'', CHR ''_''})"

definition url_encode :: "string \<Rightarrow> string" where
  "url_encode txt =
     concat (map (\<lambda>c. if url_plain c then [c] else if c = CHR '' '' then ''+'' else ''%'' @ hex2_upper (byte_of_char c)) txt)"

text \<open>\<^verbatim>\<open>is_char_boundary\<close> at the front of the rest of a string: a continuation byte is none.\<close>

definition char_boundary :: "string \<Rightarrow> bool" where
  "char_boundary rest \<longleftrightarrow> (case rest of [] \<Rightarrow> True | c # _ \<Rightarrow> \<not> utf8_cont (byte_of_char c))"

fun url_decode_bytes :: "string \<Rightarrow> bytes" where
  "url_decode_bytes [] = []"
| "url_decode_bytes (c # cs) =
     (if c = CHR ''+'' then 0x20 # url_decode_bytes cs
      else if c = CHR ''%'' \<and> 2 \<le> length cs \<and> char_boundary cs \<and> char_boundary (drop 2 cs)
      then (case parse_int 16 False 0 255 (take 2 cs) of
              Some value \<Rightarrow> word_of_int value # url_decode_bytes (drop 2 cs)
            | None \<Rightarrow> 0x25 # url_decode_bytes cs)
      else byte_of_char c # url_decode_bytes cs)"

text \<open>
  \<^verbatim>\<open>String::from_utf8_lossy\<close>: a byte sequence that starts no character becomes a replacement character,
  as far as it could have started one.
\<close>

definition utf8_second :: "u8 \<Rightarrow> u8 \<Rightarrow> bool" where
  "utf8_second a b \<longleftrightarrow> utf8_cont b \<and> (a = 0xE0 \<longrightarrow> 0xA0 \<le> b) \<and> (a = 0xED \<longrightarrow> b \<le> 0x9F)
     \<and> (a = 0xF0 \<longrightarrow> 0x90 \<le> b) \<and> (a = 0xF4 \<longrightarrow> b \<le> 0x8F)"

definition utf8_width :: "u8 \<Rightarrow> nat" where
  "utf8_width a =
     (if a < 0x80 then 1 else if 0xC2 \<le> a \<and> a \<le> 0xDF then 2 else if 0xE0 \<le> a \<and> a \<le> 0xEF then 3
      else if 0xF0 \<le> a \<and> a \<le> 0xF4 then 4 else 0)"

definition utf8_prefix :: "u8 \<Rightarrow> bytes \<Rightarrow> nat" where
  "utf8_prefix a bs =
     (case bs of
        b # cs \<Rightarrow> if utf8_second a b then 1 + length (takeWhile utf8_cont (take (utf8_width a - 2) cs)) else 0
      | [] \<Rightarrow> 0)"

fun from_utf8_lossy :: "bytes \<Rightarrow> bytes" where
  "from_utf8_lossy [] = []"
| "from_utf8_lossy (a # bs) =
     (if utf8_width a = 1 then a # from_utf8_lossy bs
      else if utf8_width a = 0 then [0xEF, 0xBF, 0xBD] @ from_utf8_lossy bs
      else let n = utf8_prefix a bs
           in (if n + 1 = utf8_width a then a # take n bs else [0xEF, 0xBF, 0xBD]) @ from_utf8_lossy (drop n bs))"

definition url_decode :: "string \<Rightarrow> string" where
  "url_decode txt = of_bytes (from_utf8_lossy (url_decode_bytes txt))"

subsection \<open>The registry\<close>

record Ftp =
  ftp_root :: fs_path
  ftp_paths :: "string list"
  ftp_by_path :: "string \<Rightarrow> nat option"
  ftp_machine :: Machine

definition sorted_dir_names :: "Machine \<Rightarrow> fs_path \<Rightarrow> string list option" where
  "sorted_dir_names m dir = map_option sort (fs_read_dir m dir)"

text \<open>The components of \<^verbatim>\<open>root.join(relative)\<close> as the system reads them.\<close>

definition registry_fs_path :: "Ftp \<Rightarrow> string \<Rightarrow> fs_path" where
  "registry_fs_path w path =
     ftp_root w @ filter (\<lambda>c. c \<noteq> [] \<and> c \<noteq> ''.'') (split_on (CHR ''/'') (trim_start_matches (CHR ''/'') path))"

definition list_line :: "string \<Rightarrow> bytes" where
  "list_line path = as_bytes (url_encode path) @ [0x0A]"

definition append_to_list :: "bytes \<Rightarrow> Ftp \<Rightarrow> Ftp" where
  "append_to_list line w =
     w\<lparr>ftp_machine := (ftp_machine w)\<lparr>fs_tree := fs_update (ftp_root w @ [LIST_FILE_NAME])
         (\<lambda>node. case node of FsFile content _ \<Rightarrow> FsFile (content @ line) (fs_now (ftp_machine w)) | other \<Rightarrow> other)
         (fs_tree (ftp_machine w))\<rparr>\<rparr>"

definition register_path :: "string \<Rightarrow> Ftp \<Rightarrow> nat option \<times> Ftp" where
  "register_path path w =
     (if fs_full (ftp_machine w) then (None, w)
      else let w = append_to_list (list_line path) w;
               index = length (ftp_paths w)
           in (Some index, w\<lparr>ftp_paths := ftp_paths w @ [path], ftp_by_path := (ftp_by_path w)(path \<mapsto> index)\<rparr>))"

text \<open>
  Registering the files of a directory.  The tree is the one the service was opened on: of it only
  the content of the list file changes meanwhile.  The result is false after an I/O error.
\<close>

lemma size_list_insort: "size_list f (insort_key k x xs) = Suc (f x + size_list f xs)"
  by (induction xs) auto

lemma size_list_sort [simp]: "size_list f (sort_key k xs) = size_list f xs"
  by (induction xs) (auto simp: size_list_insort)

function discover :: "FsNode \<Rightarrow> string \<Rightarrow> fs_path \<Rightarrow> Ftp \<Rightarrow> bool \<times> Ftp"
and discover_entries :: "(string \<times> FsNode) list \<Rightarrow> string \<Rightarrow> fs_path \<Rightarrow> Ftp \<Rightarrow> bool \<times> Ftp" where
  "discover (FsFile content modified) dir p w = (False, w)"
| "discover (FsDir entries modified) dir p w =
     (if fs_readable (ftp_machine w) p then discover_entries (sort_key fst entries) dir p w else (False, w))"
| "discover_entries [] dir p w = (True, w)"
| "discover_entries ((name, node) # entries) dir p w =
     (let path = dir @ ''/'' @ name
      in if path = ''/'' @ LIST_FILE_NAME then discover_entries entries dir p w
         else
           (case (if ftp_by_path w path = None then register_path path w else (ftp_by_path w path, w)) of
              (None, w) \<Rightarrow> (False, w)
            | (Some _, w) \<Rightarrow>
                (case (case node of FsDir _ _ \<Rightarrow> discover node path (p @ [name]) w | FsFile _ _ \<Rightarrow> (True, w)) of
                   (False, w) \<Rightarrow> (False, w)
                 | (True, w) \<Rightarrow> discover_entries entries dir p w)))"
  by pat_completeness auto
termination
  by (relation "measure (\<lambda>x. case x of Inl (node, _) \<Rightarrow> 2 * size node
        | Inr (entries, _) \<Rightarrow> 2 * size_list (size_prod (\<lambda>_. 0) size) entries + 1)") auto

declare discover.simps [simp del] discover_entries.simps [simp del]

text \<open>Reading the list file back: a path that is there twice keeps its first number.\<close>

fun load_lines :: "string list \<Rightarrow> Ftp \<Rightarrow> Ftp" where
  "load_lines [] w = w"
| "load_lines (line # lines) w =
     (let path = url_decode line;
          index = length (ftp_paths w)
      in load_lines lines (w\<lparr>ftp_by_path := (case ftp_by_path w path of
           None \<Rightarrow> (ftp_by_path w)(path \<mapsto> index) | Some _ \<Rightarrow> ftp_by_path w), ftp_paths := ftp_paths w @ [path]\<rparr>))"

text \<open>Opening the list file creates it where it is missing.\<close>

definition open_list_file :: "fs_path \<Rightarrow> Machine \<Rightarrow> Machine option" where
  "open_list_file p m =
     (case fs_locate m p of
        None \<Rightarrow> fs_create (FsFile [] (fs_now m)) p m
      | Some (q, FsFile _ _) \<Rightarrow> if fs_readable m q \<and> fs_writable m q then Some m else None
      | Some (_, FsDir _ _) \<Rightarrow> None)"

definition empty_registry :: "fs_path \<Rightarrow> Machine \<Rightarrow> Ftp" where
  "empty_registry root m = \<lparr>ftp_root = root, ftp_paths = [], ftp_by_path = (\<lambda>_. None), ftp_machine = m\<rparr>"

definition registry_open :: "fs_path \<Rightarrow> Machine \<Rightarrow> bool \<times> Ftp" where
  "registry_open root m =
     (case open_list_file (root @ [LIST_FILE_NAME]) m of
        None \<Rightarrow> (False, empty_registry root m)
      | Some m \<Rightarrow>
          (case fs_read m (root @ [LIST_FILE_NAME]) of
             None \<Rightarrow> (False, empty_registry root m)
           | Some content \<Rightarrow>
               let lines = text_lines content
               in if \<not> list_all (\<lambda>line. utf8_valid (as_bytes line)) lines then (False, empty_registry root m)
                  else
                    let w = load_lines lines (empty_registry root m)
                    in (case (if ftp_paths w = [] then register_path ''/'' w else (Some 0, w)) of
                          (None, w) \<Rightarrow> (False, w)
                        | (Some _, w) \<Rightarrow>
                            (case fs_locate (ftp_machine w) root of
                               None \<Rightarrow> (False, w)
                             | Some (q, node) \<Rightarrow> discover node [] q w))))"

definition path_exists :: "Ftp \<Rightarrow> string \<Rightarrow> bool" where
  "path_exists w path \<longleftrightarrow> fs_exists (ftp_machine w) (registry_fs_path w path)"

definition number_of :: "string \<Rightarrow> Ftp \<Rightarrow> (u8 + nat) \<times> Ftp" where
  "number_of path w =
     (let path = (if path = [] then ''/'' else path)
      in case ftp_by_path w path of
           Some index \<Rightarrow> (Inr index, w)
         | None \<Rightarrow>
             if LIST_FILE_NAME \<in> set (split_on (CHR ''/'') path) \<or> \<not> path_exists w path then (Inl ENOENT, w)
             else (case register_path path w of
                     (Some index, w) \<Rightarrow> (Inr index, w)
                   | (None, w) \<Rightarrow> (Inl EIO, w)))"

text \<open>\<^verbatim>\<open>BigInt::to_usize\<close> and \<^verbatim>\<open>to_u64\<close>.\<close>

definition to_usize :: "int \<Rightarrow> nat option" where
  "to_usize v = (if 0 \<le> v \<and> v \<le> 18446744073709551615 then Some (nat v) else None)"

definition path_of :: "int \<Rightarrow> Ftp \<Rightarrow> u8 + string" where
  "path_of file_no w =
     (case to_usize file_no of
        Some index \<Rightarrow> if index < length (ftp_paths w) then Inr (ftp_paths w ! index) else Inl ENOENT
      | None \<Rightarrow> Inl ENOENT)"

definition child_path :: "string \<Rightarrow> string \<Rightarrow> u8 + string" where
  "child_path dir name =
     (if name = [] \<or> name = ''.'' \<or> name = ''..'' \<or> name = LIST_FILE_NAME \<or> CHR ''/'' \<in> set name then Inl EACCES
      else Inr (trim_end_matches (CHR ''/'') dir @ ''/'' @ name))"

subsection \<open>The functions\<close>

type_synonym ftp_reply = "ServiceError + Ftp UbService ServiceReply"

definition vu :: "int \<Rightarrow> ftp_reply" where
  "vu value = Inr (ReplyValue (RvVUnsigned value))"

definition boolean :: "bool \<Rightarrow> ftp_reply" where
  "boolean value = Inr (ReplyValue (RvBool value))"

definition posix_error :: "u8 \<Rightarrow> ftp_reply" where
  "posix_error errno = Inl (ServicePosix errno)"

definition vu_or_errno :: "(u8 + nat) \<times> Ftp \<Rightarrow> ftp_reply \<times> Ftp" where
  "vu_or_errno r = (case r of (Inr n, w) \<Rightarrow> (vu (int n), w) | (Inl errno, w) \<Rightarrow> (posix_error errno, w))"

text \<open>The types that are read here have no items, so the bound does not matter; a panic is not reached.\<close>

definition read_number :: "PacketReader \<Rightarrow> RpcType \<Rightarrow> ServiceError + (int \<times> PacketReader)" where
  "read_number params ty =
     (case read_param 0 params ty of
        Some (Ret (RvVUnsigned v, params)) \<Rightarrow> Inr (v, params)
      | Some (Ret (RvVSigned v, params)) \<Rightarrow> Inr (v, params)
      | Some (Fail e) \<Rightarrow> Inl e
      | _ \<Rightarrow> Inl (Internal ''number expected''))"

definition ftp_read_string :: "PacketReader \<Rightarrow> ServiceError + (string \<times> PacketReader)" where
  "ftp_read_string params =
     (case read_param 0 params RtString of
        Some (Ret (RvString s, params)) \<Rightarrow> Inr (s, params)
      | Some (Fail e) \<Rightarrow> Inl e
      | _ \<Rightarrow> Inl (Internal ''string expected''))"

definition ftp_read_bytes :: "PacketReader \<Rightarrow> ServiceError + (bytes \<times> PacketReader)" where
  "ftp_read_bytes params =
     (case read_param 0 params RtBytes of
        Some (Ret (RvBytes data, params)) \<Rightarrow> Inr (data, params)
      | Some (Ret (_, params)) \<Rightarrow> Inr ([], params)
      | Some (Fail e) \<Rightarrow> Inl e
      | _ \<Rightarrow> Inl (Internal ''bytes expected''))"

definition can_access :: "(Machine \<Rightarrow> fs_path \<Rightarrow> bool) \<Rightarrow> fs_path \<Rightarrow> Machine \<Rightarrow> bool" where
  "can_access mode p m = (case fs_locate m p of Some (q, _) \<Rightarrow> mode m q | None \<Rightarrow> False)"

definition parent_of :: "string \<Rightarrow> string" where
  "parent_of path = (if CHR ''/'' \<in> set path then rev (tl (dropWhile (\<lambda>c. c \<noteq> CHR ''/'') (rev path))) else [])"

definition ftp_parent :: "string \<Rightarrow> Ftp \<Rightarrow> ftp_reply \<times> Ftp" where
  "ftp_parent path w = (if path = ''/'' then (posix_error ENOENT, w) else vu_or_errno (number_of (parent_of path) w))"

definition ftp_type :: "fs_path \<Rightarrow> Ftp \<Rightarrow> ftp_reply" where
  "ftp_type p w =
     Inr (ReplyValue (RvS8 (if fs_is_file (ftp_machine w) p then 1 else if fs_is_dir (ftp_machine w) p then 2 else 127)))"

definition ftp_name :: "fs_path \<Rightarrow> ftp_reply" where
  "ftp_name p = Inr (Namespace (UbString_service (UbString_new (if p = [] \<or> last p = ''..'' then [] else last p))))"

definition ftp_size :: "fs_path \<Rightarrow> Ftp \<Rightarrow> ftp_reply" where
  "ftp_size p w =
     (if fs_is_dir (ftp_machine w) p
      then (case sorted_dir_names (ftp_machine w) p of
              Some names \<Rightarrow> vu (int (length names)) | None \<Rightarrow> posix_error EIO)
      else (case fs_len (ftp_machine w) p of Some n \<Rightarrow> vu (int n) | None \<Rightarrow> posix_error ENOENT))"

fun list_numbers :: "string \<Rightarrow> string list \<Rightarrow> RpcValue list \<Rightarrow> Ftp \<Rightarrow> (u8 + RpcValue list) \<times> Ftp" where
  "list_numbers path [] numbers w = (Inr numbers, w)"
| "list_numbers path (name # names) numbers w =
     (case child_path path name of
        Inl errno \<Rightarrow> (Inl errno, w)
      | Inr child \<Rightarrow>
          (case number_of child w of
             (Inl errno, w) \<Rightarrow> (Inl errno, w)
           | (Inr n, w) \<Rightarrow> list_numbers path names (numbers @ [RvVUnsigned (int n)]) w))"

definition ftp_list :: "string \<Rightarrow> fs_path \<Rightarrow> Ftp \<Rightarrow> ftp_reply \<times> Ftp" where
  "ftp_list path p w =
     (case sorted_dir_names (ftp_machine w) p of
        None \<Rightarrow> (posix_error ENOTDIR, w)
      | Some names \<Rightarrow>
          (case list_numbers path (filter (\<lambda>name. name \<noteq> LIST_FILE_NAME) names) [] w of
             (Inl errno, w) \<Rightarrow> (posix_error errno, w)
           | (Inr numbers, w) \<Rightarrow> (Inr (ReplyValue (RvArray numbers)), w)))"

definition ftp_child :: "string \<Rightarrow> fs_path \<Rightarrow> int \<Rightarrow> Ftp \<Rightarrow> ftp_reply \<times> Ftp" where
  "ftp_child path p index w =
     (if \<not> fs_is_dir (ftp_machine w) p then (posix_error ENOTDIR, w)
      else (case sorted_dir_names (ftp_machine w) p of
              None \<Rightarrow> (posix_error ENOTDIR, w)
            | Some names \<Rightarrow>
                (case to_usize index of
                   Some i \<Rightarrow>
                     if i < length names
                     then vu_or_errno (number_of (trim_end_matches (CHR ''/'') path @ ''/'' @ names ! i) w)
                     else (posix_error ENOTDIR, w)
                 | None \<Rightarrow> (posix_error ENOTDIR, w))))"

text \<open>A position of \<open>2 ^ 63\<close> or more is negative for the system and refused.\<close>

definition seekable :: "nat \<Rightarrow> bool" where
  "seekable pos \<longleftrightarrow> int pos < 9223372036854775808"

definition ftp_read_part :: "fs_path \<Rightarrow> int \<Rightarrow> int \<Rightarrow> Ftp \<Rightarrow> ftp_reply" where
  "ftp_read_part p from' len w =
     (let len = (case to_usize len of Some n \<Rightarrow> n | None \<Rightarrow> nat 18446744073709551615);
          from' = (case to_usize from' of Some n \<Rightarrow> n | None \<Rightarrow> nat 18446744073709551615)
      in if MAX_FILE_PART < len then posix_error EMSGSIZE
         else (case fs_read (ftp_machine w) p of
                 Some content \<Rightarrow>
                   if seekable from' then Inr (ReplyValue (RvBytes (take len (drop from' content)))) else posix_error EIO
               | None \<Rightarrow> posix_error EIO))"

definition ftp_create :: "bool \<Rightarrow> string \<Rightarrow> fs_path \<Rightarrow> string \<Rightarrow> Ftp \<Rightarrow> ftp_reply \<times> Ftp" where
  "ftp_create dir path p name w =
     (if dir \<and> \<not> fs_is_dir (ftp_machine w) p then (posix_error ENOTDIR, w)
      else (case child_path path name of
              Inl errno \<Rightarrow> (posix_error errno, w)
            | Inr child \<Rightarrow>
                if path_exists w child then (posix_error EEXIST, w)
                else (case fs_create (if dir then FsDir [] (fs_now (ftp_machine w)) else FsFile [] (fs_now (ftp_machine w)))
                             (registry_fs_path w child) (ftp_machine w) of
                        None \<Rightarrow> (posix_error EACCES, w)
                      | Some m \<Rightarrow> vu_or_errno (number_of child (w\<lparr>ftp_machine := m\<rparr>)))))"

definition ftp_set_modified :: "fs_path \<Rightarrow> int \<Rightarrow> Ftp \<Rightarrow> ftp_reply \<times> Ftp" where
  "ftp_set_modified p time w =
     (case fs_set_modified (case to_usize time of Some n \<Rightarrow> n | None \<Rightarrow> 0) p (ftp_machine w) of
        Some m \<Rightarrow> (boolean True, w\<lparr>ftp_machine := m\<rparr>)
      | None \<Rightarrow> (boolean False, w))"

definition ftp_delete :: "fs_path \<Rightarrow> Ftp \<Rightarrow> ftp_reply \<times> Ftp" where
  "ftp_delete p w =
     (case fs_remove (fs_is_dir (ftp_machine w) p) p (ftp_machine w) of
        Some m \<Rightarrow> (boolean True, w\<lparr>ftp_machine := m\<rparr>)
      | None \<Rightarrow> (boolean False, w))"

definition set_len :: "nat \<Rightarrow> bytes \<Rightarrow> bytes option" where
  "set_len len content = (if seekable len then Some (take len content @ replicate (len - length content) 0) else None)"

definition write_at :: "nat \<Rightarrow> bytes \<Rightarrow> bytes \<Rightarrow> bytes option" where
  "write_at pos data content =
     (if \<not> seekable pos then None
      else if data = [] then Some content
      else Some (take pos content @ replicate (pos - length content) 0 @ data @ drop (pos + length data) content))"

definition ftp_truncate :: "fs_path \<Rightarrow> int \<Rightarrow> Ftp \<Rightarrow> ftp_reply \<times> Ftp" where
  "ftp_truncate p len w =
     (case fs_change (set_len (case to_usize len of Some n \<Rightarrow> n | None \<Rightarrow> 0)) p (ftp_machine w) of
        Some (content, m) \<Rightarrow> (vu (int (length content)), w\<lparr>ftp_machine := m\<rparr>)
      | None \<Rightarrow> (posix_error ENOENT, w))"

definition ftp_write :: "fs_path \<Rightarrow> int \<Rightarrow> bytes \<Rightarrow> Ftp \<Rightarrow> ftp_reply \<times> Ftp" where
  "ftp_write p position data w =
     (let append = (position < 0);
          change = (if append then (\<lambda>content. Some (content @ data))
                    else write_at (case to_usize position of Some n \<Rightarrow> n | None \<Rightarrow> 0) data)
      in case fs_change change p (ftp_machine w) of
           Some (content, m) \<Rightarrow> (vu (int (length content)), w\<lparr>ftp_machine := m\<rparr>)
         | None \<Rightarrow> (posix_error (if append then EACCES else ENOENT), w))"

text \<open>The functions with their further parameters; a failed read ends the call.\<close>

definition with_param ::
    "ServiceError + ('a \<times> PacketReader) \<Rightarrow> Ftp \<Rightarrow> ('a \<Rightarrow> PacketReader \<Rightarrow> ftp_reply \<times> PacketReader \<times> Ftp) \<Rightarrow> PacketReader
      \<Rightarrow> ftp_reply \<times> PacketReader \<times> Ftp" where
  "with_param r w f params = (case r of Inl e \<Rightarrow> (Inl e, params, w) | Inr (x, params) \<Rightarrow> f x params)"

definition serve_file :: "u8 \<Rightarrow> string \<Rightarrow> PacketReader \<Rightarrow> Ftp \<Rightarrow> ftp_reply \<times> PacketReader \<times> Ftp" where
  "serve_file index path params w =
     (let p = registry_fs_path w path;
          m = ftp_machine w;
          pure = (\<lambda>r. (r, params, w));
          eff = (\<lambda>(r, w). (r, params, w))
      in if index = 1 then pure (boolean (fs_exists m p))
         else if index = 2 then eff (ftp_parent path w)
         else if index = 3 then pure (ftp_type p w)
         else if index = 4 then pure (ftp_name p)
         else if index = 5 then pure (ftp_size p w)
         else if index = 6 then eff (ftp_list path p w)
         else if index = 7 then
           with_param (read_number params RtVUnsigned) w (\<lambda>i params. let (r, w) = ftp_child path p i w in (r, params, w)) params
         else if index = 8 then pure (boolean (can_access fs_readable p m))
         else if index = 9 then pure (boolean (can_access fs_writable p m))
         else if index = 10 then pure (vu 0)
         else if index = 11 then pure (vu (case fs_modified m p of Some time \<Rightarrow> int time | None \<Rightarrow> 0))
         else if index = 20 then
           with_param (read_number params RtVUnsigned) w (\<lambda>from' params.
             with_param (read_number params RtVUnsigned) w (\<lambda>len params. (ftp_read_part p from' len w, params, w)) params) params
         else if index = 30 \<or> index = 31 then
           with_param (ftp_read_string params) w (\<lambda>name params.
             let (r, w) = ftp_create (index = 30) path p name w in (r, params, w)) params
         else if index = 32 then
           with_param (read_number params RtVUnsigned) w (\<lambda>time params. let (r, w) = ftp_set_modified p time w in (r, params, w)) params
         else if index = 33 then eff (ftp_delete p w)
         else if index = 34 then with_param (read_number params RtVUnsigned) w (\<lambda>_ params. (Inr Void, params, w)) params
         else if index = 35 then with_param (ftp_read_string params) w (\<lambda>_ params. (Inr Void, params, w)) params
         else if index = 40 then
           with_param (read_number params RtVUnsigned) w (\<lambda>len params. let (r, w) = ftp_truncate p len w in (r, params, w)) params
         else if index = 41 then
           with_param (read_number params RtVSigned) w (\<lambda>position params.
             with_param (ftp_read_bytes params) w (\<lambda>data params.
               let (r, w) = ftp_write p position data w in (r, params, w)) params) params
         else pure (Inl (Internal (''no function '' @ show_nat (unat index)))))"

definition ftp_serve :: "u8 \<Rightarrow> PacketReader \<Rightarrow> Ftp \<Rightarrow> ftp_reply \<times> PacketReader \<times> Ftp" where
  "ftp_serve index params w =
     with_param (read_number params RtVUnsigned) w (\<lambda>file_no params.
       case path_of file_no w of
         Inl errno \<Rightarrow> (posix_error errno, params, w)
       | Inr path \<Rightarrow> serve_file index path params w) params"

definition FUNCTIONS :: "u8 list" where
  "FUNCTIONS = [1, 2, 3, 4, 5, 6, 7, 8, 9, 10, 11, 20, 30, 31, 32, 33, 34, 35, 40, 41]"

definition ftp_call :: "u8 \<Rightarrow> PacketReader \<Rightarrow> Ftp \<Rightarrow> (Ftp UbService ServiceCall \<times> PacketReader) option \<times> Ftp" where
  "ftp_call index params w =
     (if index \<notin> set FUNCTIONS then (None, w)
      else let (r, params, w) = ftp_serve index params w in (Some (ServiceCall_posix r, params), w))"

definition FtpBusService :: "Ftp UbService" where
  "FtpBusService = UbService ftp_call"

text \<open>\<^verbatim>\<open>FtpBusService::new\<close>; \<open>root\<close> is the canonical path of the directory.\<close>

definition FtpBusService_new :: "fs_path \<Rightarrow> Machine \<Rightarrow> bool \<times> Ftp" where
  "FtpBusService_new root m =
     (case fs_locate m root of None \<Rightarrow> (False, empty_registry root m) | Some (q, _) \<Rightarrow> registry_open q m)"

subsection \<open>Round trip of the encoding\<close>

lemma utf8_char_cases:
  assumes "utf8_valid (a # bs)"
  obtains "utf8_width a = 1" "utf8_valid bs"
    | n where "n + 1 = utf8_width a" "1 \<le> n" "n \<le> length bs" "utf8_second a (bs ! 0)" "list_all utf8_cont (take (n - 1) (drop 1 bs))"
        "utf8_valid (drop n bs)"
proof -
  consider (one) "a < 0x80" | (two) "\<not> a < 0x80" "0xC2 \<le> a \<and> a \<le> 0xDF"
    | (three) "\<not> a < 0x80" "\<not> (0xC2 \<le> a \<and> a \<le> 0xDF)" "0xE0 \<le> a \<and> a \<le> 0xEF"
    | (four) "\<not> a < 0x80" "\<not> (0xC2 \<le> a \<and> a \<le> 0xDF)" "\<not> (0xE0 \<le> a \<and> a \<le> 0xEF)"
    by blast
  then show thesis
  proof cases
    case one
    then show thesis using assms that(1) by (simp add: utf8_width_def)
  next
    case two
    then obtain b cs where bs: "bs = b # cs" "utf8_cont b" "utf8_valid cs"
      using assms by (subst (asm) utf8_valid.simps(2)) (auto simp del: utf8_valid.simps split: list.splits)
    have "a \<noteq> 0xE0" "a \<noteq> 0xED" "a \<noteq> 0xF0" "a \<noteq> 0xF4" using two by auto
    then show thesis using that(2) [of 1] two bs by (simp add: utf8_width_def utf8_second_def)
  next
    case three
    then obtain b c cs where bs: "bs = b # c # cs" "utf8_cont b" "a = 0xE0 \<longrightarrow> 0xA0 \<le> b" "a = 0xED \<longrightarrow> b \<le> 0x9F" "utf8_cont c" "utf8_valid cs"
      using assms by (subst (asm) utf8_valid.simps(2)) (auto simp del: utf8_valid.simps split: list.splits)
    have "a \<noteq> 0xF0" "a \<noteq> 0xF4" using three by auto
    then show thesis using that(2) [of 2] three bs by (simp add: utf8_width_def utf8_second_def numeral_2_eq_2)
  next
    case four
    then obtain b c d cs where bs: "bs = b # c # d # cs" "utf8_cont b" "a = 0xF0 \<longrightarrow> 0x90 \<le> b" "a = 0xF4 \<longrightarrow> b \<le> 0x8F"
      "utf8_cont c" "utf8_cont d" "utf8_valid cs" and a: "0xF0 \<le> a \<and> a \<le> 0xF4"
      using assms by (subst (asm) utf8_valid.simps(2)) (auto simp del: utf8_valid.simps split: list.splits if_splits)
    have "a \<noteq> 0xE0" "a \<noteq> 0xED" using four a by auto
    then show thesis using that(2) [of 3] four a bs by (simp add: utf8_width_def utf8_second_def eval_nat_numeral)
  qed
qed

lemma from_utf8_lossy_valid: "utf8_valid bs \<Longrightarrow> from_utf8_lossy bs = bs"
proof (induction bs rule: length_induct)
  case (1 bs)
  show ?case
  proof (cases bs)
    case (Cons a cs)
    from "1.prems" [unfolded Cons] show ?thesis
    proof (cases rule: utf8_char_cases)
      case 1
      then show ?thesis using "1.IH" Cons by simp
    next
      case (2 n)
      then obtain b ds where cs: "cs = b # ds" by (cases cs) auto
      have "takeWhile utf8_cont (take (utf8_width a - 2) ds) = take (n - 1) ds"
      proof -
        have "utf8_width a - 2 = n - 1" using 2(1) by simp
        then show ?thesis using 2(5) cs by (simp add: takeWhile_eq_all_conv list_all_iff)
      qed
      then have "utf8_prefix a cs = n" using 2 cs by (simp add: utf8_prefix_def)
      then show ?thesis using 2 "1.IH" Cons by (simp add: Let_def)
    qed
  qed simp
qed

definition url_char :: "char \<Rightarrow> string" where
  "url_char c = (if url_plain c then [c] else if c = CHR '' '' then ''+'' else ''%'' @ hex2_upper (byte_of_char c))"

lemma url_encode_Cons: "url_encode (c # cs) = url_char c @ url_encode cs"
  by (simp add: url_encode_def url_char_def)

lemma url_char_safe:
  assumes "x \<in> set (url_char c)"
  shows "(of_char x :: nat) < 128 \<and> 32 < (of_char x :: nat)"
proof -
  have d: "32 < (of_char (digit_char d) :: nat) \<and> (of_char (digit_char d) :: nat) < 128" if "d < 16" for d
    using that by (simp add: of_char_digit_char)
  have "unat (byte_of_char c) < 256" using unsigned_less [of "byte_of_char c", where ?'a = nat] by simp
  then have "unat (byte_of_char c) div 16 < 16" by simp
  then show ?thesis
    using assms d [of "unat (byte_of_char c) div 16"] d [of "unat (byte_of_char c) mod 16"]
    by (auto simp: url_char_def url_plain_def hex2_upper_def Let_def split: if_splits)
qed

lemma url_encode_safe: "x \<in> set (url_encode s) \<Longrightarrow> (of_char x :: nat) < 128 \<and> 32 < (of_char x :: nat)"
  by (induction s) (auto simp: url_encode_Cons url_encode_def [of "[]"] dest: url_char_safe)

lemma ascii_boundary:
  assumes "\<And>x. x \<in> set s \<Longrightarrow> (of_char x :: nat) < 128"
  shows "char_boundary s"
proof (cases s)
  case (Cons c cs)
  then have "(of_char c :: nat) < 128" using assms by simp
  then show ?thesis by (simp add: Cons char_boundary_def utf8_cont_def byte_of_char_def word_le_nat_alt unat_of_nat)
qed (simp add: char_boundary_def)

lemma parse_hex2: "parse_int 16 False 0 255 (hex2_upper b) = Some (uint b)"
proof -
  have b: "unat b < 256" using unsigned_less [of b, where ?'a = nat] by simp
  have "digit_char d \<noteq> CHR ''+''" if "d < 16" for d
  proof
    assume "digit_char d = CHR ''+''"
    then have "(of_char (digit_char d) :: nat) = 43" by simp
    then show False using that by (simp add: of_char_digit_char split: if_splits)
  qed
  then have "digit_char (unat b div 16) \<noteq> CHR ''+''" using b by simp
  moreover have "unat b div 16 * 16 + unat b mod 16 = unat b" by simp
  moreover have "uint b \<le> 255" using unsigned_less [of b, where ?'a = int] by simp
  ultimately show ?thesis using b
    by (simp add: parse_int_def hex2_upper_def Let_def to_digit_digit_char)
qed

lemma url_decode_bytes_encode: "url_decode_bytes (url_encode s) = as_bytes s"
proof (induction s)
  case (Cons c s)
  have "char_boundary (url_encode s)" by (rule ascii_boundary) (use url_encode_safe in blast)
  moreover have "char_boundary (hex2_upper (byte_of_char c) @ url_encode s)" if "\<not> url_plain c" "c \<noteq> CHR '' ''"
    using that url_encode_safe [of _ "c # s"] by (intro ascii_boundary) (auto simp: url_encode_Cons url_char_def)
  moreover have "url_plain c \<Longrightarrow> c \<noteq> CHR ''+'' \<and> c \<noteq> CHR ''%''" by (auto simp: url_plain_def)
  moreover have "length (hex2_upper (byte_of_char c)) = 2" by (simp add: hex2_upper_def)
  ultimately show ?case
    using Cons parse_hex2 [of "byte_of_char c"]
    by (auto simp: url_encode_Cons url_char_def as_bytes_def byte_of_char_def [of "CHR '' ''"])
qed (simp add: url_encode_def as_bytes_def)

lemma url_decode_encode: "utf8_valid (as_bytes s) \<Longrightarrow> url_decode (url_encode s) = s"
  by (simp add: url_decode_def url_decode_bytes_encode from_utf8_lossy_valid)

subsection \<open>Served paths\<close>

text \<open>The text of a path of names; the served directory itself is \<^verbatim>\<open>/\<close>.\<close>

definition path_string :: "string list \<Rightarrow> string" where
  "path_string names = concat (map (\<lambda>name. ''/'' @ name) names)"

definition names_ok :: "string list \<Rightarrow> bool" where
  "names_ok names \<longleftrightarrow> list_all fs_name names"

definition served_path :: "string \<Rightarrow> bool" where
  "served_path path \<longleftrightarrow>
     path = ''/'' \<or> (\<exists>names. names \<noteq> [] \<and> names_ok names \<and> hd names \<noteq> LIST_FILE_NAME \<and> path = path_string names)"

lemma path_string_simps [simp]:
  "path_string [] = []" "path_string (n # ns) = CHR ''/'' # n @ path_string ns" "path_string (ns @ ms) = path_string ns @ path_string ms"
  by (simp_all add: path_string_def)

lemma split_on_path: "CHR ''/'' \<notin> set n \<Longrightarrow> names_ok ns \<Longrightarrow> split_on (CHR ''/'') (n @ path_string ns) = n # ns"
proof (induction ns arbitrary: n)
  case Nil
  then show ?case by (induction n) auto
next
  case (Cons m ns)
  have "split_on (CHR ''/'') (CHR ''/'' # m @ path_string ns) = [] # m # ns"
    using Cons.IH [of m] Cons.prems(2) by (simp add: names_ok_def fs_name_def)
  then show ?case using Cons.prems(1) by (induction n) auto
qed

lemma names_ok_filter: "names_ok ns \<Longrightarrow> filter (\<lambda>c. c \<noteq> [] \<and> c \<noteq> ''.'') ns = ns"
  by (auto simp: names_ok_def list_all_iff fs_name_def intro!: filter_True)

lemma registry_fs_path_names:
  assumes "names_ok ns"
  shows "registry_fs_path w (path_string ns) = ftp_root w @ ns"
proof (cases ns)
  case (Cons n ms)
  then have n: "fs_name n" "names_ok ms" using assms by (simp_all add: names_ok_def)
  then obtain c cs where c: "n = c # cs" "c \<noteq> CHR ''/''" by (cases n) (auto simp: fs_name_def)
  have "trim_start_matches (CHR ''/'') (path_string ns) = n @ path_string ms" using c by (simp add: Cons trim_start_matches_def)
  moreover have "CHR ''/'' \<notin> set n" using n(1) by (simp add: fs_name_def)
  ultimately have "registry_fs_path w (path_string ns) = ftp_root w @ filter (\<lambda>c. c \<noteq> [] \<and> c \<noteq> ''.'') ns"
    using split_on_path n(2) by (simp add: registry_fs_path_def Cons)
  then show ?thesis by (simp only: names_ok_filter [OF assms])
qed (simp add: registry_fs_path_def trim_start_matches_def)

lemma registry_fs_path_root: "registry_fs_path w ''/'' = ftp_root w"
  by (simp add: registry_fs_path_def trim_start_matches_def)

text \<open>A served path is the text of the names below the served directory.\<close>

definition below :: "string \<Rightarrow> string list" where
  "below path = (if path = ''/'' then [] else split_on (CHR ''/'') (tl path))"

lemma below_path_string: "names_ok ns \<Longrightarrow> ns \<noteq> [] \<Longrightarrow> below (path_string ns) = ns"
  by (cases ns) (auto simp: below_def split_on_path names_ok_def fs_name_def)

lemma served_below:
  assumes "served_path path"
  shows "names_ok (below path)" "below path = [] \<or> hd (below path) \<noteq> LIST_FILE_NAME" "registry_fs_path w path = ftp_root w @ below path"
    "path = (if below path = [] then ''/'' else path_string (below path))"
proof -
  have "names_ok (below path) \<and> (below path = [] \<or> hd (below path) \<noteq> LIST_FILE_NAME) \<and> registry_fs_path w path = ftp_root w @ below path
    \<and> path = (if below path = [] then ''/'' else path_string (below path))"
  proof (cases "path = ''/''")
    case True
    then show ?thesis by (simp add: below_def names_ok_def registry_fs_path_root)
  next
    case False
    then obtain ns where "ns \<noteq> []" "names_ok ns" "hd ns \<noteq> LIST_FILE_NAME" "path = path_string ns"
      using assms by (auto simp: served_path_def)
    then show ?thesis using below_path_string registry_fs_path_names by auto
  qed
  then show "names_ok (below path)" "below path = [] \<or> hd (below path) \<noteq> LIST_FILE_NAME" "registry_fs_path w path = ftp_root w @ below path"
    "path = (if below path = [] then ''/'' else path_string (below path))" by blast+
qed

lemma served_utf8: "served_path path \<Longrightarrow> utf8_valid (as_bytes path)"
proof -
  have "utf8_valid (as_bytes (path_string ns))" if "names_ok ns" for ns
    using that
  proof (induction ns)
    case (Cons n ns)
    then have "utf8_valid (as_bytes n @ as_bytes (path_string ns))"
      by (intro utf8_valid_append) (auto simp: names_ok_def fs_name_def)
    then show ?case by (simp add: as_bytes_def byte_of_char_def)
  qed (simp add: as_bytes_def)
  moreover have "utf8_valid (as_bytes ''/'')" by (simp add: as_bytes_def byte_of_char_def)
  ultimately show "served_path path \<Longrightarrow> utf8_valid (as_bytes path)" by (auto simp: served_path_def)
qed

lemma child_of_served:
  assumes "served_path path" and "fs_name name"
  shows "trim_end_matches (CHR ''/'') path @ ''/'' @ name = path_string (below path @ [name])" and "names_ok (below path @ [name])"
proof -
  show "names_ok (below path @ [name])" using served_below(1) [OF assms(1)] assms(2) by (simp add: names_ok_def)
  show "trim_end_matches (CHR ''/'') path @ ''/'' @ name = path_string (below path @ [name])"
  proof (cases "below path = []")
    case True
    then have "path = ''/''" using served_below(4) [OF assms(1)] by simp
    then show ?thesis by (simp add: below_def trim_end_matches_def)
  next
    case False
    then obtain ns n where b: "below path = ns @ [n]" by (metis rev_exhaust)
    have "fs_name n" using served_below(1) [OF assms(1)] b by (simp add: names_ok_def)
    then have "n \<noteq> []" "last n \<noteq> CHR ''/''" by (auto simp: fs_name_def dest: last_in_set)
    then obtain m c where n: "n = m @ [c]" "c \<noteq> CHR ''/''" by (metis append_butlast_last_id)
    have "path = path_string (below path)" using served_below(4) [OF assms(1)] False by simp
    then have "trim_end_matches (CHR ''/'') path = path" using n b by (simp add: trim_end_matches_def)
    then show ?thesis using \<open>path = path_string (below path)\<close> by simp
  qed
qed

lemma parent_of_served:
  assumes "served_path path" and "path \<noteq> ''/''"
  shows "parent_of path = path_string (butlast (below path))"
proof -
  have "below path \<noteq> []" using served_below(4) [OF assms(1)] assms(2) by auto
  then obtain ns n where b: "below path = ns @ [n]" by (metis rev_exhaust)
  then have "path = path_string ns @ CHR ''/'' # n" using served_below(4) [OF assms(1)] by simp
  moreover have "CHR ''/'' \<notin> set n" using served_below(1) [OF assms(1)] b by (simp add: names_ok_def fs_name_def)
  then have "dropWhile (\<lambda>c. c \<noteq> CHR ''/'') (rev n @ CHR ''/'' # rev (path_string ns)) = CHR ''/'' # rev (path_string ns)"
    by (subst dropWhile_append2) auto
  moreover have "path_string (butlast (below path)) = path_string ns" by (simp add: b)
  ultimately show ?thesis by (simp add: parent_of_def)
qed

subsection \<open>Invariant\<close>

text \<open>
  The state of an open service: the registered paths are served ones, each with its number, and the
  list file holds exactly them.
\<close>

definition ftp_ok :: "Ftp \<Rightarrow> bool" where
  "ftp_ok w \<longleftrightarrow> fs_ok (fs_tree (ftp_machine w)) \<and> ''..'' \<notin> set (ftp_root w)
     \<and> list_all served_path (ftp_paths w) \<and> distinct (ftp_paths w)
     \<and> (\<forall>path i. ftp_by_path w path = Some i \<longleftrightarrow> i < length (ftp_paths w) \<and> ftp_paths w ! i = path)
     \<and> (\<exists>entries time. fs_find (ftp_root w) (fs_tree (ftp_machine w)) = Some (FsDir entries time))
     \<and> (\<exists>time. fs_find (ftp_root w @ [LIST_FILE_NAME]) (fs_tree (ftp_machine w)) =
          Some (FsFile (concat (map list_line (ftp_paths w))) time))"

text \<open>
  What a call may do: numbers are only added, and outside of the served directory the file system
  stays as it is.
\<close>

definition ftp_extends :: "Ftp \<Rightarrow> Ftp \<Rightarrow> bool" where
  "ftp_extends w w' \<longleftrightarrow> ftp_root w' = ftp_root w \<and> prefix (ftp_paths w) (ftp_paths w')
     \<and> fs_readable (ftp_machine w') = fs_readable (ftp_machine w) \<and> fs_writable (ftp_machine w') = fs_writable (ftp_machine w)
     \<and> (\<forall>q. \<not> prefix (ftp_root w) q \<and> \<not> prefix q (ftp_root w) \<longrightarrow>
          fs_find q (fs_tree (ftp_machine w')) = fs_find q (fs_tree (ftp_machine w)))"

lemma ftp_extends_refl [simp]: "ftp_extends w w"
  by (simp add: ftp_extends_def)

lemma ftp_extends_trans: "ftp_extends w w' \<Longrightarrow> ftp_extends w' w'' \<Longrightarrow> ftp_extends w w''"
  by (auto simp: ftp_extends_def intro: prefix_order.trans)

text \<open>
  Changes of the tree below the served directory that keep the directory and the list file keep the
  invariant.
\<close>

lemma ftp_ok_change:
  assumes ok: "ftp_ok w" and p: "prefix (ftp_root w) p"
    and m: "m = (ftp_machine w)\<lparr>fs_tree := fs_update p f (fs_tree (ftp_machine w))\<rparr>"
    and f: "\<And>n. fs_find p (fs_tree (ftp_machine w)) = Some n \<Longrightarrow> fs_ok n \<Longrightarrow> fs_ok (f n)"
    and root: "p = ftp_root w \<Longrightarrow> \<exists>entries entries' time time'. fs_find p (fs_tree (ftp_machine w)) = Some (FsDir entries time)
        \<and> f (FsDir entries time) = FsDir entries' time' \<and> map_of entries' LIST_FILE_NAME = map_of entries LIST_FILE_NAME"
    and list: "p \<noteq> ftp_root w \<Longrightarrow> p ! length (ftp_root w) \<noteq> LIST_FILE_NAME"
  shows "ftp_ok (w\<lparr>ftp_machine := m\<rparr>)" and "ftp_extends w (w\<lparr>ftp_machine := m\<rparr>)"
proof -
  let ?t = "fs_tree (ftp_machine w)" and ?r = "ftp_root w"
  obtain ns where ns: "p = ?r @ ns" using p by (auto simp: prefix_def)
  have t: "fs_ok ?t" using ok by (simp add: ftp_ok_def)
  have "fs_ok (fs_update p f ?t)" using t f fs_ok_find [OF t] by (intro fs_ok_update) auto
  moreover have "(\<exists>entries time. fs_find ?r (fs_update p f ?t) = Some (FsDir entries time)) \<and>
      fs_find (?r @ [LIST_FILE_NAME]) (fs_update p f ?t) = fs_find (?r @ [LIST_FILE_NAME]) ?t"
  proof (cases "ns = []")
    case True
    then have "p = ?r" using ns by simp
    with root obtain entries entries' time time' where e: "fs_find ?r ?t = Some (FsDir entries time)"
      "f (FsDir entries time) = FsDir entries' time'" "map_of entries' LIST_FILE_NAME = map_of entries LIST_FILE_NAME" by blast
    then show ?thesis using fs_find_update_below [of p "[]" f ?t] fs_find_update_below [of p "[LIST_FILE_NAME]" f ?t]
      by (simp add: \<open>p = ?r\<close> fs_find_append)
  next
    case False
    then obtain n ms where nm: "ns = n # ms" "n \<noteq> LIST_FILE_NAME" using list ns by (cases ns) (auto simp: nth_append)
    have "fs_find (?r @ [LIST_FILE_NAME]) (fs_update p f ?t) = fs_find (?r @ [LIST_FILE_NAME]) ?t"
      by (rule fs_find_update_other) (auto simp: ns nm)
    moreover have "fs_find (?r @ [LIST_FILE_NAME]) ?t \<noteq> None" using ok by (auto simp: ftp_ok_def)
    ultimately show ?thesis by (cases "fs_find ?r (fs_update p f ?t)") (auto simp: fs_find_append split: FsNode.splits option.splits elim: fs_find.elims)
  qed
  ultimately show "ftp_ok (w\<lparr>ftp_machine := m\<rparr>)" using ok by (simp add: ftp_ok_def m)
  have "\<not> prefix ?r q \<and> \<not> prefix q ?r \<Longrightarrow> fs_find q (fs_update p f ?t) = fs_find q ?t" for q
    by (rule fs_find_update_other) (auto simp: ns prefix_append intro: prefix_order.trans, metis append_prefixD prefix_order.dual_order.refl prefix_same_cases)
  then show "ftp_extends w (w\<lparr>ftp_machine := m\<rparr>)" by (auto simp: ftp_extends_def m)
qed

lemma ftp_by_path_iff: "ftp_ok w \<Longrightarrow> ftp_by_path w path = Some i \<longleftrightarrow> i < length (ftp_paths w) \<and> ftp_paths w ! i = path"
  by (simp add: ftp_ok_def)

lemma ftp_by_path_None: "ftp_ok w \<Longrightarrow> ftp_by_path w path = None \<longleftrightarrow> path \<notin> set (ftp_paths w)"
  using ftp_by_path_iff [of w path] by (cases "ftp_by_path w path") (auto simp: in_set_conv_nth)

lemma register_path_ok:
  assumes ok: "ftp_ok w" and path: "served_path path" "ftp_by_path w path = None" and reg: "register_path path w = (r, w')"
  shows "ftp_ok w'" and "ftp_extends w w'"
proof -
  let ?L = "ftp_root w @ [LIST_FILE_NAME]" and ?t = "fs_tree (ftp_machine w)"
  show "ftp_ok w'"
  proof (cases "fs_full (ftp_machine w)")
    case True
    then show ?thesis using ok reg by (simp add: register_path_def)
  next
    case False
    let ?f = "\<lambda>node. case node of FsFile content _ \<Rightarrow> FsFile (content @ list_line path) (fs_now (ftp_machine w)) | other \<Rightarrow> other"
    obtain time where list: "fs_find ?L ?t = Some (FsFile (concat (map list_line (ftp_paths w))) time)"
      using ok by (auto simp: ftp_ok_def)
    obtain entries time' where root: "fs_find (ftp_root w) ?t = Some (FsDir entries time')" using ok by (auto simp: ftp_ok_def)
    have "fs_ok ?t" using ok by (simp add: ftp_ok_def)
    then have "fs_ok (fs_update ?L ?f ?t)" using list by (intro fs_ok_update) auto
    moreover have "fs_find ?L (fs_update ?L ?f ?t) = Some (FsFile (concat (map list_line (ftp_paths w @ [path]))) (fs_now (ftp_machine w)))"
      using list by (simp add: fs_find_update_same)
    moreover from this have "\<exists>entries time. fs_find (ftp_root w) (fs_update ?L ?f ?t) = Some (FsDir entries time)"
      by (cases "fs_find (ftp_root w) (fs_update ?L ?f ?t)") (auto simp: fs_find_append split: option.splits elim: fs_find.elims)
    moreover have "path \<notin> set (ftp_paths w)" using ftp_by_path_None [OF ok] path(2) by simp
    moreover have "((ftp_by_path w)(path \<mapsto> length (ftp_paths w))) q = Some i \<longleftrightarrow>
        i < length (ftp_paths w @ [path]) \<and> (ftp_paths w @ [path]) ! i = q" for q i
      using ftp_by_path_iff [OF ok, of q i] path(2) by (auto simp: nth_append less_Suc_eq)
    ultimately show ?thesis using ok path reg False
      by (clarsimp simp: register_path_def append_to_list_def ftp_ok_def Let_def)
  qed
  have "\<not> prefix (ftp_root w) q \<and> \<not> prefix q (ftp_root w) \<Longrightarrow> fs_find q (fs_update ?L f ?t) = fs_find q ?t" for q f
    by (rule fs_find_update_other) (auto intro: append_prefixD)
  then show "ftp_extends w w'" using reg
    by (auto simp: register_path_def append_to_list_def ftp_extends_def Let_def split: if_splits)
qed

lemma number_of_ok:
  assumes ok: "ftp_ok w" and ns: "names_ok ns" and num: "number_of (path_string ns) w = (r, w')"
  shows "ftp_ok w'" and "ftp_extends w w'"
proof -
  let ?p = "if path_string ns = [] then ''/'' else path_string ns"
  have "served_path ?p" if "LIST_FILE_NAME \<notin> set (split_on (CHR ''/'') ?p)"
  proof (cases ns)
    case (Cons n ms)
    then have "split_on (CHR ''/'') ?p = [] # n # ms" using ns split_on_path [of "[]" ns] by simp
    then show ?thesis using that Cons ns by (auto simp: served_path_def)
  qed (simp add: served_path_def)
  then show "ftp_ok w'" "ftp_extends w w'"
    using ok num register_path_ok [OF ok] unfolding number_of_def Let_def
    by (auto split: option.splits if_splits prod.splits)
qed

lemma names_of_ok:
  assumes "ftp_ok w" and "sorted_dir_names (ftp_machine w) p = Some names" and "name \<in> set names"
  shows "fs_name name"
proof -
  obtain q entries time where "fs_locate (ftp_machine w) p = Some (q, FsDir entries time)" "set names = fst ` set entries"
    using assms(2) by (auto simp: sorted_dir_names_def fs_read_dir_def split: option.splits FsNode.splits if_splits)
  moreover from this(1) have "fs_ok (FsDir entries time)"
    using assms(1) fs_ok_find by (fastforce simp: fs_locate_def ftp_ok_def split: option.splits)
  ultimately show ?thesis using assms(3) by (auto simp: list_all_iff)
qed

lemma discover_ok:
  shows "fs_ok node \<Longrightarrow> ftp_ok w \<Longrightarrow> dir = path_string ns \<Longrightarrow> names_ok ns \<Longrightarrow> ns = [] \<or> hd ns \<noteq> LIST_FILE_NAME \<Longrightarrow>
      discover node dir p w = (r, w') \<Longrightarrow> ftp_ok w' \<and> ftp_extends w w'"
    and "list_all (\<lambda>(name, node). fs_name name \<and> fs_ok node) entries \<Longrightarrow> ftp_ok w \<Longrightarrow> dir = path_string ns \<Longrightarrow> names_ok ns \<Longrightarrow>
      ns = [] \<or> hd ns \<noteq> LIST_FILE_NAME \<Longrightarrow>
      discover_entries entries dir p w = (r, w') \<Longrightarrow> ftp_ok w' \<and> ftp_extends w w'"
proof (induction node dir p w and entries dir p w arbitrary: ns r w' and ns r w' rule: discover_discover_entries.induct)
  case (1 content modified dir p w)
  then show ?case by (simp add: discover.simps)
next
  case (2 entries modified dir p w)
  then show ?case by (auto simp: discover.simps list_all_iff split: if_splits)
next
  case (3 dir p w)
  then show ?case by (simp add: discover_entries.simps)
next
  case (4 name node entries dir p w)
  define path where "path = dir @ ''/'' @ name"
  have ns: "path = path_string (ns @ [name])" "names_ok (ns @ [name])" using "4.prems" by (simp_all add: path_def names_ok_def)
  have rest: "list_all (\<lambda>(name, node). fs_name name \<and> fs_ok node) entries" "fs_ok node" using "4.prems"(1) by simp_all
  show ?case
  proof (cases "path = ''/'' @ LIST_FILE_NAME")
    case True
    then show ?thesis using "4.IH"(1) [OF refl _ rest(1) "4.prems"(2-5)] "4.prems"(6) by (simp add: discover_entries.simps path_def)
  next
    case False
    have hd: "hd (ns @ [name]) \<noteq> LIST_FILE_NAME" using False "4.prems"(5) ns(1) by (cases ns) auto
    obtain i w1 where reg: "(if ftp_by_path w path = None then register_path path w else (ftp_by_path w path, w)) = (i, w1)"
      by (cases "if ftp_by_path w path = None then register_path path w else (ftp_by_path w path, w)")
    have "served_path path" using ns hd by (auto simp: served_path_def)
    then have w1: "ftp_ok w1" "ftp_extends w w1" using reg register_path_ok [OF "4.prems"(2)] "4.prems"(2) by (auto split: if_splits)
    obtain ok w2 where sub: "(case node of FsDir _ _ \<Rightarrow> discover node path (p @ [name]) w1 | FsFile _ _ \<Rightarrow> (True, w1)) = (ok, w2)"
      by (cases "case node of FsDir _ _ \<Rightarrow> discover node path (p @ [name]) w1 | FsFile _ _ \<Rightarrow> (True, w1)")
    have step: "discover_entries ((name, node) # entries) dir p w =
        (case i of None \<Rightarrow> (False, w1) | Some _ \<Rightarrow> if ok then discover_entries entries dir p w2 else (False, w2))"
      unfolding discover_entries.simps Let_def path_def [symmetric] reg using False sub by (simp split: option.splits)
    show ?thesis
    proof (cases i)
      case None
      then show ?thesis using "4.prems"(6) step w1 by simp
    next
      case (Some k)
      have w2: "ftp_ok w2 \<and> ftp_extends w1 w2"
      proof (cases node)
        case (FsDir es time)
        then show ?thesis using "4.IH"(2) [OF path_def False reg [symmetric] Some FsDir rest(2) w1(1) ns disjI2 [OF hd], of ok w2] sub by simp
      qed (use sub w1 in auto)
      show ?thesis
      proof (cases ok)
        case True
        then have "discover_entries entries dir p w2 = (r, w')"
          using "4.prems"(6) step Some by simp
        from "4.IH"(3) [OF path_def False reg [symmetric] Some sub [symmetric] eqTrueI [OF True] rest(1) conjunct1 [OF w2] "4.prems"(3-5) this]
        show ?thesis using w1(2) w2 ftp_extends_trans by blast
      next
        case ok: False
        then have "w' = w2" using "4.prems"(6) step Some by simp
        then show ?thesis using w1(2) w2 ftp_extends_trans by blast
      qed
    qed
  qed
qed

subsection \<open>Calls keep the invariant\<close>

lemma served_locate:
  assumes "ftp_ok w" and "names_ok ns" and "fs_locate (ftp_machine w) (ftp_root w @ ns) = Some (q, node)"
  shows "q = ftp_root w @ ns" and "fs_find (ftp_root w @ ns) (fs_tree (ftp_machine w)) = Some node"
proof -
  have "''..'' \<notin> set (ftp_root w @ ns)" using assms(1,2) by (auto simp: ftp_ok_def names_ok_def list_all_iff fs_name_def)
  then show "q = ftp_root w @ ns" "fs_find (ftp_root w @ ns) (fs_tree (ftp_machine w)) = Some node"
    using assms(3) by (auto simp: fs_locate_names)
qed

lemma ftp_node_ok: "ftp_ok w \<Longrightarrow> fs_find p (fs_tree (ftp_machine w)) = Some n \<Longrightarrow> fs_ok n"
  by (rule fs_ok_find) (simp_all add: ftp_ok_def)

lemma fs_find_parent: "fs_find (p @ [name]) t = Some n \<Longrightarrow> \<exists>entries time. fs_find p t = Some (FsDir entries time)"
  by (auto simp: fs_find_append split: option.splits elim: fs_find.elims)

text \<open>Changing the node of a file that is served.\<close>

lemma file_update_ok:
  assumes ok: "ftp_ok w" and ns: "names_ok ns" "ns = [] \<or> hd ns \<noteq> LIST_FILE_NAME"
    and node: "fs_find (ftp_root w @ ns) (fs_tree (ftp_machine w)) = Some (FsFile content time)"
    and m: "m = (ftp_machine w)\<lparr>fs_tree := fs_update (ftp_root w @ ns) (\<lambda>_. FsFile content' time') (fs_tree (ftp_machine w))\<rparr>"
  shows "ftp_ok (w\<lparr>ftp_machine := m\<rparr>)" and "ftp_extends w (w\<lparr>ftp_machine := m\<rparr>)"
proof -
  have "ns \<noteq> []" using ok node by (auto simp: ftp_ok_def)
  then show "ftp_ok (w\<lparr>ftp_machine := m\<rparr>)" "ftp_extends w (w\<lparr>ftp_machine := m\<rparr>)"
    using ftp_ok_change [OF ok _ m] ns(2) by (auto simp: nth_append hd_conv_nth)
qed

lemma fs_change_ok:
  assumes ok: "ftp_ok w" and path: "served_path path"
    and change: "fs_change f (registry_fs_path w path) (ftp_machine w) = Some (content, m)"
  shows "ftp_ok (w\<lparr>ftp_machine := m\<rparr>)" and "ftp_extends w (w\<lparr>ftp_machine := m\<rparr>)"
proof -
  note below = served_below(1,2) [OF path] served_below(3) [OF path, of w]
  obtain q c t c' where loc: "fs_locate (ftp_machine w) (ftp_root w @ below path) = Some (q, FsFile c t)"
    and m: "m = (ftp_machine w)\<lparr>fs_tree := fs_update q (\<lambda>_. FsFile c' (fs_now (ftp_machine w))) (fs_tree (ftp_machine w))\<rparr>"
    using change unfolding fs_change_def below(3) by (auto split: option.splits FsNode.splits if_splits)
  note q = served_locate [OF ok below(1) loc]
  show "ftp_ok (w\<lparr>ftp_machine := m\<rparr>)" "ftp_extends w (w\<lparr>ftp_machine := m\<rparr>)"
    using file_update_ok [OF ok below(1,2) q(2) m [unfolded q(1)]] by simp_all
qed

lemma fs_set_modified_ok:
  assumes ok: "ftp_ok w" and path: "served_path path"
    and set: "fs_set_modified time (registry_fs_path w path) (ftp_machine w) = Some m"
  shows "ftp_ok (w\<lparr>ftp_machine := m\<rparr>)" and "ftp_extends w (w\<lparr>ftp_machine := m\<rparr>)"
proof -
  note below = served_below(1,2) [OF path] served_below(3) [OF path, of w]
  obtain q c t where loc: "fs_locate (ftp_machine w) (ftp_root w @ below path) = Some (q, FsFile c t)"
    and m: "m = (ftp_machine w)\<lparr>fs_tree := fs_update q (\<lambda>_. FsFile c time) (fs_tree (ftp_machine w))\<rparr>"
    using set unfolding fs_set_modified_def below(3) by (auto split: option.splits FsNode.splits if_splits)
  note q = served_locate [OF ok below(1) loc]
  show "ftp_ok (w\<lparr>ftp_machine := m\<rparr>)" "ftp_extends w (w\<lparr>ftp_machine := m\<rparr>)"
    using file_update_ok [OF ok below(1,2) q(2) m [unfolded q(1)]] by simp_all
qed

text \<open>Changing the entries of a served directory: the entry of the list file stays.\<close>

lemma entries_update_ok:
  assumes ok: "ftp_ok w" and ns: "ns = [] \<or> hd ns \<noteq> LIST_FILE_NAME"
    and node: "fs_find (ftp_root w @ ns) (fs_tree (ftp_machine w)) = Some (FsDir entries time)"
    and f: "f (FsDir entries time) = FsDir entries' time'" "fs_ok (FsDir entries' time')"
      "ns = [] \<Longrightarrow> map_of entries' LIST_FILE_NAME = map_of entries LIST_FILE_NAME"
    and m: "m = (ftp_machine w)\<lparr>fs_tree := fs_update (ftp_root w @ ns) f (fs_tree (ftp_machine w))\<rparr>"
  shows "ftp_ok (w\<lparr>ftp_machine := m\<rparr>)" and "ftp_extends w (w\<lparr>ftp_machine := m\<rparr>)"
proof -
  have "p = ftp_root w \<Longrightarrow> \<exists>entries entries' time time'. fs_find p (fs_tree (ftp_machine w)) = Some (FsDir entries time)
        \<and> f (FsDir entries time) = FsDir entries' time' \<and> map_of entries' LIST_FILE_NAME = map_of entries LIST_FILE_NAME"
    if "p = ftp_root w @ ns" for p
    using that node f(1,3) by auto
  moreover have "ns \<noteq> [] \<Longrightarrow> (ftp_root w @ ns) ! length (ftp_root w) \<noteq> LIST_FILE_NAME" using ns by (simp add: nth_append hd_conv_nth)
  moreover have "fs_find (ftp_root w @ ns) (fs_tree (ftp_machine w)) = Some n \<Longrightarrow> fs_ok (f n)" for n using node f(1,2) by simp
  ultimately show "ftp_ok (w\<lparr>ftp_machine := m\<rparr>)" "ftp_extends w (w\<lparr>ftp_machine := m\<rparr>)"
    using ftp_ok_change [OF ok _ m] by simp_all
qed

lemma fs_create_ok:
  assumes ok: "ftp_ok w" and ns: "names_ok (ns @ [name])" "hd (ns @ [name]) \<noteq> LIST_FILE_NAME" and node: "fs_ok node"
    and create: "fs_create node (ftp_root w @ ns @ [name]) (ftp_machine w) = Some m"
  shows "ftp_ok (w\<lparr>ftp_machine := m\<rparr>)" and "ftp_extends w (w\<lparr>ftp_machine := m\<rparr>)"
proof -
  let ?t = "fs_tree (ftp_machine w)" and ?q = "ftp_root w @ ns @ [name]"
  have dots: "''..'' \<notin> set ?q" using ok ns(1) by (auto simp: ftp_ok_def names_ok_def list_all_iff fs_name_def)
  have b: "butlast ?q = ftp_root w @ ns" "last ?q = name" by (simp_all add: butlast_append)
  obtain q where "fs_resolve ?t [] ?q = Some q" using create by (auto simp: fs_create_def split: option.splits)
  moreover from fs_resolve_names [OF dots this] have "q = ?q" by simp
  ultimately obtain entries time where dir: "fs_find (ftp_root w @ ns) ?t = Some (FsDir entries time)" and new: "fs_find ?q ?t = None"
    and m: "m = (ftp_machine w)\<lparr>fs_tree := fs_update (ftp_root w @ ns)
      (\<lambda>dir. case dir of FsDir entries _ \<Rightarrow> FsDir (entries @ [(name, node)]) (fs_now (ftp_machine w)) | other \<Rightarrow> other) ?t\<rparr>"
    using create unfolding fs_create_def by (auto simp: b split: option.splits FsNode.splits if_splits)
  have "map_of entries name = None" using new dir by (simp add: fs_find_append split: option.splits)
  moreover have "fs_ok (FsDir entries time)" using ok dir by (rule ftp_node_ok)
  moreover have "fs_name name" using ns(1) by (simp add: names_ok_def)
  ultimately have "fs_ok (FsDir (entries @ [(name, node)]) (fs_now (ftp_machine w)))" using node by (auto simp: map_of_eq_None_iff)
  moreover have "ns = [] \<or> hd ns \<noteq> LIST_FILE_NAME" using ns(2) by (cases ns) auto
  moreover have "ns = [] \<Longrightarrow> map_of (entries @ [(name, node)]) LIST_FILE_NAME = map_of entries LIST_FILE_NAME"
    using ns(2) by (simp add: map_add_def split: option.splits)
  ultimately show "ftp_ok (w\<lparr>ftp_machine := m\<rparr>)" "ftp_extends w (w\<lparr>ftp_machine := m\<rparr>)"
    using entries_update_ok [OF ok _ dir _ _ _ m] by auto
qed

lemma fs_remove_ok:
  assumes ok: "ftp_ok w" and path: "served_path path"
    and rem: "fs_remove dir (registry_fs_path w path) (ftp_machine w) = Some m"
  shows "ftp_ok (w\<lparr>ftp_machine := m\<rparr>)" and "ftp_extends w (w\<lparr>ftp_machine := m\<rparr>)"
proof -
  let ?t = "fs_tree (ftp_machine w)"
  note below = served_below(1,2) [OF path] served_below(3) [OF path, of w]
  obtain q node where loc: "fs_locate (ftp_machine w) (ftp_root w @ below path) = Some (q, node)" and node: "fs_removable dir node"
    and m: "m = (ftp_machine w)\<lparr>fs_tree := fs_update (butlast q)
      (\<lambda>d. case d of FsDir entries _ \<Rightarrow> FsDir (filter (\<lambda>(n, _). n \<noteq> last q) entries) (fs_now (ftp_machine w)) | other \<Rightarrow> other) ?t\<rparr>"
    using rem unfolding fs_remove_def below(3) by (auto split: option.splits if_splits)
  note q = served_locate [OF ok below(1) loc]
  have "below path \<noteq> []"
  proof
    assume "below path = []"
    then have "fs_find (ftp_root w) ?t = Some node" using q by simp
    moreover obtain entries time where "fs_find (ftp_root w) ?t = Some (FsDir entries time)" using ok by (auto simp: ftp_ok_def)
    moreover have "fs_find (ftp_root w @ [LIST_FILE_NAME]) ?t \<noteq> None" using ok by (auto simp: ftp_ok_def)
    ultimately show False using node by (auto simp: fs_find_append fs_removable_def)
  qed
  then obtain ns name where b: "below path = ns @ [name]" by (metis rev_exhaust)
  have bq: "butlast q = ftp_root w @ ns" "last q = name" using q(1) by (simp_all add: b butlast_append)
  obtain entries time where dir: "fs_find (ftp_root w @ ns) ?t = Some (FsDir entries time)"
    using q(2) fs_find_parent [of "ftp_root w @ ns" name ?t node] by (auto simp: b)
  have "fs_ok (FsDir entries time)" using ok dir by (rule ftp_node_ok)
  then have "fs_ok (FsDir (filter (\<lambda>(n, _). n \<noteq> name) entries) (fs_now (ftp_machine w)))"
    by (auto simp: list_all_iff distinct_map_filter)
  moreover have "ns = [] \<or> hd ns \<noteq> LIST_FILE_NAME" using below(2) b by (cases ns) auto
  moreover have "ns = [] \<Longrightarrow> map_of (filter (\<lambda>(n, _). n \<noteq> name) entries) LIST_FILE_NAME = map_of entries LIST_FILE_NAME"
    using below(2) b by (induction entries) auto
  ultimately show "ftp_ok (w\<lparr>ftp_machine := m\<rparr>)" "ftp_extends w (w\<lparr>ftp_machine := m\<rparr>)"
    using entries_update_ok [OF ok _ dir _ _ _ m [unfolded bq]] by auto
qed

text \<open>The step of a function, from a state with the invariant.\<close>

definition ftp_step :: "Ftp \<Rightarrow> 'a \<times> Ftp \<Rightarrow> bool" where
  "ftp_step w r \<longleftrightarrow> ftp_ok (snd r) \<and> ftp_extends w (snd r)"

lemma ftp_step_refl [simp]: "ftp_ok w \<Longrightarrow> ftp_step w (r, w)"
  by (simp add: ftp_step_def)

lemma number_of_step: "ftp_ok w \<Longrightarrow> names_ok ns \<Longrightarrow> ftp_step w (number_of (path_string ns) w)"
  using number_of_ok [of w ns] by (cases "number_of (path_string ns) w") (simp add: ftp_step_def)

lemma vu_or_errno_step: "ftp_step w r \<Longrightarrow> ftp_step w (vu_or_errno r)"
  by (auto simp: ftp_step_def vu_or_errno_def split: prod.splits sum.splits)

lemma ftp_parent_step:
  assumes "ftp_ok w" and "served_path path"
  shows "ftp_step w (ftp_parent path w)"
proof -
  have "names_ok (butlast (below path))" using served_below(1) [OF assms(2)] by (auto simp: names_ok_def list_all_iff dest: in_set_butlastD)
  then show ?thesis using assms(1) parent_of_served [OF assms(2)] by (simp add: ftp_parent_def vu_or_errno_step number_of_step)
qed

lemma child_path_ok:
  assumes "served_path path" and "child_path path name = Inr child" and "utf8_valid (as_bytes name)"
  shows "child = path_string (below path @ [name])" "names_ok (below path @ [name])" "hd (below path @ [name]) \<noteq> LIST_FILE_NAME"
proof -
  have name: "fs_name name" "name \<noteq> LIST_FILE_NAME" "child = trim_end_matches (CHR ''/'') path @ ''/'' @ name"
    using assms(2,3) by (auto simp: child_path_def fs_name_def split: if_splits)
  show "child = path_string (below path @ [name])" "names_ok (below path @ [name])"
    using child_of_served [OF assms(1) name(1)] name(3) by simp_all
  show "hd (below path @ [name]) \<noteq> LIST_FILE_NAME" using served_below(2) [OF assms(1)] name(2) by (cases "below path") auto
qed

lemma list_numbers_step:
  assumes "served_path path" and "\<And>name. name \<in> set names \<Longrightarrow> utf8_valid (as_bytes name)"
  shows "ftp_ok w \<Longrightarrow> ftp_step w (list_numbers path names ns w)"
  using assms(2)
proof (induction names arbitrary: ns w)
  case (Cons name names)
  show ?case
  proof (cases "child_path path name")
    case (Inr child)
    obtain r w1 where num: "number_of child w = (r, w1)" by (cases "number_of child w")
    have step: "ftp_step w (r, w1)"
      using number_of_step [OF Cons.prems(1)] child_path_ok(1,2) [OF assms(1) Inr] Cons.prems(2) num by (metis list.set_intros(1))
    show ?thesis
    proof (cases r)
      case (Inr n)
      have "ftp_step w1 (list_numbers path names (ns @ [RvVUnsigned (int n)]) w1)"
        using Cons.IH [of w1] step Cons.prems(2) by (simp add: ftp_step_def)
      then show ?thesis using step Inr \<open>child_path path name = Inr child\<close> num ftp_extends_trans by (fastforce simp: ftp_step_def)
    qed (use step num Inr in \<open>simp add: ftp_step_def\<close>)
  qed (use Cons.prems in simp)
qed simp

lemma ftp_list_step:
  assumes "ftp_ok w" and "served_path path"
  shows "ftp_step w (ftp_list path p w)"
proof (cases "sorted_dir_names (ftp_machine w) p")
  case (Some names)
  let ?names = "filter (\<lambda>name. name \<noteq> LIST_FILE_NAME) names"
  have "utf8_valid (as_bytes name)" if "name \<in> set ?names" for name
    using names_of_ok [OF assms(1) Some] that by (simp add: fs_name_def)
  then have "ftp_step w (list_numbers path ?names [] w)" by (rule list_numbers_step [OF assms(2) _ assms(1)])
  then show ?thesis using Some by (auto simp: ftp_list_def ftp_step_def split: prod.splits sum.splits)
qed (use assms(1) in \<open>simp add: ftp_list_def\<close>)

lemma ftp_child_step:
  assumes "ftp_ok w" and "served_path path"
  shows "ftp_step w (ftp_child path p index w)"
proof -
  have "ftp_step w (number_of (trim_end_matches (CHR ''/'') path @ ''/'' @ names ! i) w)"
    if "sorted_dir_names (ftp_machine w) p = Some names" "i < length names" for names i
    using child_of_served [OF assms(2) names_of_ok [OF assms(1) that(1) nth_mem [OF that(2)]]] number_of_step [OF assms(1)] by metis
  then show ?thesis using assms(1) by (auto simp: ftp_child_def intro: vu_or_errno_step split: option.splits)
qed

lemma ftp_create_step:
  assumes ok: "ftp_ok w" and path: "served_path path" and name: "utf8_valid (as_bytes name)"
  shows "ftp_step w (ftp_create dir path p name w)"
proof (cases "(dir \<and> \<not> fs_is_dir (ftp_machine w) p) \<or> (\<exists>e. child_path path name = Inl e)")
  case False
  then obtain child where child: "child_path path name = Inr child" by (cases "child_path path name") auto
  let ?node = "if dir then FsDir [] (fs_now (ftp_machine w)) else FsFile [] (fs_now (ftp_machine w))"
  note c = child_path_ok [OF path child name]
  have "ftp_step w (vu_or_errno (number_of child (w\<lparr>ftp_machine := m\<rparr>)))"
    if "fs_create ?node (registry_fs_path w child) (ftp_machine w) = Some m" for m
  proof -
    have "fs_create ?node (ftp_root w @ below path @ [name]) (ftp_machine w) = Some m"
      using that unfolding c(1) registry_fs_path_names [OF c(2)] .
    moreover have "fs_ok ?node" by simp
    ultimately have m: "ftp_ok (w\<lparr>ftp_machine := m\<rparr>)" "ftp_extends w (w\<lparr>ftp_machine := m\<rparr>)" using fs_create_ok [OF ok c(2,3)] by blast+
    have "ftp_step (w\<lparr>ftp_machine := m\<rparr>) (number_of child (w\<lparr>ftp_machine := m\<rparr>))"
      using number_of_step [OF m(1) c(2)] c(1) by simp
    then show ?thesis using ftp_extends_trans [OF m(2)] by (intro vu_or_errno_step) (simp add: ftp_step_def)
  qed
  then show ?thesis using False child ok by (auto simp: ftp_create_def split: option.splits)
qed (use ok in \<open>auto simp: ftp_create_def\<close>)

lemma ftp_set_modified_step: "ftp_ok w \<Longrightarrow> served_path path \<Longrightarrow> ftp_step w (ftp_set_modified (registry_fs_path w path) time w)"
  using fs_set_modified_ok by (auto simp: ftp_set_modified_def ftp_step_def split: option.splits)

lemma ftp_delete_step: "ftp_ok w \<Longrightarrow> served_path path \<Longrightarrow> ftp_step w (ftp_delete (registry_fs_path w path) w)"
  using fs_remove_ok by (auto simp: ftp_delete_def ftp_step_def split: option.splits)

lemma ftp_truncate_step: "ftp_ok w \<Longrightarrow> served_path path \<Longrightarrow> ftp_step w (ftp_truncate (registry_fs_path w path) len w)"
  using fs_change_ok by (auto simp: ftp_truncate_def ftp_step_def split: option.splits)

lemma ftp_write_step: "ftp_ok w \<Longrightarrow> served_path path \<Longrightarrow> ftp_step w (ftp_write (registry_fs_path w path) position data w)"
  using fs_change_ok by (auto simp: ftp_write_def ftp_step_def Let_def split: option.splits)

lemma ftp_read_string_utf8: "ftp_read_string params = Inr (name, params') \<Longrightarrow> utf8_valid (as_bytes name)"
  by (auto simp: ftp_read_string_def read_param_def read_string_def from_utf8_def Let_def
      split: option.splits outcome.splits RpcValue.splits if_splits prod.splits)

lemma with_param_step:
  assumes "ftp_ok w" and "\<And>x params. r = Inr (x, params) \<Longrightarrow> ftp_ok (snd (snd (f x params))) \<and> ftp_extends w (snd (snd (f x params)))"
  shows "ftp_ok (snd (snd (with_param r w f params))) \<and> ftp_extends w (snd (snd (with_param r w f params)))"
  using assms by (auto simp: with_param_def split: sum.splits)

lemma serve_file_step:
  assumes ok: "ftp_ok w" and path: "served_path path"
  shows "ftp_ok (snd (snd (serve_file index path params w))) \<and> ftp_extends w (snd (snd (serve_file index path params w)))"
  using assms ftp_parent_step [OF assms] ftp_list_step [OF assms] ftp_child_step [OF assms] ftp_create_step [OF assms ftp_read_string_utf8]
    ftp_set_modified_step [OF assms] ftp_delete_step [OF assms] ftp_truncate_step [OF assms] ftp_write_step [OF assms]
  unfolding serve_file_def Let_def
  by (auto simp: ftp_step_def case_prod_unfold intro!: with_param_step)

lemma ftp_serve_step:
  assumes "ftp_ok w"
  shows "ftp_ok (snd (snd (ftp_serve index params w))) \<and> ftp_extends w (snd (snd (ftp_serve index params w)))"
proof -
  have "served_path path" if "path_of file_no w = Inr path" for file_no path
    using that assms by (auto simp: path_of_def ftp_ok_def list_all_iff split: option.splits if_splits)
  then show ?thesis unfolding ftp_serve_def using assms serve_file_step [OF assms] by (auto intro!: with_param_step split: sum.splits)
qed

lemma ftp_call_step:
  assumes "ftp_ok w" and "ftp_call index params w = (r, w')"
  shows "ftp_ok w'" and "ftp_extends w w'"
  using assms ftp_serve_step [OF assms(1), of index params] by (auto simp: ftp_call_def split: if_splits prod.splits)


subsection \<open>Opening\<close>

lemma url_encode_no_newline: "CHR 0x0A \<notin> set (url_encode s)" "CHR 0x0D \<notin> set (url_encode s)"
  using url_encode_safe [of "CHR 0x0A" s] url_encode_safe [of "CHR 0x0D" s] by auto

lemma list_file_lines: "text_lines (concat (map list_line paths)) = map url_encode paths"
proof -
  have "split_on (CHR 0x0A) (of_bytes (concat (map list_line paths))) = map url_encode paths @ [[]]"
  proof (induction paths)
    case (Cons path paths)
    have "of_bytes (concat (map list_line (path # paths))) = url_encode path @ CHR 0x0A # of_bytes (concat (map list_line paths))"
    proof -
      have app: "of_bytes (xs @ ys) = of_bytes xs @ of_bytes ys" for xs ys by (simp add: of_bytes_def)
      have "char_of_byte 0x0A = CHR 0x0A" by code_simp
      then have "of_bytes (0x0A # bs) = CHR 0x0A # of_bytes bs" for bs by (simp add: of_bytes_def)
      then show ?thesis by (simp add: list_line_def app)
    qed
    then show ?case using Cons url_encode_no_newline(1) by (simp add: split_on_append)
  qed (simp add: of_bytes_def)
  moreover have "strip_cr (url_encode path) = url_encode path" for path
    using url_encode_no_newline(2) [of path] by (auto simp: strip_cr_def dest: last_in_set)
  ultimately show ?thesis by (simp add: text_lines_def comp_def)
qed

lemma load_lines_paths:
  assumes "list_all served_path paths" and "distinct (ftp_paths w @ paths)"
    and "\<forall>path i. ftp_by_path w path = Some i \<longleftrightarrow> i < length (ftp_paths w) \<and> ftp_paths w ! i = path"
  shows "\<exists>by. load_lines (map url_encode paths) w = w\<lparr>ftp_paths := ftp_paths w @ paths, ftp_by_path := by\<rparr>
    \<and> (\<forall>path i. by path = Some i \<longleftrightarrow> i < length (ftp_paths w @ paths) \<and> (ftp_paths w @ paths) ! i = path)"
  using assms
proof (induction paths arbitrary: w)
  case (Cons path paths)
  have dec: "url_decode (url_encode path) = path" using Cons.prems(1) url_decode_encode served_utf8 by simp
  have new: "ftp_by_path w path = None"
    using Cons.prems(2,3) by (cases "ftp_by_path w path") (auto simp: in_set_conv_nth)
  let ?w = "w\<lparr>ftp_by_path := (ftp_by_path w)(path \<mapsto> length (ftp_paths w)), ftp_paths := ftp_paths w @ [path]\<rparr>"
  have "\<forall>q i. ftp_by_path ?w q = Some i \<longleftrightarrow> i < length (ftp_paths ?w) \<and> ftp_paths ?w ! i = q"
    using Cons.prems(2,3) new by (auto simp: nth_append less_Suc_eq)
  with Cons.IH [of ?w] Cons.prems(1,2) show ?case by (auto simp: dec new Let_def)
next
  case Nil
  then show ?case by (intro exI [of _ "ftp_by_path w"]) simp
qed

text \<open>
  Opening a directory whose list file was written by the service: every path has its number again.
\<close>

definition registry_closed :: "fs_path \<Rightarrow> string list \<Rightarrow> Machine \<Rightarrow> bool" where
  "registry_closed root paths m \<longleftrightarrow> fs_ok (fs_tree m) \<and> ''..'' \<notin> set root \<and> list_all served_path paths \<and> distinct paths
     \<and> (\<exists>time. fs_find (root @ [LIST_FILE_NAME]) (fs_tree m) = Some (FsFile (concat (map list_line paths)) time))
     \<and> fs_readable m (root @ [LIST_FILE_NAME]) \<and> fs_writable m (root @ [LIST_FILE_NAME])"

lemma registry_reopens:
  assumes closed: "registry_closed root paths m" and open': "registry_open root m = (r, w)"
  shows "prefix paths (ftp_paths w)" and "ftp_ok w" and "ftp_root w = root"
    and "fs_readable (ftp_machine w) = fs_readable m" and "fs_writable (ftp_machine w) = fs_writable m"
    and "\<not> prefix root q \<and> \<not> prefix q root \<Longrightarrow> fs_find q (fs_tree (ftp_machine w)) = fs_find q (fs_tree m)"
proof -
  have dots: "''..'' \<notin> set (root @ [LIST_FILE_NAME])" using closed by (auto simp: registry_closed_def LIST_FILE_NAME_def)
  obtain time where f: "fs_find (root @ [LIST_FILE_NAME]) (fs_tree m) = Some (FsFile (concat (map list_line paths)) time)"
    using closed by (auto simp: registry_closed_def)
  have loc: "fs_locate m (root @ [LIST_FILE_NAME]) = Some (root @ [LIST_FILE_NAME], FsFile (concat (map list_line paths)) time)"
    using f by (simp add: fs_locate_names [OF dots])
  obtain entries t where dir: "fs_find root (fs_tree m) = Some (FsDir entries t)" using fs_find_parent [OF f] by blast
  obtain by' where load: "load_lines (map url_encode paths) (empty_registry root m) = (empty_registry root m)\<lparr>ftp_paths := paths, ftp_by_path := by'\<rparr>"
    and by': "\<forall>path i. by' path = Some i \<longleftrightarrow> i < length paths \<and> paths ! i = path"
    using load_lines_paths [of paths "empty_registry root m"] closed by (auto simp: registry_closed_def empty_registry_def)
  define w0 where "w0 = (empty_registry root m)\<lparr>ftp_paths := paths, ftp_by_path := by'\<rparr>"
  have ok0: "ftp_ok w0" using closed f dir by' by (auto simp: ftp_ok_def w0_def registry_closed_def empty_registry_def)
  obtain i w1 where reg: "(if ftp_paths w0 = [] then register_path ''/'' w0 else (Some 0, w0)) = (i, w1)"
    by (cases "if ftp_paths w0 = [] then register_path ''/'' w0 else (Some 0, w0)")
  have "served_path ''/''" by (simp add: served_path_def)
  then have w1: "ftp_ok w1" "ftp_extends w0 w1"
    using reg register_path_ok [OF ok0, of "''/''"] ok0 ftp_by_path_None [OF ok0] by (auto split: if_splits)
  have ascii: "utf8_valid (as_bytes s)" if "\<And>x. x \<in> set s \<Longrightarrow> (of_char x :: nat) < 128" for s
    using that by (induction s) (auto simp: as_bytes_def byte_of_char_def word_less_nat_alt unat_of_nat)
  have "list_all (\<lambda>line. utf8_valid (as_bytes line)) (map url_encode paths)"
    using ascii url_encode_safe by (fastforce simp: list_all_iff)
  then have "(r, w) = (case (if ftp_paths w0 = [] then register_path ''/'' w0 else (Some 0, w0)) of (None, w) \<Rightarrow> (False, w) | (Some _, w) \<Rightarrow>
      (case fs_locate (ftp_machine w) root of None \<Rightarrow> (False, w) | Some (q, node) \<Rightarrow> discover node [] q w))"
    using open' closed loc
    by (simp add: registry_open_def open_list_file_def fs_read_def list_file_lines registry_closed_def load [folded w0_def] Let_def)
  then have "(r, w) = (case i of None \<Rightarrow> (False, w1) | Some _ \<Rightarrow>
      (case fs_locate (ftp_machine w1) root of None \<Rightarrow> (False, w1) | Some (q, node) \<Rightarrow> discover node [] q w1))"
    unfolding reg by (simp split: option.splits)
  moreover have "ftp_ok w \<and> ftp_extends w1 w" if "discover node [] q w1 = (r, w)" "fs_locate (ftp_machine w1) root = Some (q, node)" for q node
  proof -
    have "fs_ok node" using that(2) w1(1) ftp_node_ok by (auto simp: fs_locate_def split: option.splits)
    then show ?thesis using discover_ok(1) [of node w1 "[]" "[]" q r w] that(1) w1(1) by (simp add: names_ok_def)
  qed
  ultimately have "ftp_ok w \<and> ftp_extends w0 w" using w1 ftp_extends_trans by (auto split: option.splits)
  then show "prefix paths (ftp_paths w)" "ftp_ok w" "ftp_root w = root"
    "fs_readable (ftp_machine w) = fs_readable m" "fs_writable (ftp_machine w) = fs_writable m"
    "\<not> prefix root q \<and> \<not> prefix q root \<Longrightarrow> fs_find q (fs_tree (ftp_machine w)) = fs_find q (fs_tree m)"
    by (auto simp: ftp_extends_def w0_def empty_registry_def)
qed


subsection \<open>The service\<close>

text \<open>The state after a sequence of calls.\<close>

fun ftp_run :: "(u8 \<times> PacketReader) list \<Rightarrow> Ftp \<Rightarrow> Ftp" where
  "ftp_run [] w = w"
| "ftp_run ((index, params) # calls) w = ftp_run calls (snd (ftp_call index params w))"

lemma ftp_run_step: "ftp_ok w \<Longrightarrow> ftp_ok (ftp_run calls w) \<and> ftp_extends w (ftp_run calls w)"
proof (induction calls arbitrary: w)
  case (Cons call calls)
  obtain index params where c: "call = (index, params)" by (cases call)
  note step = ftp_call_step [OF Cons.prems prod.collapse [symmetric], of index params]
  show ?case using Cons.IH [OF step(1)] step(2) ftp_extends_trans by (auto simp: c)
qed simp


text \<open>C29: the numbers of the files survive a restart of the service: after any calls, opening the directory again gives every
  registered path the number it had.\<close>

theorem ftp_numbers_survive_restart:
  assumes "registry_closed root paths m" and "registry_open root m = (r, w)"
    and "registry_open root (ftp_machine (ftp_run calls w)) = (r', w')"
  shows "prefix (ftp_paths (ftp_run calls w)) (ftp_paths w')"
proof -
  note w = registry_reopens [OF assms(1,2)]
  have run: "ftp_ok (ftp_run calls w)" "ftp_extends w (ftp_run calls w)" using ftp_run_step [OF w(2)] by simp_all
  then have "registry_closed root (ftp_paths (ftp_run calls w)) (ftp_machine (ftp_run calls w))"
    using assms(1) w(3-5) by (auto simp: registry_closed_def ftp_ok_def ftp_extends_def)
  then show ?thesis using assms(3) by (rule registry_reopens(1))
qed

definition example_machine :: Machine where
  "example_machine =
     \<lparr>fs_tree = FsDir [(''srv'', FsDir [(''.ubfs'', FsFile [] 0), (''my file'', FsFile [1, 2] 5)] 0), (''etc'', FsFile [7] 0)] 0,
      fs_readable = (\<lambda>_. True), fs_writable = (\<lambda>_. True), fs_full = False, fs_now = 10\<rparr>"

lemma example_closed: "registry_closed [''srv''] [] example_machine"
  by (simp add: registry_closed_def example_machine_def fs_name_def LIST_FILE_NAME_def as_bytes_def byte_of_char_def)


theorem ftp_numbers_survive_restart_witness:
  "prefix (ftp_paths (ftp_run [(33, reader_new [1])] (snd (registry_open [''srv''] example_machine))))
     (ftp_paths (snd (registry_open [''srv''] (ftp_machine (ftp_run [(33, reader_new [1])] (snd (registry_open [''srv''] example_machine)))))))"
  by (rule ftp_numbers_survive_restart [OF example_closed prod.collapse [symmetric] prod.collapse [symmetric]])

end
