(* ===== verification/Log_File.thy ===== *)
theory Log_File
  imports Commands File_System Framing
begin

text \<open>
  The command \<^verbatim>\<open>ub logFile\<close> of \<^verbatim>\<open>apps/log_file.rs\<close>: the two formats of a record, the rotation and the
  writing into the current log file, over the file system of \<open>File_System\<close> and the C library of
  \<open>Clock\<close>.  Arithmetic on \<^verbatim>\<open>i64\<close> is written out: it wraps in the release build of the program.
\<close>

subsection \<open>Files by name\<close>

text \<open>The components of a path text, from the working directory on.\<close>

definition path_components :: "string \<Rightarrow> string list" where
  "path_components name = filter (\<lambda>c. c \<noteq> [] \<and> c \<noteq> ''.'') (split_on (CHR ''/'') name)"

definition is_absolute :: "string \<Rightarrow> bool" where
  "is_absolute name \<longleftrightarrow> name \<noteq> [] \<and> hd name = CHR ''/''"

definition path_from :: "fs_path \<Rightarrow> string \<Rightarrow> fs_path" where
  "path_from cwd name = (if is_absolute name then [] else cwd) @ path_components name"

text \<open>\<^verbatim>\<open>fs::create_dir_all\<close>: a missing parent is created first.\<close>

function create_dir_all :: "fs_path \<Rightarrow> Machine \<Rightarrow> Machine option" where
  "create_dir_all p m =
     (if fs_is_dir m p then Some m
      else case fs_create (FsDir [] (fs_now m)) p m of
        Some m' \<Rightarrow> Some m'
      | None \<Rightarrow>
          if p = [] then None
          else (case create_dir_all (butlast p) m of
                  None \<Rightarrow> None
                | Some m' \<Rightarrow>
                    (case fs_create (FsDir [] (fs_now m')) p m' of
                       Some m'' \<Rightarrow> Some m''
                     | None \<Rightarrow> if fs_is_dir m' p then Some m' else None)))"
  by pat_completeness auto
termination by (relation "measure (\<lambda>(p, m). length p)") auto

declare create_dir_all.simps [simp del]

text \<open>Opening for appending, creating the file where it is missing; the handle is the place of the file.\<close>

definition open_append :: "fs_path \<Rightarrow> Machine \<Rightarrow> (fs_path \<times> Machine) option" where
  "open_append p m =
     (case fs_resolve (fs_tree m) [] p of
        None \<Rightarrow> None
      | Some q \<Rightarrow>
          (case fs_find q (fs_tree m) of
             None \<Rightarrow> map_option (\<lambda>m'. (q, m')) (fs_create (FsFile [] (fs_now m)) p m)
           | Some (FsFile _ _) \<Rightarrow> if fs_writable m q then Some (q, m) else None
           | Some (FsDir _ _) \<Rightarrow> None))"

text \<open>Writing all of the data at the end of an open file; a full disk takes nothing.\<close>

definition append_file :: "fs_path \<Rightarrow> bytes \<Rightarrow> Machine \<Rightarrow> Machine option" where
  "append_file q data m =
     (if fs_full m then None
      else Some (m\<lparr>fs_tree := fs_update q
             (\<lambda>node. case node of FsFile content _ \<Rightarrow> FsFile (content @ data) (fs_now m) | other \<Rightarrow> other) (fs_tree m)\<rparr>))"

subsection \<open>Records\<close>

datatype LogFormat = Plain | Binary

definition parse_format :: "string \<Rightarrow> LogFormat option" where
  "parse_format name = (if name = ''plain'' then Some Plain else if name = ''binary'' then Some Binary else None)"

definition wrap_i64 :: "int \<Rightarrow> int" where
  "wrap_i64 n = (n + 9223372036854775808) mod 18446744073709551616 - 9223372036854775808"

text \<open>The time and the packet as the binary format has them inside of the frame.\<close>

definition binary_record :: "int \<Rightarrow> bytes \<Rightarrow> bytes" where
  "binary_record time_ms packet = to_be_bytes 8 (word_of_int time_ms :: u64) @ packet"

definition encode_record :: "Clock \<Rightarrow> LogFormat \<Rightarrow> int \<Rightarrow> bytes \<Rightarrow> bytes" where
  "encode_record clock format time_ms packet =
     (case format of
        Plain \<Rightarrow> as_bytes (utc_sql_timestamp_ms clock time_ms @ ''|'' @ format_colon_data packet @ [CHR 0x0A])
      | Binary \<Rightarrow> frame_bytes (binary_record time_ms packet) 0)"

subsection \<open>Rotation\<close>

datatype Rotation = Calendar CalendarUnit | Seconds int

definition parse_rotation :: "string \<Rightarrow> string + Rotation" where
  "parse_rotation format =
     (if format = ''year'' then Inr (Calendar Year)
      else if format = ''month'' then Inr (Calendar Month)
      else if format = ''day'' then Inr (Calendar Day)
      else if format = ''hour'' then Inr (Calendar Hour)
      else if format = ''minute'' then Inr (Calendar Minute)
      else if format = ''secound'' \<or> format = ''second'' then Inr (Calendar Second)
      else case parse_i64 format of
        None \<Rightarrow> Inl (''Can't parse rotation interval: '' @ format)
      | Some seconds \<Rightarrow>
          if seconds < 1 then Inl (''Invalid rotation interval: '' @ format) else Inr (Seconds seconds))"

text \<open>The division panics for an interval that wrapped to 0.\<close>

definition next_cut_time :: "Clock \<Rightarrow> Rotation \<Rightarrow> int \<Rightarrow> (unit, int) outcome" where
  "next_cut_time clock rotation now =
     (case rotation of
        Calendar unit \<Rightarrow> Ret (local_unit_start clock now unit 1)
      | Seconds seconds \<Rightarrow>
          let v = wrap_i64 (seconds * 1000)
          in if v = 0 then Panic else Ret (wrap_i64 (wrap_i64 ((now sdiv v) * v) + v)))"

record LogRotaOutput =
  log_prefix :: string
  log_postfix :: string
  log_rotation :: Rotation
  log_format :: LogFormat
  log_current :: "fs_path option"
  log_next_cut_time :: int

definition LogRotaOutput_new :: "string \<Rightarrow> string \<Rightarrow> Rotation \<Rightarrow> LogFormat \<Rightarrow> LogRotaOutput" where
  "LogRotaOutput_new pre post rotation format =
     \<lparr>log_prefix = pre, log_postfix = post, log_rotation = rotation, log_format = format,
      log_current = None, log_next_cut_time = 0\<rparr>"

definition log_file_name :: "Clock \<Rightarrow> LogRotaOutput \<Rightarrow> int \<Rightarrow> string" where
  "log_file_name clock out time_ms = log_prefix out @ local_file_timestamp clock time_ms @ log_postfix out"

text \<open>Opening the log file of a time; the current file stays closed when it fails.\<close>

definition open_log :: "Clock \<Rightarrow> fs_path \<Rightarrow> int \<Rightarrow> LogRotaOutput \<Rightarrow> Machine \<Rightarrow> (unit, unit) outcome \<times> LogRotaOutput \<times> Machine" where
  "open_log clock cwd time_ms out m =
     (let out = out\<lparr>log_current := None\<rparr>;
          name = log_file_name clock out time_ms;
          p = path_from cwd name;
          with_dir = (if is_absolute name \<or> 1 < length (path_components name) then create_dir_all (butlast p) m else Some m)
      in case with_dir of
           None \<Rightarrow> (Fail (), out, m)
         | Some m \<Rightarrow>
             (case open_append p m of
                None \<Rightarrow> (Fail (), out, m)
              | Some (q, m) \<Rightarrow>
                  let out = out\<lparr>log_current := Some q\<rparr>
                  in case next_cut_time clock (log_rotation out) time_ms of
                       Ret cut_ms \<Rightarrow> (Ret (), out\<lparr>log_next_cut_time := cut_ms\<rparr>, m)
                     | _ \<Rightarrow> (Panic, out, m)))"

definition log_packet ::
    "Clock \<Rightarrow> fs_path \<Rightarrow> int \<Rightarrow> bytes \<Rightarrow> LogRotaOutput \<Rightarrow> Machine \<Rightarrow> (unit, unit) outcome \<times> LogRotaOutput \<times> Machine" where
  "log_packet clock cwd time_ms packet out m =
     (case (if log_current out = None \<or> log_next_cut_time out \<le> time_ms then open_log clock cwd time_ms out m else (Ret (), out, m)) of
        (Ret _, out, m) \<Rightarrow>
          (case log_current out of
             None \<Rightarrow> (Panic, out, m)
           | Some q \<Rightarrow>
               (case append_file q (encode_record clock (log_format out) time_ms packet) m of
                  None \<Rightarrow> (Fail (), out, m)
                | Some m \<Rightarrow> (Ret (), out, m)))
      | (failed, out, m) \<Rightarrow> (failed, out, m))"

text \<open>The packets that come in while the command runs; an error is logged and the next packet is tried,
  a panic ends the thread.\<close>

fun log_packets :: "Clock \<Rightarrow> fs_path \<Rightarrow> (int \<times> bytes) list \<Rightarrow> LogRotaOutput \<Rightarrow> Machine \<Rightarrow> (unit, unit) outcome list \<times> LogRotaOutput \<times> Machine" where
  "log_packets clock cwd [] out m = ([], out, m)"
| "log_packets clock cwd ((time_ms, packet) # entries) out m =
     (case log_packet clock cwd time_ms packet out m of
        (Panic, out, m) \<Rightarrow> ([Panic], out, m)
      | (r, out, m) \<Rightarrow> let (rs, out, m) = log_packets clock cwd entries out m in (r # rs, out, m))"

subsection \<open>The command\<close>

definition LOG_PREFIX :: CliEntry where
  "LOG_PREFIX = \<lparr>names = [''b'', ''-prefix''], description = ''Log file prefix, it may contain path information''\<rparr>"

definition LOG_POSTFIX :: CliEntry where
  "LOG_POSTFIX =
     \<lparr>names = [''a'', ''-postfix''], description = ''Log file postfix, it may contain path information. Default: `.log`''\<rparr>"

definition LOG_ROTA_UNIT :: CliEntry where
  "LOG_ROTA_UNIT =
     \<lparr>names = [''r'', ''-rotate-interval''],
      description = ''Log rotation interval, valid units are: year, month, day (default), hour, minute, secound or number as secounds.''\<rparr>"

definition LOG_FORMAT :: CliEntry where
  "LOG_FORMAT = \<lparr>names = [''f'', ''-log-format''], description = ''Logging file format: binary, plain (default)''\<rparr>"

definition LOG_FILE_ENTRIES :: "CliEntry list" where
  "LOG_FILE_ENTRIES = [RPC_HOST, RPC_PORT, LOOPBACK, LOG_PREFIX, LOG_POSTFIX, LOG_ROTA_UNIT, LOG_FORMAT]"

definition or_default :: "string option \<Rightarrow> string \<Rightarrow> string" where
  "or_default v d = (case v of Some s \<Rightarrow> s | None \<Rightarrow> d)"

text \<open>What the command logs into and where it connects to, or how it ends before that.\<close>

definition log_file_main :: "string list \<Rightarrow> AppEnd + LogRotaOutput \<times> IpEndpoint" where
  "log_file_main args =
     (case parse_cli_opts args of
        Inl err \<Rightarrow> Inl (AppExit 1)
      | Inr pa \<Rightarrow>
          (case (parse_format (or_default (get_simple LOG_FORMAT pa) ''plain''), first_unknown_param pa LOG_FILE_ENTRIES) of
             (Some format, None) \<Rightarrow>
               (case parse_rotation (or_default (get_simple LOG_ROTA_UNIT pa) ''day'') of
                  Inl e \<Rightarrow> Inl (AppErr e)
                | Inr rotation \<Rightarrow>
                    (let logger = LogRotaOutput_new (or_default (get_simple LOG_PREFIX pa) '''')
                           (or_default (get_simple LOG_POSTFIX pa) ''.log'') rotation format
                     in case open_cli_endpoint pa (loopback_initializer pa) of
                          Inl e \<Rightarrow> Inl (AppErr e)
                        | Inr endpoint \<Rightarrow> Inr (logger, endpoint)))
           | _ \<Rightarrow> Inl (AppExit 1)))"

subsection \<open>The contents of the files\<close>

definition fs_content :: "Machine \<Rightarrow> fs_path \<Rightarrow> bytes" where
  "fs_content m q = (case fs_find q (fs_tree m) of Some (FsFile content _) \<Rightarrow> content | _ \<Rightarrow> [])"

definition is_file_at :: "Machine \<Rightarrow> fs_path \<Rightarrow> bool" where
  "is_file_at m q \<longleftrightarrow> (\<exists>content modified. fs_find q (fs_tree m) = Some (FsFile content modified))"

text \<open>A node above an existing one is a directory, and stays one when something below it changes.\<close>

lemma above_is_dir:
  assumes "prefix q p" and "q \<noteq> p" and "fs_find p t = Some node"
  shows "\<exists>entries modified. fs_find q t = Some (FsDir entries modified)"
proof -
  obtain r where r: "p = q @ r" "r \<noteq> []" using assms(1,2) by (auto simp: prefix_def)
  then show ?thesis using assms(3)
    by (cases "fs_find q t"; cases r; cases "the (fs_find q t)") (auto simp: fs_find_append)
qed

lemma dir_stays_dir:
  assumes "prefix q p" and "q \<noteq> p" and "fs_find q t = Some (FsDir entries modified)"
  shows "\<exists>entries. fs_find q (fs_update p f t) = Some (FsDir entries modified)"
proof -
  obtain r where r: "p = q @ r" "r \<noteq> []" using assms(1,2) by (auto simp: prefix_def)
  have "fs_find q (fs_update (q @ r) f t) = map_option (fs_update r f) (fs_find q t)"
    by (induction q t rule: fs_find.induct) (auto simp: map_of_map_entry split: option.splits)
  then show ?thesis using assms(3) r by (cases r) auto
qed

lemma content_above:
  assumes "prefix q p" and "q \<noteq> p" and "fs_find p (fs_tree m) = Some node"
  shows "fs_content (m\<lparr>fs_tree := fs_update p f (fs_tree m)\<rparr>) q = fs_content m q"
proof -
  obtain entries modified where d: "fs_find q (fs_tree m) = Some (FsDir entries modified)" using above_is_dir [OF assms] by blast
  then show ?thesis using dir_stays_dir [OF assms(1,2) d, of f] by (auto simp: fs_content_def)
qed

lemma content_elsewhere:
  "\<not> prefix p q \<Longrightarrow> \<not> prefix q p \<Longrightarrow> fs_content (m\<lparr>fs_tree := fs_update p f (fs_tree m)\<rparr>) q = fs_content m q"
  by (simp add: fs_content_def fs_find_update_other)

text \<open>Creating an empty file or directory changes no content.\<close>

lemma fs_create_cases:
  assumes "fs_create node p m = Some m'"
  obtains q entries modified where "fs_resolve (fs_tree m) [] p = Some q" "q \<noteq> []" "fs_find q (fs_tree m) = None"
    "fs_find (butlast q) (fs_tree m) = Some (FsDir entries modified)"
    "m' = m\<lparr>fs_tree := fs_update (butlast q) (\<lambda>dir. case dir of FsDir entries _ \<Rightarrow> FsDir (entries @ [(last q, node)]) (fs_now m) | other \<Rightarrow> other) (fs_tree m)\<rparr>"
  using assms by (auto simp: fs_create_def split: option.splits if_splits FsNode.splits)

lemma content_create:
  assumes "fs_create node p m = Some m'" and node: "node = FsFile [] t \<or> node = FsDir [] t"
  shows "fs_content m' q = fs_content m q"
  using assms(1)
proof (cases rule: fs_create_cases)
  case (1 c entries modified)
  consider r where "q = butlast c @ r" | "prefix q (butlast c)" "q \<noteq> butlast c" | "\<not> prefix (butlast c) q" "\<not> prefix q (butlast c)"
    by (auto simp: prefix_def)
  then show ?thesis
  proof cases
    case (1 r)
    have "fs_find r (FsDir (entries @ [(last c, node)]) (fs_now m)) = fs_find r (FsDir entries modified) \<or>
        (case fs_find r (FsDir (entries @ [(last c, node)]) (fs_now m)) of Some (FsFile x _) \<Rightarrow> x = [] | _ \<Rightarrow> True) \<and>
        (case fs_find r (FsDir entries modified) of Some (FsFile x _) \<Rightarrow> x = [] | _ \<Rightarrow> True)"
      using node by (cases r; cases "tl r") (auto simp: map_of_append split: option.splits if_splits)
    moreover have "fs_find q (fs_tree m') = fs_find r (FsDir (entries @ [(last c, node)]) (fs_now m))"
      using \<open>fs_find (butlast c) _ = _\<close> \<open>m' = _\<close> 1 by (simp add: fs_find_update_below)
    moreover have "fs_find q (fs_tree m) = fs_find r (FsDir entries modified)"
      using \<open>fs_find (butlast c) _ = _\<close> 1 by (simp add: fs_find_append)
    ultimately show ?thesis by (auto simp: fs_content_def split: option.splits FsNode.splits)
  next
    case 2
    then show ?thesis using content_above [OF 2 \<open>fs_find (butlast c) _ = _\<close>] \<open>m' = _\<close> by simp
  next
    case 3
    then show ?thesis using content_elsewhere \<open>m' = _\<close> by simp
  qed
qed

lemma content_create_dir_all: "create_dir_all p m = Some m' \<Longrightarrow> fs_content m' q = fs_content m q"
proof (induction p m arbitrary: m' rule: create_dir_all.induct)
  case (1 p m)
  show ?case using 1(1) "1.prems" [unfolded create_dir_all.simps [of p m]]
    by (auto simp: content_create split: if_splits option.splits)
qed

lemma open_append_file:
  assumes "open_append p m = Some (q, m')"
  shows "fs_content m' q' = fs_content m q'" and "is_file_at m' q" and "''..'' \<notin> set p \<Longrightarrow> q = p"
proof -
  have q: "fs_resolve (fs_tree m) [] p = Some q" using assms by (auto simp: open_append_def split: option.splits if_splits FsNode.splits)
  then show "''..'' \<notin> set p \<Longrightarrow> q = p" using fs_resolve_names [of p] by fastforce
  show "fs_content m' q' = fs_content m q'"
    using assms by (auto simp: open_append_def content_create split: option.splits if_splits FsNode.splits)
  show "is_file_at m' q"
  proof (cases "fs_find q (fs_tree m)")
    case None
    then have "fs_create (FsFile [] (fs_now m)) p m = Some m'" using assms q by (auto simp: open_append_def split: option.splits)
    then show ?thesis
    proof (cases rule: fs_create_cases)
      case (1 c entries modified)
      then have "c = q" using q by simp
      moreover have "last c \<notin> fst ` set entries"
        using 1 fs_find_append [of "butlast c" "[last c]" "fs_tree m"] by (auto simp: map_of_eq_None_iff split: option.splits)
      ultimately show ?thesis
        using 1 fs_find_update_below [of "butlast c" "[last c]" _ "fs_tree m"]
        by (auto simp: is_file_at_def map_of_append map_of_eq_None_iff [symmetric] split: option.splits)
    qed
  next
    case (Some node)
    then show ?thesis using assms q by (auto simp: open_append_def is_file_at_def split: FsNode.splits if_splits)
  qed
qed

lemma append_file_content:
  assumes "append_file q data m = Some m'" and "is_file_at m q"
  shows "fs_content m' q' = fs_content m q' @ (if q' = q then data else [])" and "is_file_at m' q"
proof -
  obtain content modified where f: "fs_find q (fs_tree m) = Some (FsFile content modified)" using assms(2) by (auto simp: is_file_at_def)
  have m': "m' = m\<lparr>fs_tree := fs_update q (\<lambda>node. case node of FsFile content _ \<Rightarrow> FsFile (content @ data) (fs_now m) | other \<Rightarrow> other) (fs_tree m)\<rparr>"
    using assms(1) by (auto simp: append_file_def split: if_splits)
  show "is_file_at m' q" using f by (simp add: m' is_file_at_def fs_find_update_same)
  show "fs_content m' q' = fs_content m q' @ (if q' = q then data else [])"
  proof (cases "q' = q")
    case True
    then show ?thesis using f by (simp add: m' fs_content_def fs_find_update_same)
  next
    case ne: False
    consider r where "q' = q @ r" "r \<noteq> []" | "prefix q' q" | "\<not> prefix q q'" "\<not> prefix q' q" using ne by (auto simp: prefix_def)
    then show ?thesis
    proof cases
      case 1
      then show ?thesis using f by (cases r) (auto simp: m' fs_content_def fs_find_update_same fs_find_append)
    next
      case 2
      then show ?thesis using content_above [OF 2 ne f] ne by (simp add: m')
    next
      case 3
      then show ?thesis using content_elsewhere [OF 3] ne by (simp add: m')
    qed
  qed
qed

subsection \<open>What is logged\<close>

abbreviation all_returned :: "(unit, unit) outcome list \<Rightarrow> bool" where
  "all_returned rs \<equiv> list_all (\<lambda>r. r = Ret ()) rs"

definition log_ok :: "LogRotaOutput \<Rightarrow> Machine \<Rightarrow> bool" where
  "log_ok out m \<longleftrightarrow> (\<forall>q. log_current out = Some q \<longrightarrow> is_file_at m q)"

text \<open>Settings that a logger keeps.\<close>

definition same_settings :: "LogRotaOutput \<Rightarrow> LogRotaOutput \<Rightarrow> bool" where
  "same_settings out out' \<longleftrightarrow> log_prefix out' = log_prefix out \<and> log_postfix out' = log_postfix out
     \<and> log_rotation out' = log_rotation out \<and> log_format out' = log_format out"

text \<open>
  The packets that go into one opening of a log file: the file has the name of the time of the first
  one, and the others come before the time when the file must be closed.
\<close>

definition log_part :: "Clock \<Rightarrow> fs_path \<Rightarrow> LogRotaOutput \<Rightarrow> fs_path \<times> (int \<times> bytes) list \<Rightarrow> bool" where
  "log_part clock cwd out part \<longleftrightarrow>
     (case part of (q, entries) \<Rightarrow> entries \<noteq> []
        \<and> (''..'' \<notin> set (path_from cwd (log_file_name clock out (fst (hd entries)))) \<longrightarrow>
             q = path_from cwd (log_file_name clock out (fst (hd entries))))
        \<and> (\<exists>end_ms. next_cut_time clock (log_rotation out) (fst (hd entries)) = Ret end_ms
             \<and> (\<forall>(time_ms, _) \<in> set (tl entries). time_ms < end_ms)))"

text \<open>A file is left for the next one only when its time is over.\<close>

fun rotated_when_due :: "Clock \<Rightarrow> Rotation \<Rightarrow> (fs_path \<times> (int \<times> bytes) list) list \<Rightarrow> bool" where
  "rotated_when_due clock rotation (part # after # parts) \<longleftrightarrow>
     (case next_cut_time clock rotation (fst (hd (snd part))) of
        Ret end_ms \<Rightarrow> end_ms \<le> fst (hd (snd after))
      | _ \<Rightarrow> False)
     \<and> rotated_when_due clock rotation (after # parts)"
| "rotated_when_due clock rotation _ \<longleftrightarrow> True"

definition encode_entries :: "Clock \<Rightarrow> LogFormat \<Rightarrow> (int \<times> bytes) list \<Rightarrow> bytes" where
  "encode_entries clock format entries = concat (map (\<lambda>(time_ms, packet). encode_record clock format time_ms packet) entries)"

definition parts_of :: "fs_path \<Rightarrow> (fs_path \<times> (int \<times> bytes) list) list \<Rightarrow> (int \<times> bytes) list" where
  "parts_of q parts = concat (map snd (filter (\<lambda>(q', _). q' = q) parts))"

lemma same_settings_refl [simp]: "same_settings out out"
  by (simp add: same_settings_def)

lemma same_settings_name: "same_settings out out' \<Longrightarrow> log_file_name clock out' t = log_file_name clock out t"
  by (simp add: same_settings_def log_file_name_def)

lemma log_part_settings: "same_settings out out' \<Longrightarrow> log_part clock cwd out' part = log_part clock cwd out part"
  by (simp add: log_part_def same_settings_name) (simp add: same_settings_def)

lemma open_log_returned:
  assumes "open_log clock cwd time_ms out m = (Ret (), out', m')"
  obtains q where "log_current out' = Some q" "is_file_at m' q" "\<And>q. fs_content m' q = fs_content m q" "same_settings out out'"
    "next_cut_time clock (log_rotation out) time_ms = Ret (log_next_cut_time out')"
    "''..'' \<notin> set (path_from cwd (log_file_name clock out time_ms)) \<longrightarrow> q = path_from cwd (log_file_name clock out time_ms)"
proof -
  let ?p = "path_from cwd (log_file_name clock out time_ms)"
  have name: "log_file_name clock (out\<lparr>log_current := None\<rparr>) time_ms = log_file_name clock out time_ms" by (simp add: log_file_name_def)
  define with_dir where "with_dir =
    (if is_absolute (log_file_name clock out time_ms) \<or> 1 < length (path_components (log_file_name clock out time_ms))
     then create_dir_all (butlast ?p) m else Some m)"
  have "(case with_dir of None \<Rightarrow> False | Some m1 \<Rightarrow> (case open_append ?p m1 of None \<Rightarrow> False | Some (q, m2) \<Rightarrow>
      m2 = m' \<and> log_current out' = Some q \<and> same_settings out out'
      \<and> next_cut_time clock (log_rotation out) time_ms = Ret (log_next_cut_time out')))"
    using assms unfolding open_log_def Let_def name with_dir_def [symmetric]
    by (auto simp: same_settings_def split: option.splits outcome.splits)
  then obtain m1 q where 1: "with_dir = Some m1" and 2: "open_append ?p m1 = Some (q, m')"
    and 3: "log_current out' = Some q" "same_settings out out'" "next_cut_time clock (log_rotation out) time_ms = Ret (log_next_cut_time out')"
    by (auto split: option.splits)
  have "fs_content m' q' = fs_content m q'" for q'
    using 1 open_append_file(1) [OF 2] content_create_dir_all [of "butlast ?p" m m1] by (auto simp: with_dir_def split: if_splits)
  then show ?thesis using that 3 open_append_file(2,3) [OF 2] by blast
qed

lemma log_packet_returned:
  assumes "log_packet clock cwd time_ms packet out m = (Ret (), out', m')" and "log_ok out m"
  obtains (same) q where "log_current out = Some q" "time_ms < log_next_cut_time out" "out' = out" "log_ok out' m'"
      "\<And>q'. fs_content m' q' = fs_content m q' @ (if q' = q then encode_record clock (log_format out) time_ms packet else [])"
  | (rotated) q where "log_current out' = Some q" "log_ok out' m'" "same_settings out out'"
      "log_current out = None \<or> log_next_cut_time out \<le> time_ms"
      "next_cut_time clock (log_rotation out) time_ms = Ret (log_next_cut_time out')"
      "''..'' \<notin> set (path_from cwd (log_file_name clock out time_ms)) \<longrightarrow> q = path_from cwd (log_file_name clock out time_ms)"
      "\<And>q'. fs_content m' q' = fs_content m q' @ (if q' = q then encode_record clock (log_format out) time_ms packet else [])"
proof (cases "log_current out = None \<or> log_next_cut_time out \<le> time_ms")
  case False
  then obtain q where q: "log_current out = Some q" by auto
  then have "append_file q (encode_record clock (log_format out) time_ms packet) m = Some m'" "out' = out"
    using assms(1) False by (auto simp: log_packet_def split: option.splits)
  then show ?thesis using same [OF q] False append_file_content assms(2) q by (simp add: log_ok_def)
next
  case True
  then obtain m1 where "open_log clock cwd time_ms out m = (Ret (), out', m1)"
    and app: "\<And>q. log_current out' = Some q \<Longrightarrow> append_file q (encode_record clock (log_format out') time_ms packet) m1 = Some m'"
    using assms(1) by (auto simp: log_packet_def split: option.splits prod.splits outcome.splits)
  then show ?thesis
  proof (cases rule: open_log_returned)
    case (1 q)
    then show ?thesis using rotated [of q] True append_file_content [OF app [OF 1(1)] 1(2)]
      by (simp add: log_ok_def same_settings_def)
  qed
qed

lemma log_packets_parts:
  assumes "log_packets clock cwd entries out m = (rs, out', m')" and "all_returned rs" and "log_ok out m"
  shows "\<exists>first parts. entries = first @ concat (map snd parts) \<and> (first = [] \<or> log_current out \<noteq> None)
    \<and> (\<forall>(time_ms, _) \<in> set first. time_ms < log_next_cut_time out) \<and> list_all (log_part clock cwd out) parts
    \<and> (log_current out \<noteq> None \<and> parts \<noteq> [] \<longrightarrow> log_next_cut_time out \<le> fst (hd (snd (hd parts))))
    \<and> rotated_when_due clock (log_rotation out) parts
    \<and> (\<forall>q. fs_content m' q = fs_content m q
         @ encode_entries clock (log_format out) ((if log_current out = Some q then first else []) @ parts_of q parts))"
  using assms
proof (induction entries arbitrary: out m rs)
  case Nil
  then show ?case by (intro exI [of _ "[]"]) (simp add: encode_entries_def parts_of_def)
next
  case (Cons e entries)
  obtain t p where e: "e = (t, p)" by force
  obtain out1 m1 rs1 where 1: "log_packet clock cwd t p out m = (Ret (), out1, m1)"
    and 2: "log_packets clock cwd entries out1 m1 = (rs1, out', m')" "all_returned rs1"
    using Cons.prems by (auto simp: e Let_def split: prod.splits outcome.splits)
  show ?case
    using 1 Cons.prems(3)
  proof (cases rule: log_packet_returned)
    case (same q)
    obtain first parts where *: "entries = first @ concat (map snd parts)" "\<forall>(time_ms, _) \<in> set first. time_ms < log_next_cut_time out"
      "log_current out \<noteq> None \<and> parts \<noteq> [] \<longrightarrow> log_next_cut_time out \<le> fst (hd (snd (hd parts)))"
      "rotated_when_due clock (log_rotation out) parts"
      "list_all (log_part clock cwd out) parts" "\<forall>q. fs_content m' q = fs_content m1 q
         @ encode_entries clock (log_format out) ((if log_current out = Some q then first else []) @ parts_of q parts)"
      using Cons.IH [OF 2 same(4)] same(3) by auto
    then show ?thesis using same
      by (intro exI [of _ "e # first"] exI [of _ parts]) (auto simp: e encode_entries_def)
  next
    case (rotated q)
    obtain first parts where *: "entries = first @ concat (map snd parts)" "\<forall>(time_ms, _) \<in> set first. time_ms < log_next_cut_time out1"
      "list_all (log_part clock cwd out1) parts" "\<forall>q. fs_content m' q = fs_content m1 q
         @ encode_entries clock (log_format out1) ((if log_current out1 = Some q then first else []) @ parts_of q parts)"
      and due: "parts \<noteq> [] \<longrightarrow> log_next_cut_time out1 \<le> fst (hd (snd (hd parts)))"
      "rotated_when_due clock (log_rotation out1) parts"
      using Cons.IH [OF 2 rotated(2)] rotated(1) by blast
    have "log_part clock cwd out (q, e # first)" using rotated *(2) by (auto simp: log_part_def e)
    moreover have "list_all (log_part clock cwd out) parts"
      using *(3) log_part_settings [OF rotated(3)] by (simp add: list_all_iff)
    moreover have "fs_content m' q' = fs_content m q' @ encode_entries clock (log_format out) (parts_of q' ((q, e # first) # parts))" for q'
    proof -
      have "log_format out1 = log_format out" using rotated(3) by (simp add: same_settings_def)
      then show ?thesis using *(4) rotated(7) [of q'] rotated(1) by (simp add: e encode_entries_def parts_of_def)
    qed
    moreover have "rotated_when_due clock (log_rotation out) ((q, e # first) # parts)"
      using due rotated(3,5) by (cases parts) (auto simp: e same_settings_def)
    moreover have "log_current out \<noteq> None \<longrightarrow> log_next_cut_time out \<le> fst e" using rotated(4) by (auto simp: e)
    ultimately show ?thesis using *(1)
      by (intro exI [of _ "[]"] exI [of _ "(q, e # first) # parts"]) simp
  qed
qed

text \<open>The binary format can be cut into its records again.\<close>

lemma binary_records_read_back:
  "feed_bytes (cutter_new 0) (encode_entries clock Binary entries) =
     (cutter_new 0, map (\<lambda>(time_ms, packet). binary_record time_ms packet) entries)"
proof -
  have "encode_entries clock Binary entries = concat (map (\<lambda>p. frame_bytes p 0) (map (\<lambda>(time_ms, packet). binary_record time_ms packet) entries))"
    by (simp add: encode_entries_def encode_record_def comp_def case_prod_unfold)
  then show ?thesis
    using cutter.feed_frames [of "map (\<lambda>(time_ms, packet). binary_record time_ms packet) entries" 0]
    by (simp only: list_all_iff) simp
qed

text \<open>
  C35: Every packet that was logged without an error is in a log file.  The packets are divided, in
  their order, into parts; each part is appended to the file that has the name of the time of its
  first packet, and the other packets of the part come before the time when that file is closed, which
  is not after the first packet of the next part: a file is left only when its time is over.  No
  other byte of any file changes, and a binary log is cut into exactly these records again.
\<close>

theorem log_files_hold_the_packets:
  assumes "log_packets clock cwd entries (LogRotaOutput_new pre post rotation format) m = (rs, out', m')" and "all_returned rs"
  shows "\<exists>parts. entries = concat (map snd parts)
    \<and> list_all (log_part clock cwd (LogRotaOutput_new pre post rotation format)) parts
    \<and> rotated_when_due clock rotation parts
    \<and> (\<forall>q. fs_content m' q = fs_content m q @ encode_entries clock format (parts_of q parts)
         \<and> (format = Binary \<longrightarrow> feed_bytes (cutter_new 0) (drop (length (fs_content m q)) (fs_content m' q)) =
              (cutter_new 0, map (\<lambda>(time_ms, packet). binary_record time_ms packet) (parts_of q parts))))"
proof -
  have "log_ok (LogRotaOutput_new pre post rotation format) m" by (simp add: log_ok_def LogRotaOutput_new_def)
  from log_packets_parts [OF assms this] obtain parts where
    "entries = concat (map snd parts)" "list_all (log_part clock cwd (LogRotaOutput_new pre post rotation format)) parts"
    "rotated_when_due clock rotation parts"
    "\<forall>q. fs_content m' q = fs_content m q @ encode_entries clock format (parts_of q parts)"
    by (auto simp: LogRotaOutput_new_def)
  then show ?thesis by (auto simp: binary_records_read_back)
qed

text \<open>A rotation in seconds cuts at the next multiple of the interval, as long as nothing overflows.\<close>

lemma wrap_i64_id: "- 9223372036854775808 \<le> n \<Longrightarrow> n < 9223372036854775808 \<Longrightarrow> wrap_i64 n = n"
  by (simp add: wrap_i64_def)

lemma next_cut_time_seconds:
  assumes "1 \<le> seconds" and "0 \<le> now" and "now + seconds * 1000 < 9223372036854775808"
  shows "\<exists>end_ms. next_cut_time clock (Seconds seconds) now = Ret end_ms \<and> now < end_ms \<and> end_ms \<le> now + seconds * 1000
    \<and> seconds * 1000 dvd end_ms"
proof -
  define v where "v = seconds * 1000"
  have v: "0 < v" "now + v < 9223372036854775808" using assms by (simp_all add: v_def)
  then have w: "wrap_i64 v = v" using assms(2) by (simp add: wrap_i64_id)
  have d: "now sdiv v = now div v" using assms(2) v(1) by (cases "now = 0") (simp_all add: signed_divide_int_def)
  have q0: "0 \<le> now div v * v" using v(1) assms(2) by (simp add: pos_imp_zdiv_nonneg_iff)
  have q: "now div v * v \<le> now" "now < now div v * v + v"
    using pos_mod_bound [OF v(1), of now] pos_mod_sign [OF v(1), of now] div_mult_mod_eq [of now v] by linarith+
  then have "wrap_i64 (wrap_i64 (now div v * v) + v) = now div v * v + v"
    using v q0 by (simp add: wrap_i64_id)
  then show ?thesis using q v w d by (auto simp: next_cut_time_def v_def [symmetric] Let_def)
qed

text \<open>An interval of \<open>2 ^ 61\<close> seconds is accepted but makes the logging panic.\<close>

lemma huge_interval_panics: "next_cut_time clock (Seconds (2 ^ 61)) now = Panic"
  by (simp add: next_cut_time_def wrap_i64_def)

definition log_machine :: Machine where
  "log_machine = \<lparr>fs_tree = FsDir [] 0, fs_readable = (\<lambda>_. True), fs_writable = (\<lambda>_. True), fs_full = False, fs_now = 0\<rparr>"

definition log_example :: "(int \<times> bytes) list" where
  "log_example = [(500, [1]), (700, [2, 0]), (1200, [3])]"

theorem log_files_hold_the_packets_witness:
  "\<exists>parts. log_example = concat (map snd parts) \<and> rotated_when_due example_clock (Calendar Second) parts \<and>
     (\<forall>q. fs_content (snd (snd (log_packets example_clock [] log_example (LogRotaOutput_new ''logs/'' ''.bin'' (Calendar Second) Binary) log_machine))) q
        = fs_content log_machine q @ encode_entries example_clock Binary (parts_of q parts))"
proof -
  let ?run = "log_packets example_clock [] log_example (LogRotaOutput_new ''logs/'' ''.bin'' (Calendar Second) Binary) log_machine"
  have "all_returned (fst ?run)" by code_simp
  then show ?thesis
    using log_files_hold_the_packets [of example_clock "[]" log_example "''logs/''" "''.bin''" "Calendar Second" Binary log_machine
        "fst ?run" "fst (snd ?run)" "snd (snd ?run)"] by auto
qed

end
