(* ===== verification/Service_App.thy ===== *)
theory Service_App
  imports Ftp Log_File
begin

text \<open>
  \<^verbatim>\<open>ub service\<close> (\<^verbatim>\<open>apps/service.rs\<close>): the file service of this machine on the bus.  The connect to the
  server is an input; when the command does not end, its result is the bridge that serves the packets
  of the bus from then on, and the state of the service.
\<close>

definition RPC_PATH :: CliEntry where
  "RPC_PATH = \<lparr>names = [''P'', ''-path''], description = ''Rpc prefix path to service''\<rparr>"

definition FTP_DIRECTORY :: CliEntry where
  "FTP_DIRECTORY = \<lparr>names = [''d'', ''-directory''], description = ''FTP directory root in the local filesystem''\<rparr>"

definition FTP_ENTRIES :: "CliEntry list" where
  "FTP_ENTRIES = [RPC_HOST, RPC_PORT, FROM, RPC_PATH, FTP_DIRECTORY]"

definition SERVICE_USAGE :: string where
  "SERVICE_USAGE = ''Usage: ub service <service>'' @ newline @ newline @ ''Services:'' @ newline
     @ tab @ ''ftp'' @ tab @ tab @ ''Serves the files of a directory on the bus'' @ newline"

text \<open>
  The function \<^verbatim>\<open>ftp\<close>; the connect gives the address of the bus.  Texts of io errors and the reason why
  a number could not be parsed are left out of the errors.
\<close>

definition ftp_main ::
    "(string \<Rightarrow> u16 \<Rightarrow> i32 \<Rightarrow> string + i32) \<Rightarrow> fs_path \<Rightarrow> Machine \<Rightarrow> string list
      \<Rightarrow> (AppEnd \<times> string) + Ftp UartbusServiceBridge \<times> Ftp" where
  "ftp_main connect cwd m args =
     (case parse_or_help ''UartbusFtpServer'' args FTP_ENTRIES of
        Inl (exit_code, err) \<Rightarrow> Inl (AppExit exit_code, err)
      | Inr pa \<Rightarrow>
          (case get_simple FTP_DIRECTORY pa of
             None \<Rightarrow>
               (case eprintln ''FTP directory is not specified.'' (print_help_and_exit ''UartbusFtpServer'' 1 FTP_ENTRIES :: unit run) of
                  Inl (exit_code, err) \<Rightarrow> Inl (AppExit exit_code, err)
                | Inr _ \<Rightarrow> Inl (AppOk, ''''))
           | Some dir \<Rightarrow>
               (case (case get_simple RPC_PATH pa of
                        Some path \<Rightarrow>
                          (case parse_colon_data path of Some p \<Rightarrow> Inr p | None \<Rightarrow> Inl (''Invalid path `'' @ path @ ''`: ''))
                      | None \<Rightarrow> Inr []) of
                  Inl e \<Rightarrow> Inl (AppErr e, '''')
                | Inr path \<Rightarrow>
                    (case FtpBusService_new (path_from cwd dir) m of
                       (False, _) \<Rightarrow> Inl (AppErr (''Can'' @ [CHR 0x27] @ ''t serve the directory `'' @ dir @ ''`: ''), '''')
                     | (True, service) \<Rightarrow>
                         (case cli_bus_connect connect pa of
                            Inl e \<Rightarrow> Inl (AppErr e, '''')
                          | Inr bus_address \<Rightarrow>
                              Inr (\<lparr>bridge_service = FtpBusService, target_address = Some bus_address, bridge_path = path\<rparr>, service))))))"

definition service_main ::
    "(string \<Rightarrow> u16 \<Rightarrow> i32 \<Rightarrow> string + i32) \<Rightarrow> fs_path \<Rightarrow> Machine \<Rightarrow> string list
      \<Rightarrow> (AppEnd \<times> string) + Ftp UartbusServiceBridge \<times> Ftp" where
  "service_main connect cwd m args =
     (case args of
        name # rest \<Rightarrow> if name = ''ftp'' then ftp_main connect cwd m rest else Inl (AppExit 1, SERVICE_USAGE)
      | [] \<Rightarrow> Inl (AppExit 1, SERVICE_USAGE))"

subsection \<open>What is served\<close>

text \<open>The files are served at the address of the bus only, and below the path of the options.\<close>

lemma ftp_main_bridge:
  assumes "ftp_main connect cwd m args = Inr (bridge, w)"
  shows "bridge_service bridge = FtpBusService \<and> (\<exists>host port address bus_address. connect host port address = Inr bus_address
      \<and> target_address bridge = Some bus_address) \<and> (\<exists>dir. FtpBusService_new (path_from cwd dir) m = (True, w))"
  using assms
  by (auto simp: ftp_main_def cli_bus_connect_def split: sum.splits option.splits prod.splits bool.splits) blast+

lemma service_main_serves_its_address:
  assumes "service_main connect cwd m args = Inr (bridge, w)" and "\<And>host port address. connect host port address = Inr me"
    and "packet_new raw = Inr request" and "pkt_to request \<noteq> me"
  shows "feed_packet to_bytes_be bridge raw w = ([], w)"
proof -
  have "\<exists>args. ftp_main connect cwd m args = Inr (bridge, w)"
    using assms(1) by (auto simp: service_main_def split: list.splits if_splits)
  then obtain bus_address where "target_address bridge = Some bus_address" "bus_address = me"
    using ftp_main_bridge assms(2) by (metis sum.inject(2))
  then show ?thesis using assms(3,4) by (auto simp: feed_packet_def)
qed

end
