(* ===== verification/Spec2Isabelle.thy ===== *)
theory Spec2Isabelle
  imports Remote_Call Ihex_App Rpc_Client Upload Gateway Log_Sql Console Attach Statistics Service_App
begin

text \<open>
  A verification library for the PC side of uartbus, the Rust crate under
  \<^verbatim>\<open>src/source/rust/uartbus/src\<close>, with the part of the bootloader firmware it talks to
  (\<^verbatim>\<open>src/source/uc/bootloader\<close>).  File names below are relative to these two directories.

  \<^bold>\<open>The program.\<close>  A gateway connects a serial bus of microcontrollers to the PC.  The RPC server owns
  the gateway: a connector moves framed packets to and from it, an endpoint distributes them to the
  sessions of its clients, and the clients speak a JSON protocol over TCP.  A client builds a bus on
  its connection, which pairs requests with responses; devices are called through the bus, services of
  this machine (the file service) answer on it, and the subcommands of the executable use both.

  \<^bold>\<open>The theories\<close>, in the order they build on each other:

  \<^item> \<open>Prelude\<close>, \<open>Interfaces\<close>: types of the model (bytes, words, results with panics), big endian numbers, and
    the interfaces as locales: checksum byte, self delimiting codec, message stream, reader, queue.
    Each is interpreted where the code provides it.
  \<^item> \<open>Crc8\<close>, \<open>Varint\<close>, \<open>Text\<close> (\<^verbatim>\<open>tools.rs\<close>): the checksum is the bit serial CRC and detects bursts; packed
    integers round trip, are shortest, and the in-place variant agrees; Rust text functions.
  \<^item> \<open>Framing\<close> (\<^verbatim>\<open>framing.rs\<close>): frames are cut out of any splitting of the stream; resynchronization.
  \<^item> \<open>Packet\<close> (\<^verbatim>\<open>packet.rs\<close>), \<open>Rpc_Values\<close> (\<^verbatim>\<open>rpc/tools.rs\<close>, \<^verbatim>\<open>rpc/types.rs\<close>): assembling and parsing packets, readers that
    stay inside their data, typed values: round trip, typing, termination of reading.
  \<^item> \<open>Bus\<close> (\<^verbatim>\<open>rpc/bus.rs\<close>), \<open>Service\<close> (\<^verbatim>\<open>rpc/service.rs\<close>), \<open>Device\<close> (\<^verbatim>\<open>rpc/device.rs\<close>), \<open>Remote_Call\<close>: the pending
    transactions as a step relation with its invariants, the service bridge, device calls with
    retransmission, and their composition: a remote call returns what the service function returns.
  \<^item> \<open>Ihex\<close> (\<^verbatim>\<open>ihex.rs\<close>), \<open>Cli\<close> (\<^verbatim>\<open>cli.rs\<close>, \<^verbatim>\<open>apps/mod.rs\<close>, \<^verbatim>\<open>main.rs\<close>), \<open>Ihex_App\<close> (\<^verbatim>\<open>apps/ihex.rs\<close>): Intel HEX files, command line
    options, and the rewriting of interrupt vectors.
  \<^item> \<open>Endpoint\<close> (\<^verbatim>\<open>rpc/endpoint.rs\<close>), \<open>Base64\<close> (\<^verbatim>\<open>base64.rs\<close>), \<open>Rpc_Server\<close> (\<^verbatim>\<open>rpc/server.rs\<close>), \<open>Rpc_Client\<close>
    (\<^verbatim>\<open>rpc/client.rs\<close>): sessions and their queues, closing, and the refinement of the connection in the same
    process by the one over TCP.
  \<^item> \<open>Bootloader\<close> (\<^verbatim>\<open>ub_bootloader.c\<close>, \<^verbatim>\<open>ub_atmega.c\<close>), \<open>Upload\<close> (\<^verbatim>\<open>apps/upload.rs\<close>): flashing over a bus that loses
    packets ends, and success means that the memory holds the code.
  \<^item> \<open>File_System\<close> (a model of \<^verbatim>\<open>std::fs\<close>), \<open>Ftp\<close> (\<^verbatim>\<open>rpc/ftp.rs\<close>): the file service stays in its directory and its
    numbers survive a restart.
  \<^item> \<open>Connector\<close> (\<^verbatim>\<open>connector.rs\<close>), \<open>Streamer\<close> (\<^verbatim>\<open>rpc/streamer.rs\<close>), \<open>Gateway\<close> (\<^verbatim>\<open>apps/rpc_server.rs\<close>): the threads of the
    connector and of the client endpoint with all their interleavings: packets are transported, no
    process or connection is lost, and a reconnecting gateway is kept.
  \<^item> \<open>Clock\<close> (\<^verbatim>\<open>time.rs\<close>, \<^verbatim>\<open>log.rs\<close>), \<open>Commands\<close> (\<^verbatim>\<open>apps/mod.rs\<close>, \<^verbatim>\<open>apps/ping.rs\<close>, \<^verbatim>\<open>apps/blink.rs\<close>): timestamps, calendar units
    and log lines; the endpoint of the command line and the commands that send one packet again and
    again.
  \<^item> \<open>Log_File\<close> (\<^verbatim>\<open>apps/log_file.rs\<close>), \<open>Log_Sql\<close> (\<^verbatim>\<open>apps/log_sql.rs\<close>): the rotated files hold exactly the packets, the
    text for the database client is one harmless statement per packet.
  \<^item> \<open>Console\<close> (\<^verbatim>\<open>console.rs\<close>, \<^verbatim>\<open>apps/console.rs\<close>), \<open>Attach\<close> (\<^verbatim>\<open>apps/attach_process.rs\<close>): a session sends what is typed, with
    the addresses set before; command lines are split into their quoted arguments.
  \<^item> \<open>Statistics\<close> (\<^verbatim>\<open>apps/collision_packetloss.rs\<close>, \<^verbatim>\<open>apps/packetloss.rs\<close>): the counts of a statistic and, with a model
    of floating point rounding, that its percentages are correctly rounded.
  \<^item> \<open>Service_App\<close> (\<^verbatim>\<open>apps/service.rs\<close>): the file service on the address of the bus.

  \<^bold>\<open>How the code is modelled.\<close>  A struct is a record, an enum a datatype, a function keeps its name where
  Isabelle allows it.  Machine integers are words, \<^verbatim>\<open>usize\<close> is a natural number with the tests against
  \<^const>\<open>exceeds_usize\<close> where the code can exceed it, a \<^verbatim>\<open>BigInt\<close> is an integer.  Strings are their
  UTF-8 bytes.  A \<^verbatim>\<open>Result\<close> is a sum, a panic is a value of \<open>outcome\<close>.  Shared state behind a lock is
  passed explicitly; threads are sequences of their atomic steps, in any order.

  \<^bold>\<open>Parameters.\<close>  \<^verbatim>\<open>BigInt::to_bytes_be\<close> of num-bigint is a function with the law \<^const>\<open>be_bytes\<close> (shortest big
  endian digits); \<^const>\<open>be_digits\<close> is the instance of the witnesses.  serde\_json is a printer and a
  parser with round trip laws.  The calendar functions of libc are the record \<open>Clock\<close>.  The page instructions of the microcontroller are a record of functions.
  What the operating system answers (reads, writes, processes, connects) is an input of the steps.

  \<^bold>\<open>Bounds and fuel.\<close>  Reading a typed array takes a bound on its turns; \<open>read_type_ends\<close> shows that one turn
  more than there are bytes is enough.  The push and verify loops of the upload take a bound that is
  shown to be enough for every sequence of losses.  All other functions are total.

  \<^bold>\<open>Not modelled.\<close>  Sleeping, the signal handler, the accepting of TCP connections and the creation of
  threads, which have no result the program depends on; the calls of the logger inside the other
  components; \<^verbatim>\<open>rpc/virtual_bus.rs\<close>, which only puts an endpoint and buses together for tests; the reason
  that the standard library gives for a text that is no number, inside of error messages.  Outside of
  the crate, the Java predecessor of the tools, and the bus driver and the dispatch of requests in the
  firmware, which are interrupt handlers and register accesses of the controllers.
\<close>

end
